(* ===== verification/Prelude.thy ===== *)
theory Prelude
  imports Main "HOL-Library.Word" "HOL-Library.List_Lexorder"
begin

text \<open>
  What every component of the development shares: the machine types of the code, C++ strings
  as byte strings, the collections that the component proofs draw on, and lemmas on words and
  lists that are not about any one component.
\<close>

unbundle bit_operations_syntax

section \<open>Machine types\<close>

type_synonym u8 = "8 word"
type_synonym u16 = "16 word"
type_synonym u32 = "32 word"
type_synonym u64 = "64 word"

text \<open>
  \<open>int64_t\<close> is carried as its 64 bits and read with \<^const>\<open>sint\<close> where its sign matters.
  \<open>std::vector<uint8_t>\<close> and \<open>std::string\<close> are both byte sequences.  The order of
  \<open>std::string\<close> compares bytes as unsigned values, lexicographically, which is the order
  \<open>List_Lexorder\<close> gives to lists of words.
\<close>

type_synonym i64 = "64 word"
type_synonym bytes = "u8 list"

text \<open>A string literal of the source, as bytes.\<close>

definition str :: "string \<Rightarrow> bytes" where
  "str s = map of_char s"

lemma str_inject: "str s = str t \<longleftrightarrow> s = t"
proof -
  have "inj (of_char :: char \<Rightarrow> u8)"
  proof (rule injI)
    fix a b :: char
    assume "of_char a = (of_char b :: u8)"
    moreover have "unat (of_char c :: u8) = of_char c" for c :: char
      by (cases c) (simp add: of_char_def unat_of_nat)
    ultimately have "(of_char a :: nat) = of_char b"
      by metis
    then show "a = b"
      by (simp add: of_char_eq_iff)
  qed
  then show ?thesis
    by (simp add: str_def inj_map_eq_map)
qed

abbreviation slash :: u8 where
  "slash \<equiv> 47"

abbreviation backslash :: u8 where
  "backslash \<equiv> 92"

abbreviation dot :: u8 where
  "dot \<equiv> 46"

abbreviation colon :: u8 where
  "colon \<equiv> 58"

abbreviation star :: u8 where
  "star \<equiv> 42"

abbreviation question :: u8 where
  "question \<equiv> 63"

text \<open>\<open>std::to_string\<close> of an unsigned number.\<close>

fun decimal :: "nat \<Rightarrow> bytes" where
  "decimal n = (if n < 10 then [48 + of_nat n] else decimal (n div 10) @ [48 + of_nat (n mod 10)])"

declare decimal.simps [simp del]

text \<open>The characters outside ASCII that the program prints, in UTF-8.\<close>

definition em_dash :: bytes where
  "em_dash = [0xE2, 0x80, 0x94]"

definition ellipsis :: bytes where
  "ellipsis = [0xE2, 0x80, 0xA6]"

definition middle_dot :: bytes where
  "middle_dot = [0xC2, 0xB7]"

definition full_circle :: bytes where
  "full_circle = [0xE2, 0x97, 0x8F]"

definition open_circle :: bytes where
  "open_circle = [0xE2, 0x97, 0x8B]"

definition down_arrow :: bytes where
  "down_arrow = [0xE2, 0x86, 0x93]"

definition up_arrow :: bytes where
  "up_arrow = [0xE2, 0x86, 0x91]"

definition cross_mark :: bytes where
  "cross_mark = [0xE2, 0x9C, 0x97]"

definition check_mark :: bytes where
  "check_mark = [0xE2, 0x9C, 0x93]"

named_theorems codec_simps
  \<open>readers applied to what the writers produced\<close>

named_theorems map_simps
  \<open>the ordered map's operations through its lookup function\<close>

section \<open>Words\<close>

lemma unat_of_nat_small [simp]:
  "n < 2 ^ LENGTH('a) \<Longrightarrow> unat (of_nat n :: 'a::len word) = n"
  by (simp add: unat_of_nat)

lemma be_step:
  fixes v :: "'a::len word"
  shows "push_bit 8 (drop_bit (s + 8) v) OR ucast (ucast (drop_bit s v) :: u8) = drop_bit s v"
proof (rule bit_word_eqI)
  fix n
  assume "n < LENGTH('a)"
  then show "bit (push_bit 8 (drop_bit (s + 8) v) OR ucast (ucast (drop_bit s v) :: u8)) n
      = bit (drop_bit s v) n"
    by (auto simp: bit_simps add.commute add.left_commute dest: bit_imp_le_length)
qed

lemma be_top:
  fixes v :: "'a::len word"
  assumes "LENGTH('a) \<le> s + 8"
  shows "ucast (ucast (drop_bit s v) :: u8) = drop_bit s v"
proof (rule bit_word_eqI)
  fix n
  assume "n < LENGTH('a)"
  then show "bit (ucast (ucast (drop_bit s v) :: u8) :: 'a word) n = bit (drop_bit s v) n"
    using assms by (auto simp: bit_simps dest: bit_imp_le_length)
qed

section \<open>Lists\<close>

lemma take_drop_append_exact [simp]:
  "length xs = n \<Longrightarrow> take n (xs @ ys) = xs"
  "length xs = n \<Longrightarrow> drop n (xs @ ys) = ys"
  by simp_all

lemma map_of_rev_distinct:
  assumes "distinct (map fst xs)"
  shows "map_of (rev xs) = map_of xs"
proof
  fix k
  show "map_of (rev xs) k = map_of xs k"
  proof (cases "map_of xs k")
    case None
    then have "k \<notin> fst ` set xs"
      by (simp add: map_of_eq_None_iff)
    then have "map_of (rev xs) k = None"
      by (simp add: map_of_eq_None_iff)
    with None show ?thesis by simp
  next
    case (Some v)
    then have "(k, v) \<in> set (rev xs)"
      by (simp add: map_of_SomeD)
    moreover have "distinct (map fst (rev xs))"
      using assms by (simp add: rev_map [symmetric])
    ultimately show ?thesis
      using Some by simp
  qed
qed

section \<open>Lexicographic measures\<close>

lemma measures_le_lt:
  "f x \<le> f y \<Longrightarrow> g x < g y \<Longrightarrow> (x, y) \<in> measures [f, g, h]"
  "f x \<le> f y \<Longrightarrow> g x \<le> g y \<Longrightarrow> h x < h y \<Longrightarrow> (x, y) \<in> measures [f, g, h]"
  by auto

section \<open>Splitting at a separator\<close>

text \<open>The pieces between the separators: one more than there are separators, some may be empty.\<close>

primrec pieces :: "'a \<Rightarrow> 'a list \<Rightarrow> 'a list list" where
  "pieces sep [] = [[]]"
| "pieces sep (c # s) =
     (if c = sep then [] # pieces sep s else (c # hd (pieces sep s)) # tl (pieces sep s))"

lemma pieces_not_Nil [simp]: "pieces sep s \<noteq> []"
  by (cases s) auto

lemma pieces_append_sep: "sep \<notin> set s \<Longrightarrow> pieces sep (s @ sep # t) = s # pieces sep t"
  by (induction s) auto

lemma pieces_no_sep: "sep \<notin> set s \<Longrightarrow> pieces sep s = [s]"
  by (induction s) auto

lemma pieces_last:
  "dropWhile (\<lambda>c. c \<noteq> sep) s = [] \<Longrightarrow> takeWhile (\<lambda>c. c \<noteq> sep) s = s \<and> pieces sep s = [s]"
  by (auto simp: pieces_no_sep takeWhile_eq_all_conv)

lemma pieces_next:
  assumes "dropWhile (\<lambda>c. c \<noteq> sep) s = c # t"
  shows "pieces sep s = takeWhile (\<lambda>c. c \<noteq> sep) s # pieces sep t"
proof -
  have "c = sep"
    using hd_dropWhile [of "\<lambda>c. c \<noteq> sep" s] assms by simp
  then have "s = takeWhile (\<lambda>c. c \<noteq> sep) s @ sep # t"
    using takeWhile_dropWhile_id [of "\<lambda>c. c \<noteq> sep" s] assms by simp
  moreover have "sep \<notin> set (takeWhile (\<lambda>c. c \<noteq> sep) s)"
    by (auto dest: set_takeWhileD)
  ultimately show ?thesis
    by (metis pieces_append_sep)
qed

end
