(* ===== verification/Serialize.thy ===== *)
theory Serialize
  imports Prelude
begin

text \<open>
  The big-endian codec of \<open>core/serialize.h\<close>: the writer appends to a growable buffer, the
  reader is a bounds-checked cursor that turns \<open>ok\<close> off on the first short read and yields
  zeroes from then on.
\<close>

section \<open>BinaryWriter\<close>

type_synonym writer = bytes

definition w_u8 :: "u8 \<Rightarrow> writer \<Rightarrow> writer" where
  "w_u8 v w = w @ [v]"

definition w_u16 :: "u16 \<Rightarrow> writer \<Rightarrow> writer" where
  "w_u16 v w = (w @ [ucast (drop_bit 8 v)]) @ [ucast v]"

definition w_u32 :: "u32 \<Rightarrow> writer \<Rightarrow> writer" where
  "w_u32 v w = fold (\<lambda>s buf. buf @ [ucast (drop_bit s v)]) [24, 16, 8, 0] w"

definition w_u64 :: "u64 \<Rightarrow> writer \<Rightarrow> writer" where
  "w_u64 v w = fold (\<lambda>s buf. buf @ [ucast (drop_bit s v)]) [56, 48, 40, 32, 24, 16, 8, 0] w"

definition w_i64 :: "i64 \<Rightarrow> writer \<Rightarrow> writer" where
  "w_i64 v w = w_u64 v w"

definition w_raw :: "bytes \<Rightarrow> writer \<Rightarrow> writer" where
  "w_raw d w = w @ d"

text \<open>\<open>std::array<uint8_t, N>\<close> is its bytes; \<open>N\<close> is their number.\<close>

definition w_bytes :: "bytes \<Rightarrow> writer \<Rightarrow> writer" where
  "w_bytes a w = w_raw a w"

text \<open>The length prefixes are \<open>static_cast\<close>s: a longer argument wraps, as \<^const>\<open>of_nat\<close> does.\<close>

definition w_str16 :: "bytes \<Rightarrow> writer \<Rightarrow> writer" where
  "w_str16 s w = w_raw s (w_u16 (of_nat (length s)) w)"

definition w_blob32 :: "bytes \<Rightarrow> writer \<Rightarrow> writer" where
  "w_blob32 d w = w_raw d (w_u32 (of_nat (length d)) w)"

section \<open>BinaryReader\<close>

record reader =
  rd_data :: bytes  \<comment> \<open>the bytes from \<open>p_\<close> to \<open>end_\<close>\<close>
  rd_ok :: bool

definition reader_of :: "bytes \<Rightarrow> reader" where
  "reader_of b = \<lparr>rd_data = b, rd_ok = True\<rparr>"

definition remaining :: "reader \<Rightarrow> nat" where
  "remaining r = length (rd_data r)"

text \<open>The private \<open>take\<close>: may \<open>n\<close> bytes be read?\<close>

definition r_take :: "nat \<Rightarrow> reader \<Rightarrow> bool \<times> reader" where
  "r_take n r = (if \<not> rd_ok r \<or> remaining r < n then (False, r\<lparr>rd_ok := False\<rparr>) else (True, r))"

text \<open>\<open>p_ += n\<close>, after a successful \<open>take(n)\<close>.\<close>

definition r_skip :: "nat \<Rightarrow> reader \<Rightarrow> reader" where
  "r_skip n r = r\<lparr>rd_data := drop n (rd_data r)\<rparr>"

definition r_u8 :: "reader \<Rightarrow> u8 \<times> reader" where
  "r_u8 r = (case r_take 1 r of (good, r1) \<Rightarrow>
     if \<not> good then (0, r1) else (hd (rd_data r1), r_skip 1 r1))"

definition r_u16 :: "reader \<Rightarrow> u16 \<times> reader" where
  "r_u16 r = (case r_take 2 r of (good, r1) \<Rightarrow>
     if \<not> good then (0, r1)
     else (push_bit 8 (ucast (rd_data r1 ! 0)) OR ucast (rd_data r1 ! 1), r_skip 2 r1))"

text \<open>The shift-and-or loop of \<open>u32\<close> and \<open>u64\<close>.\<close>

definition be_value :: "bytes \<Rightarrow> 'a::len word" where
  "be_value bs = foldl (\<lambda>v b. push_bit 8 v OR ucast b) 0 bs"

definition r_u32 :: "reader \<Rightarrow> u32 \<times> reader" where
  "r_u32 r = (case r_take 4 r of (good, r1) \<Rightarrow>
     if \<not> good then (0, r1) else (be_value (take 4 (rd_data r1)), r_skip 4 r1))"

definition r_u64 :: "reader \<Rightarrow> u64 \<times> reader" where
  "r_u64 r = (case r_take 8 r of (good, r1) \<Rightarrow>
     if \<not> good then (0, r1) else (be_value (take 8 (rd_data r1)), r_skip 8 r1))"

definition r_i64 :: "reader \<Rightarrow> i64 \<times> reader" where
  "r_i64 r = r_u64 r"

definition r_bytes :: "nat \<Rightarrow> reader \<Rightarrow> bytes \<times> reader" where
  "r_bytes n r = (case r_take n r of (good, r1) \<Rightarrow>
     if good then (take n (rd_data r1), r_skip n r1) else (replicate n 0, r1))"

definition read_str :: "nat \<Rightarrow> reader \<Rightarrow> bytes \<times> reader" where
  "read_str n r = (case r_take n r of (good, r1) \<Rightarrow>
     if \<not> good then ([], r1) else (take n (rd_data r1), r_skip n r1))"

definition r_str16 :: "reader \<Rightarrow> bytes \<times> reader" where
  "r_str16 r = (case r_u16 r of (n, r1) \<Rightarrow> read_str (unat n) r1)"

definition r_blob32 :: "reader \<Rightarrow> bytes \<times> reader" where
  "r_blob32 r = (case r_u32 r of (n, r1) \<Rightarrow> read_str (unat n) r1)"

section \<open>What the writers append\<close>

definition be16 :: "u16 \<Rightarrow> bytes" where
  "be16 v = [ucast (drop_bit 8 v), ucast v]"

definition be32 :: "u32 \<Rightarrow> bytes" where
  "be32 v = map (\<lambda>s. ucast (drop_bit s v)) [24, 16, 8, 0]"

definition be64 :: "u64 \<Rightarrow> bytes" where
  "be64 v = map (\<lambda>s. ucast (drop_bit s v)) [56, 48, 40, 32, 24, 16, 8, 0]"

lemma length_be [simp]:
  "length (be16 a) = 2" "length (be32 b) = 4" "length (be64 c) = 8"
  by (simp_all add: be16_def be32_def be64_def)

lemma writer_append [codec_simps]:
  "w_u8 a w = w @ [a]"
  "w_u16 b w = w @ be16 b"
  "w_u32 c w = w @ be32 c"
  "w_u64 d w = w @ be64 d"
  "w_i64 e w = w @ be64 e"
  "w_raw x w = w @ x"
  "w_bytes x w = w @ x"
  "w_str16 x w = w @ be16 (of_nat (length x)) @ x"
  "w_blob32 x w = w @ be32 (of_nat (length x)) @ x"
  by (simp_all add: w_u8_def w_u16_def w_u32_def w_u64_def w_i64_def w_raw_def w_bytes_def
      w_str16_def w_blob32_def be16_def be32_def be64_def)

section \<open>Reading back what was written\<close>

lemma be_value_snoc [simp]: "be_value (bs @ [b]) = push_bit 8 (be_value bs) OR ucast b"
  by (simp add: be_value_def)

lemma be_value_be32: "be_value (be32 v) = v"
proof -
  have top: "ucast (ucast (drop_bit 24 v) :: u8) = (drop_bit 24 v :: u32)"
    by (rule be_top) simp
  have steps: "push_bit 8 (drop_bit 24 v) OR ucast (ucast (drop_bit 16 v) :: u8) = drop_bit 16 v"
    "push_bit 8 (drop_bit 16 v) OR ucast (ucast (drop_bit 8 v) :: u8) = drop_bit 8 v"
    "push_bit 8 (drop_bit 8 v) OR ucast (ucast (drop_bit 0 v) :: u8) = drop_bit 0 v"
    using be_step [of 16 v] be_step [of 8 v] be_step [of 0 v] by simp_all
  show ?thesis
    by (simp only: be32_def be_value_def list.map foldl.simps push_bit_of_0 or.left_neutral top steps)
      simp
qed

lemma be_value_be64: "be_value (be64 v) = v"
proof -
  have top: "ucast (ucast (drop_bit 56 v) :: u8) = (drop_bit 56 v :: u64)"
    by (rule be_top) simp
  have steps: "push_bit 8 (drop_bit 56 v) OR ucast (ucast (drop_bit 48 v) :: u8) = drop_bit 48 v"
    "push_bit 8 (drop_bit 48 v) OR ucast (ucast (drop_bit 40 v) :: u8) = drop_bit 40 v"
    "push_bit 8 (drop_bit 40 v) OR ucast (ucast (drop_bit 32 v) :: u8) = drop_bit 32 v"
    "push_bit 8 (drop_bit 32 v) OR ucast (ucast (drop_bit 24 v) :: u8) = drop_bit 24 v"
    "push_bit 8 (drop_bit 24 v) OR ucast (ucast (drop_bit 16 v) :: u8) = drop_bit 16 v"
    "push_bit 8 (drop_bit 16 v) OR ucast (ucast (drop_bit 8 v) :: u8) = drop_bit 8 v"
    "push_bit 8 (drop_bit 8 v) OR ucast (ucast (drop_bit 0 v) :: u8) = drop_bit 0 v"
    using be_step [of 48 v] be_step [of 40 v] be_step [of 32 v] be_step [of 24 v]
      be_step [of 16 v] be_step [of 8 v] be_step [of 0 v] by simp_all
  show ?thesis
    by (simp only: be64_def be_value_def list.map foldl.simps push_bit_of_0 or.left_neutral top steps)
      simp
qed

lemma be16_value:
  "push_bit 8 (ucast (ucast (drop_bit 8 v) :: u8)) OR ucast (ucast v :: u8) = (v :: u16)"
proof -
  have top: "ucast (ucast (drop_bit 8 v) :: u8) = (drop_bit 8 v :: u16)"
    by (rule be_top) simp
  have "push_bit 8 (drop_bit 8 v) OR ucast (ucast (drop_bit 0 v) :: u8) = drop_bit 0 v"
    using be_step [of 0 v] by simp
  then show ?thesis
    by (simp only: top) simp
qed

text \<open>
  A reader that still has what it needs returns what was written and is left with the rest.
\<close>

abbreviation rd :: "bytes \<Rightarrow> reader" where
  "rd b \<equiv> \<lparr>rd_data = b, rd_ok = True\<rparr>"

lemma rd_take_append [codec_simps]:
  "n \<le> length b \<Longrightarrow> r_take n (rd b) = (True, rd b)"
  "length b < n \<Longrightarrow> r_take n (rd b) = (False, \<lparr>rd_data = b, rd_ok = False\<rparr>)"
  by (simp_all add: r_take_def remaining_def)

lemma r_u8_rd [codec_simps]: "r_u8 (rd (a # rest)) = (a, rd rest)"
  by (simp add: r_u8_def codec_simps r_skip_def)

lemma r_u16_rd [codec_simps]: "r_u16 (rd (be16 v @ rest)) = (v, rd rest)"
  using be16_value [of v] by (simp add: r_u16_def codec_simps r_skip_def be16_def)

lemma r_u32_rd [codec_simps]: "r_u32 (rd (be32 v @ rest)) = (v, rd rest)"
  by (simp add: r_u32_def codec_simps r_skip_def be_value_be32)

lemma r_u64_rd [codec_simps]: "r_u64 (rd (be64 v @ rest)) = (v, rd rest)"
  by (simp add: r_u64_def codec_simps r_skip_def be_value_be64)

lemma r_i64_rd [codec_simps]: "r_i64 (rd (be64 v @ rest)) = (v, rd rest)"
  by (simp add: r_i64_def codec_simps)

lemma r_bytes_rd [codec_simps]: "length a = n \<Longrightarrow> r_bytes n (rd (a @ rest)) = (a, rd rest)"
  by (auto simp: r_bytes_def codec_simps r_skip_def)

lemma read_str_rd [codec_simps]: "length a = n \<Longrightarrow> read_str n (rd (a @ rest)) = (a, rd rest)"
  by (auto simp: read_str_def codec_simps r_skip_def)

lemma r_str16_rd [codec_simps]:
  "length s < 65536 \<Longrightarrow> r_str16 (rd (be16 (of_nat (length s)) @ s @ rest)) = (s, rd rest)"
  by (simp add: r_str16_def codec_simps)

lemma r_blob32_rd [codec_simps]:
  "length s < 4294967296 \<Longrightarrow> r_blob32 (rd (be32 (of_nat (length s)) @ s @ rest)) = (s, rd rest)"
  by (simp add: r_blob32_def codec_simps)

section \<open>The reader consumes exactly what a writer would have produced\<close>

lemma be_surj:
  assumes inj: "\<And>v :: 'a::len word. be_value (f v) = v"
    and len: "\<And>v. length (f v) = n" and width: "LENGTH('a) = 8 * n"
  shows "length b = n \<Longrightarrow> f (be_value b) = b"
proof -
  assume b: "length b = n"
  let ?S = "{b :: bytes. length b = n}"
  have "inj f"
    using inj by (metis injI)
  then have "card (range f) = CARD('a word)"
    by (simp add: card_image)
  also have "\<dots> = card ?S"
    using card_lists_length_eq [of "UNIV :: u8 set" n] width
    by (simp add: card_word power_mult)
  finally have "range f = ?S"
    using len finite_lists_length_eq [of "UNIV :: u8 set" n]
    by (intro card_subset_eq) auto
  with b obtain v where "b = f v"
    by blast
  then show ?thesis
    by (simp add: inj)
qed

lemma be32_be_value: "length b = 4 \<Longrightarrow> be32 (be_value b) = b"
  by (rule be_surj) (simp_all add: be_value_be32)

lemma be64_be_value: "length b = 8 \<Longrightarrow> be64 (be_value b) = b"
  by (rule be_surj) (simp_all add: be_value_be64)

lemma be_value_be16: "be_value (be16 v) = v"
  using be16_value [of v] by (simp add: be16_def be_value_def)

lemma be16_be_value: "length b = 2 \<Longrightarrow> be16 (be_value b) = b"
  by (rule be_surj) (simp_all add: be_value_be16)

lemma r_u16_be_value:
  "r_u16 r = (case r_take 2 r of (good, r1) \<Rightarrow>
     if \<not> good then (0, r1) else (be_value (take 2 (rd_data r1)), r_skip 2 r1))"
proof (cases "rd_ok r \<and> 2 \<le> remaining r")
  case True
  then obtain a b rest where "rd_data r = a # b # rest"
    by (auto simp: remaining_def numeral_2_eq_2 Suc_le_length_iff)
  with True show ?thesis
    by (simp add: r_u16_def r_take_def be_value_def)
next
  case False
  then show ?thesis
    by (auto simp: r_u16_def r_take_def)
qed

text \<open>
  What holds of every read: it never touches a byte past the end (what is left is a suffix of
  what there was), a failed reader stays failed, and a read that succeeds took the bytes the
  matching writer appends.
\<close>

definition reads :: "(reader \<Rightarrow> 'a \<times> reader) \<Rightarrow> ('a \<Rightarrow> bytes) \<Rightarrow> bool" where
  "reads f enc \<longleftrightarrow> (\<forall>r.
     (\<exists>k \<le> remaining r. rd_data (snd (f r)) = drop k (rd_data r)) \<and>
     (\<not> rd_ok r \<longrightarrow> \<not> rd_ok (snd (f r)) \<and> rd_data (snd (f r)) = rd_data r) \<and>
     (rd_ok (snd (f r)) \<longrightarrow> rd_data r = enc (fst (f r)) @ rd_data (snd (f r))))"

lemma reads_ok: "reads f enc \<Longrightarrow> rd_ok (snd (f r)) \<Longrightarrow> rd_ok r"
  by (auto simp: reads_def)

lemma reads_consumes:
  "reads f enc \<Longrightarrow> f r = (x, r1) \<Longrightarrow> rd_ok r1 \<Longrightarrow> rd_ok r \<and> rd_data r = enc x @ rd_data r1"
  by (metis fst_conv reads_def snd_conv)

lemma reads_suffix:
  "reads f enc \<Longrightarrow> f r = (x, r1) \<Longrightarrow> \<exists>k \<le> remaining r. rd_data r1 = drop k (rd_data r)"
  by (metis reads_def snd_conv)

lemma reads_failed:
  "reads f enc \<Longrightarrow> f r = (x, r1) \<Longrightarrow> \<not> rd_ok r \<Longrightarrow> \<not> rd_ok r1 \<and> rd_data r1 = rd_data r"
  by (metis reads_def snd_conv)

lemma reads_guarded:
  assumes f: "\<And>r. f r = (case r_take n r of (good, r1) \<Rightarrow>
     if \<not> good then (z, r1) else (g (take n (rd_data r1)), r_skip n r1))"
    and enc: "\<And>b. length b = n \<Longrightarrow> enc (g b) = b"
  shows "reads f enc"
  unfolding reads_def
proof
  fix r
  show "(\<exists>k \<le> remaining r. rd_data (snd (f r)) = drop k (rd_data r)) \<and>
     (\<not> rd_ok r \<longrightarrow> \<not> rd_ok (snd (f r)) \<and> rd_data (snd (f r)) = rd_data r) \<and>
     (rd_ok (snd (f r)) \<longrightarrow> rd_data r = enc (fst (f r)) @ rd_data (snd (f r)))"
  proof (cases "rd_ok r \<and> n \<le> remaining r")
    case True
    then show ?thesis
      by (auto simp: f r_take_def r_skip_def enc remaining_def)
  next
    case False
    then show ?thesis
      by (auto simp: f r_take_def intro: exI [of _ 0])
  qed
qed

lemma reads_u8: "reads r_u8 (\<lambda>v. [v])"
proof (rule reads_guarded [where n = 1 and g = hd and z = 0])
  fix r
  show "r_u8 r = (case r_take 1 r of (good, r1) \<Rightarrow>
      if \<not> good then (0, r1) else (hd (take 1 (rd_data r1)), r_skip 1 r1))"
    by (auto simp: r_u8_def r_take_def remaining_def)
next
  fix b :: bytes
  assume "length b = 1"
  then show "[hd b] = b"
    by (cases b) auto
qed

lemma reads_u16: "reads r_u16 be16"
  by (rule reads_guarded [where n = 2 and g = be_value and z = 0])
    (simp_all add: r_u16_be_value be16_be_value)

lemma reads_u32: "reads r_u32 be32"
  by (rule reads_guarded [where n = 4 and g = be_value and z = 0])
    (simp_all add: r_u32_def be32_be_value)

lemma reads_u64: "reads r_u64 be64"
  by (rule reads_guarded [where n = 8 and g = be_value and z = 0])
    (simp_all add: r_u64_def be64_be_value)

lemma reads_i64: "reads r_i64 be64"
  using reads_u64 by (simp add: reads_def r_i64_def)

lemma reads_bytes: "reads (r_bytes n) (\<lambda>a. a)"
  by (rule reads_guarded [where n = n and g = "\<lambda>b. b" and z = "replicate n 0"])
    (auto simp: r_bytes_def split: prod.splits)

lemma reads_read_str: "reads (read_str n) (\<lambda>a. a)"
  by (rule reads_guarded [where n = n and g = "\<lambda>b. b" and z = "[]"])
    (auto simp: read_str_def split: prod.splits)

lemma read_str_length: "read_str n r = (s, r1) \<Longrightarrow> rd_ok r1 \<Longrightarrow> length s = n"
  by (auto simp: read_str_def r_take_def remaining_def split: if_splits)

lemma reads_length_prefixed:
  assumes "reads len enc_len" and "\<And>n. enc_len n = be (unat n)"
    and f: "\<And>r. f r = (case len r of (n, r1) \<Rightarrow> read_str (unat n) r1)"
  shows "reads f (\<lambda>s. be (length s) @ s)"
  unfolding reads_def
proof
  fix r
  obtain n r1 where n: "len r = (n, r1)"
    by force
  obtain s r2 where s: "read_str (unat n) r1 = (s, r2)"
    by force
  have fr: "f r = (s, r2)"
    by (simp add: f n s)
  obtain k where k: "k \<le> remaining r" "rd_data r1 = drop k (rd_data r)"
    using reads_suffix [OF assms(1) n] by blast
  obtain k' where "k' \<le> remaining r1" "rd_data r2 = drop k' (rd_data r1)"
    using reads_suffix [OF reads_read_str s] by blast
  with k have suffix: "\<exists>k \<le> remaining r. rd_data r2 = drop k (rd_data r)"
    by (intro exI [of _ "k' + k"]) (auto simp: remaining_def)
  have failed: "\<not> rd_ok r2 \<and> rd_data r2 = rd_data r" if "\<not> rd_ok r"
    using reads_failed [OF assms(1) n that] reads_failed [OF reads_read_str s] by simp
  have "rd_data r = (be (length s) @ s) @ rd_data r2" if "rd_ok r2"
    using reads_consumes [OF reads_read_str s that] reads_consumes [OF assms(1) n]
      read_str_length [OF s that] assms(2) by simp
  with suffix failed fr
  show "(\<exists>k \<le> remaining r. rd_data (snd (f r)) = drop k (rd_data r)) \<and>
     (\<not> rd_ok r \<longrightarrow> \<not> rd_ok (snd (f r)) \<and> rd_data (snd (f r)) = rd_data r) \<and>
     (rd_ok (snd (f r)) \<longrightarrow> rd_data r = (be (length (fst (f r))) @ fst (f r)) @ rd_data (snd (f r)))"
    by simp
qed

lemma reads_str16: "reads r_str16 (\<lambda>s. be16 (of_nat (length s)) @ s)"
  by (rule reads_length_prefixed [where be = "\<lambda>n. be16 (of_nat n)" and len = r_u16, OF reads_u16])
    (simp_all add: r_str16_def)

lemma reads_blob32: "reads r_blob32 (\<lambda>s. be32 (of_nat (length s)) @ s)"
  by (rule reads_length_prefixed [where be = "\<lambda>n. be32 (of_nat n)" and len = r_u32, OF reads_u32])
    (simp_all add: r_blob32_def)

lemma r_str16_length: "r_str16 r = (s, r1) \<Longrightarrow> rd_ok r1 \<Longrightarrow> length s < 65536"
proof -
  assume "r_str16 r = (s, r1)" and ok: "rd_ok r1"
  then obtain n r0 where "read_str (unat (n :: u16)) r0 = (s, r1)"
    by (auto simp: r_str16_def split: prod.splits)
  from read_str_length [OF this ok] have "length s = unat n" .
  then show ?thesis
    using unsigned_less [of n] by simp
qed

lemma r_bytes_length: "r_bytes n r = (s, r1) \<Longrightarrow> length s = n"
  by (auto simp: r_bytes_def r_take_def remaining_def split: if_splits)

section \<open>Counted sequences of items\<close>

text \<open>
  Every list on the wire is a count followed by its items: the write loop is a \<open>for\<close> over the
  container, the read loop runs \<open>count\<close> times and gives up at the first item it refuses.
\<close>

definition put_each :: "('a \<Rightarrow> writer \<Rightarrow> writer) \<Rightarrow> 'a list \<Rightarrow> writer \<Rightarrow> writer" where
  "put_each put xs w = fold put xs w"

primrec read_each :: "(reader \<Rightarrow> ('a \<times> reader) option) \<Rightarrow> nat \<Rightarrow> reader \<Rightarrow> ('a list \<times> reader) option" where
  "read_each get 0 r = Some ([], r)"
| "read_each get (Suc n) r =
     (case get r of
        None \<Rightarrow> None
      | Some (x, r1) \<Rightarrow>
          (case read_each get n r1 of None \<Rightarrow> None | Some (xs, r2) \<Rightarrow> Some (x # xs, r2)))"

text \<open>
  The contract between one item's writer and reader.  \<open>width\<close> is the least number of bytes an
  item takes, which is what the decoders bound their counts with before they reserve memory.
\<close>

locale item_codec =
  fixes put :: "'a \<Rightarrow> writer \<Rightarrow> writer"
    and get :: "reader \<Rightarrow> ('a \<times> reader) option"
    and valid :: "'a \<Rightarrow> bool"
    and width :: nat
  assumes put_appends: "put x w = w @ put x []"
    and put_width: "valid x \<Longrightarrow> width \<le> length (put x [])"
    and get_put: "valid x \<Longrightarrow> get (rd (put x [] @ rest)) = Some (x, rd rest)"
    and get_consumes: "get r = Some (x, r1) \<Longrightarrow> rd_ok r1 \<Longrightarrow>
      rd_ok r \<and> valid x \<and> rd_data r = put x [] @ rd_data r1"
begin

lemma put_each_appends: "put_each put xs w = w @ put_each put xs []"
proof (induction xs arbitrary: w)
  case (Cons x xs)
  show ?case
    using put_appends [of x w] Cons.IH [of "put x w"] Cons.IH [of "put x []"]
    by (simp add: put_each_def)
qed (simp add: put_each_def)

lemma put_each_Cons: "put_each put (x # xs) [] = put x [] @ put_each put xs []"
  using put_each_appends [of xs "put x []"] by (simp add: put_each_def)

lemma put_each_width: "list_all valid xs \<Longrightarrow> width * length xs \<le> length (put_each put xs [])"
  by (induction xs) (auto simp: put_each_Cons put_each_def [of put "[]"] dest!: put_width)

lemma read_each_put_each:
  "list_all valid xs \<Longrightarrow>
   read_each get (length xs) (rd (put_each put xs [] @ rest)) = Some (xs, rd rest)"
proof (induction xs)
  case (Cons x xs)
  then show ?case
    using get_put [of x "put_each put xs [] @ rest"] by (simp add: put_each_Cons)
qed (simp add: put_each_def)

lemma read_each_consumes:
  "read_each get n r = Some (xs, r1) \<Longrightarrow> rd_ok r1 \<Longrightarrow>
   rd_ok r \<and> length xs = n \<and> list_all valid xs \<and> rd_data r = put_each put xs [] @ rd_data r1"
proof (induction n arbitrary: r xs)
  case 0
  then show ?case
    by (auto simp: put_each_def)
next
  case (Suc n)
  from Suc.prems obtain x r0 ys where x: "get r = Some (x, r0)"
    and ys: "read_each get n r0 = Some (ys, r1)" and xs: "xs = x # ys"
    by (auto split: option.splits)
  from Suc.IH [OF ys Suc.prems(2)] get_consumes [OF x] xs show ?case
    by (simp add: put_each_Cons)
qed

end

end
