(* ===== verification/Ordered_Map.thy ===== *)
theory Ordered_Map
  imports Prelude
begin

text \<open>
  \<open>std::map\<close>, the container behind a manifest: a strictly ascending association list with
  the operations the code uses (\<open>operator[]=\<close>, \<open>emplace\<close>, \<open>erase\<close>, \<open>find\<close>, iteration in key
  order), and the interface its clients rely on, as a locale.
\<close>

section \<open>The operations\<close>

type_synonym ('k, 'v) omap = "('k \<times> 'v) list"

fun om_find :: "('k, 'v) omap \<Rightarrow> 'k \<Rightarrow> 'v option" where
  "om_find [] k = None"
| "om_find ((j, v) # m) k = (if j = k then Some v else om_find m k)"

fun om_assign :: "'k::linorder \<Rightarrow> 'v \<Rightarrow> ('k, 'v) omap \<Rightarrow> ('k, 'v) omap" where
  "om_assign k v [] = [(k, v)]"
| "om_assign k v (e # m) =
     (if fst e < k then e # om_assign k v m
      else if fst e = k then (k, v) # m
      else (k, v) # e # m)"

text \<open>\<open>emplace\<close> leaves an existing entry alone.\<close>

definition om_emplace :: "'k::linorder \<Rightarrow> 'v \<Rightarrow> ('k, 'v) omap \<Rightarrow> ('k, 'v) omap" where
  "om_emplace k v m = (if om_find m k = None then om_assign k v m else m)"

definition om_erase :: "'k \<Rightarrow> ('k, 'v) omap \<Rightarrow> ('k, 'v) omap" where
  "om_erase k m = filter (\<lambda>e. fst e \<noteq> k) m"

definition om_inv :: "('k::linorder, 'v) omap \<Rightarrow> bool" where
  "om_inv m \<longleftrightarrow> sorted_wrt (\<lambda>e f. fst e < fst f) m"

section \<open>The interface\<close>

locale ordered_map =
  fixes empty :: 'm
    and assign :: "'k::linorder \<Rightarrow> 'v \<Rightarrow> 'm \<Rightarrow> 'm"
    and emplace :: "'k \<Rightarrow> 'v \<Rightarrow> 'm \<Rightarrow> 'm"
    and erase :: "'k \<Rightarrow> 'm \<Rightarrow> 'm"
    and lookup :: "'m \<Rightarrow> 'k \<Rightarrow> 'v option"
    and items :: "'m \<Rightarrow> ('k \<times> 'v) list"
    and inv :: "'m \<Rightarrow> bool"
  assumes inv_empty: "inv empty"
    and inv_assign: "inv m \<Longrightarrow> inv (assign k v m)"
    and inv_emplace: "inv m \<Longrightarrow> inv (emplace k v m)"
    and inv_erase: "inv m \<Longrightarrow> inv (erase k m)"
    and find_empty: "lookup empty = Map.empty"
    and find_assign: "inv m \<Longrightarrow> lookup (assign k v m) = (lookup m)(k \<mapsto> v)"
    and find_emplace: "inv m \<Longrightarrow> lookup (emplace k v m) = [k \<mapsto> v] ++ lookup m"
    and find_erase: "inv m \<Longrightarrow> lookup (erase k m) = (lookup m)(k := None)"
    and find_items: "inv m \<Longrightarrow> lookup m = map_of (items m)"
    and items_sorted: "inv m \<Longrightarrow> sorted_wrt (<) (map fst (items m))"
    and items_inject: "inv m \<Longrightarrow> inv n \<Longrightarrow> items m = items n \<Longrightarrow> m = n"
begin

lemma inv_assign_all: "inv m \<Longrightarrow> inv (fold (\<lambda>e. assign (fst e) (snd e)) es m)"
  by (induction es arbitrary: m) (auto simp: inv_assign)

lemma inv_emplace_all: "inv m \<Longrightarrow> inv (fold (\<lambda>e. emplace (fst e) (snd e)) es m)"
  by (induction es arbitrary: m) (auto simp: inv_emplace)

lemma inv_erase_all: "inv m \<Longrightarrow> inv (fold erase ks m)"
  by (induction ks arbitrary: m) (auto simp: inv_erase)

lemma find_assign_all:
  "inv m \<Longrightarrow> lookup (fold (\<lambda>e. assign (fst e) (snd e)) es m) = lookup m ++ map_of (rev es)"
  by (induction es arbitrary: m)
    (auto simp: inv_assign find_assign map_add_def fun_eq_iff split: option.splits)

lemma find_emplace_all:
  "inv m \<Longrightarrow> lookup (fold (\<lambda>e. emplace (fst e) (snd e)) es m) = map_of es ++ lookup m"
  by (induction es arbitrary: m)
    (auto simp: inv_emplace find_emplace map_add_def fun_eq_iff split: option.splits)

lemma find_erase_all: "inv m \<Longrightarrow> lookup (fold erase ks m) = lookup m |` (- set ks)"
  by (induction ks arbitrary: m) (auto simp: inv_erase find_erase restrict_map_def fun_eq_iff)

text \<open>Two maps with the same contents are the same map: their iteration orders agree.\<close>

lemma find_inject:
  assumes "inv m" "inv n" "lookup m = lookup n"
  shows "m = n"
proof -
  have "distinct (map fst (items m))" "distinct (map fst (items n))"
    using assms items_sorted strict_sorted_iff by blast+
  moreover have "map_of (items m) = map_of (items n)"
    using assms by (simp add: find_items)
  ultimately have "set (items m) = set (items n)"
    by (simp add: map_of_inject_set)
  moreover have "sorted (map fst (items m))" "sorted (map fst (items n))"
    using assms items_sorted strict_sorted_iff by blast+
  moreover have "inj_on fst (set (items m) \<union> set (items n))"
    using \<open>set (items m) = set (items n)\<close> \<open>distinct (map fst (items m))\<close>
    by (simp add: distinct_map)
  ultimately have "items m = items n"
    using \<open>distinct (map fst (items m))\<close> \<open>distinct (map fst (items n))\<close>
    by (intro map_sorted_distinct_set_unique)
  with assms items_inject show ?thesis by blast
qed

end

section \<open>The association list implements it\<close>

lemma om_inv_iff: "om_inv m \<longleftrightarrow> sorted_wrt (<) (map fst m)"
  by (simp add: om_inv_def sorted_wrt_map)

lemma om_inv_simps [simp]:
  "om_inv []"
  "om_inv (e # m) \<longleftrightarrow> (\<forall>f \<in> set m. fst e < fst f) \<and> om_inv m"
  by (simp_all add: om_inv_def)

lemma om_find_map_of: "om_find m = map_of m"
proof
  fix k
  show "om_find m k = map_of m k"
    by (induction m) (auto simp: eq_commute)
qed

lemma set_om_assign: "set (om_assign k v m) \<subseteq> insert (k, v) (set m)"
  by (induction m) auto

lemma om_inv_assign: "om_inv m \<Longrightarrow> om_inv (om_assign k v m)"
proof (induction m)
  case (Cons e m)
  have "fst e < fst f" if "fst e < k" "f \<in> set (om_assign k v m)" for f
    using that Cons.prems set_om_assign [of k v m] by auto
  with Cons show ?case
    by (auto simp: not_less le_less intro: less_trans)
qed simp

lemma om_find_assign: "om_inv m \<Longrightarrow> om_find (om_assign k v m) = (om_find m)(k \<mapsto> v)"
proof (induction m)
  case (Cons e m)
  then show ?case
    by (cases e) (auto simp: fun_eq_iff)
qed (auto simp: fun_eq_iff)

lemma om_find_erase: "om_find (om_erase k m) = (om_find m)(k := None)"
  by (induction m) (auto simp: om_erase_def fun_eq_iff)

interpretation om: ordered_map "[]" om_assign om_emplace om_erase om_find "\<lambda>m. m" om_inv
proof
  fix k :: 'a and v :: 'b and m n :: "('a, 'b) omap"
  assume m: "om_inv m"
  show "om_inv (om_assign k v m)"
    using m by (rule om_inv_assign)
  show "om_inv (om_emplace k v m)"
    using m by (simp add: om_emplace_def om_inv_assign)
  show "om_inv (om_erase k m)"
    using m by (simp add: om_erase_def om_inv_def sorted_wrt_filter)
  show "om_find (om_assign k v m) = (om_find m)(k \<mapsto> v)"
    using m by (rule om_find_assign)
  show "om_find (om_emplace k v m) = [k \<mapsto> v] ++ om_find m"
    using om_find_assign [OF m] by (auto simp: om_emplace_def map_add_def fun_eq_iff split: option.splits)
  show "om_find (om_erase k m) = (om_find m)(k := None)"
    by (rule om_find_erase)
  show "om_find m = map_of m"
    by (rule om_find_map_of)
  show "sorted_wrt (<) (map fst m)"
    using m by (simp add: om_inv_iff)
next
  show "om_find [] = (Map.empty :: 'a \<Rightarrow> 'b option)"
    by (simp add: fun_eq_iff)
qed simp_all

declare om.inv_empty [simp] om.inv_assign [simp] om.inv_emplace [simp] om.inv_erase [simp]

lemmas om_find_simps [map_simps] =
  om.find_empty om.find_assign om.find_emplace om.find_erase
  om.find_assign_all om.find_emplace_all om.find_erase_all

lemma om_distinct: "om_inv m \<Longrightarrow> distinct (map fst m)"
  by (simp add: om_inv_iff strict_sorted_iff)

lemma om_find_Some: "om_inv m \<Longrightarrow> om_find m k = Some v \<longleftrightarrow> (k, v) \<in> set m"
  by (simp add: om_find_map_of om_distinct)

lemma om_find_None: "om_find m k = None \<longleftrightarrow> k \<notin> fst ` set m"
  by (simp add: om_find_map_of map_of_eq_None_iff)

text \<open>Emplacing the entries of a map into an empty one in any order rebuilds it.\<close>

lemma om_emplace_all_self:
  assumes "om_inv m"
  shows "fold (\<lambda>e. om_emplace (fst e) (snd e)) m [] = m"
proof (rule om.find_inject)
  show "om_inv (fold (\<lambda>e. om_emplace (fst e) (snd e)) m [])"
    by (rule om.inv_emplace_all) simp
  show "om_find (fold (\<lambda>e. om_emplace (fst e) (snd e)) m []) = om_find m"
    by (simp add: om.find_emplace_all om.find_empty) (simp add: om_find_map_of)
qed (rule assms)

end
