(* ===== verification/Manifest.thy ===== *)
theory Manifest
  imports Serialize Ordered_Map
begin

text \<open>
  \<open>core/file_meta.h\<close>, \<open>core/manifest.h\<close> and \<open>core/manifest.cpp\<close>: a manifest maps relative paths to
  file metadata; patches are the differences of two manifests; both travel in one binary form.
  SHA-256 is librats' and a parameter wherever it is used.
\<close>

section \<open>File metadata\<close>

type_synonym hash = bytes
type_synonym path = bytes

record file_meta =
  fm_size :: u64
  fm_mtime :: i64
  fm_mode :: u32
  fm_hash :: hash

definition kExecutable :: u32 where
  "kExecutable = 1"

definition same_content :: "file_meta \<Rightarrow> file_meta \<Rightarrow> bool" where
  "same_content m n \<longleftrightarrow> fm_size m = fm_size n \<and> fm_hash m = fm_hash n"

definition meta_eq :: "file_meta \<Rightarrow> file_meta \<Rightarrow> bool" where
  "meta_eq m n \<longleftrightarrow> fm_size m = fm_size n \<and> fm_mtime m = fm_mtime n \<and> fm_mode m = fm_mode n
     \<and> fm_hash m = fm_hash n"

lemma meta_eq_iff [simp]: "meta_eq m n \<longleftrightarrow> m = n"
  by (cases m; cases n) (auto simp: meta_eq_def)

lemma same_content_refl [simp]: "same_content m m"
  by (simp add: same_content_def)

lemma same_content_sym: "same_content m n \<longleftrightarrow> same_content n m"
  by (auto simp: same_content_def)

lemma same_content_trans: "same_content l m \<Longrightarrow> same_content m n \<Longrightarrow> same_content l n"
  by (simp add: same_content_def)

section \<open>The manifest and its patches\<close>

type_synonym manifest = "(path, file_meta) omap"

record manifest_patch =
  mp_set :: "(path \<times> file_meta) list"
  mp_removed :: "path list"

definition empty_patch :: manifest_patch where
  "empty_patch = \<lparr>mp_set = [], mp_removed = []\<rparr>"

definition patch_empty :: "manifest_patch \<Rightarrow> bool" where
  "patch_empty p \<longleftrightarrow> mp_set p = [] \<and> mp_removed p = []"

definition patch_size :: "manifest_patch \<Rightarrow> nat" where
  "patch_size p = length (mp_set p) + length (mp_removed p)"

definition man_set :: "path \<Rightarrow> file_meta \<Rightarrow> manifest \<Rightarrow> manifest" where
  "man_set p m man = om_assign p m man"

definition man_remove :: "path \<Rightarrow> manifest \<Rightarrow> manifest" where
  "man_remove p man = om_erase p man"

definition man_find :: "manifest \<Rightarrow> path \<Rightarrow> file_meta option" where
  "man_find man p = om_find man p"

definition total_bytes :: "manifest \<Rightarrow> u64" where
  "total_bytes man = fold (\<lambda>e t. t + fm_size (snd e)) man 0"

definition man_apply :: "manifest_patch \<Rightarrow> manifest \<Rightarrow> manifest" where
  "man_apply p man =
     fold om_erase (mp_removed p) (fold (\<lambda>e. om_assign (fst e) (snd e)) (mp_set p) man)"

text \<open>The merge walk over two sorted manifests.\<close>

fun diff_manifests :: "manifest \<Rightarrow> manifest \<Rightarrow> manifest_patch" where
  "diff_manifests [] [] = empty_patch"
| "diff_manifests (a # as) [] =
     (let p = diff_manifests as [] in p\<lparr>mp_removed := fst a # mp_removed p\<rparr>)"
| "diff_manifests [] (b # bs) =
     (let p = diff_manifests [] bs in p\<lparr>mp_set := b # mp_set p\<rparr>)"
| "diff_manifests (a # as) (b # bs) =
     (if fst a < fst b then
        let p = diff_manifests as (b # bs) in p\<lparr>mp_removed := fst a # mp_removed p\<rparr>
      else if fst b < fst a then
        let p = diff_manifests (a # as) bs in p\<lparr>mp_set := b # mp_set p\<rparr>
      else
        let p = diff_manifests as bs
        in if \<not> meta_eq (snd a) (snd b) then p\<lparr>mp_set := b # mp_set p\<rparr> else p)"

section \<open>The codec\<close>

definition kMinEntryBytes :: nat where
  "kMinEntryBytes = 2 + 8 + 8 + 4 + 32"

definition write_entry :: "path \<times> file_meta \<Rightarrow> writer \<Rightarrow> writer" where
  "write_entry e w =
     (case e of (p, m) \<Rightarrow>
        let w = w_str16 p w;
            w = w_u64 (fm_size m) w;
            w = w_i64 (fm_mtime m) w;
            w = w_u32 (fm_mode m) w
        in w_bytes (fm_hash m) w)"

definition read_entry :: "reader \<Rightarrow> ((path \<times> file_meta) \<times> reader) option" where
  "read_entry r =
     (let (p, r) = r_str16 r;
          (size, r) = r_u64 r;
          (mtime, r) = r_i64 r;
          (mode, r) = r_u32 r;
          (hash, r) = r_bytes 32 r
      in if rd_ok r \<and> p \<noteq> []
         then Some ((p, \<lparr>fm_size = size, fm_mtime = mtime, fm_mode = mode, fm_hash = hash\<rparr>), r)
         else None)"

definition man_encode :: "manifest \<Rightarrow> writer \<Rightarrow> writer" where
  "man_encode man w = put_each write_entry man (w_u32 (of_nat (length man)) w)"

text \<open>The loop of \<open>Manifest::decode\<close>: \<open>n\<close> entries are still to be read.\<close>

primrec decode_entries :: "nat \<Rightarrow> reader \<Rightarrow> manifest \<Rightarrow> (manifest \<times> reader) option" where
  "decode_entries 0 r man = Some (man, r)"
| "decode_entries (Suc n) r man =
     (case read_entry r of
        None \<Rightarrow> None
      | Some (e, r1) \<Rightarrow> decode_entries n r1 (om_emplace (fst e) (snd e) man))"

definition man_decode :: "reader \<Rightarrow> manifest option" where
  "man_decode r =
     (let (count, r) = r_u32 r
      in case decode_entries (unat count) r [] of
           None \<Rightarrow> None
         | Some (man, r1) \<Rightarrow> if rd_ok r1 then Some man else None)"

definition patch_encode :: "manifest_patch \<Rightarrow> writer \<Rightarrow> writer" where
  "patch_encode p w =
     (let w = w_u32 (of_nat (length (mp_set p))) w;
          w = put_each write_entry (mp_set p) w;
          w = w_u32 (of_nat (length (mp_removed p))) w
      in put_each w_str16 (mp_removed p) w)"

definition read_removed :: "reader \<Rightarrow> (path \<times> reader) option" where
  "read_removed r = (let (p, r) = r_str16 r in if \<not> rd_ok r \<or> p = [] then None else Some (p, r))"

definition patch_decode :: "reader \<Rightarrow> (manifest_patch \<times> reader) option" where
  "patch_decode r =
     (let (n_set, r) = r_u32 r
      in if \<not> rd_ok r \<or> remaining r < unat n_set * kMinEntryBytes then None
         else case read_each read_entry (unat n_set) r of
           None \<Rightarrow> None
         | Some (es, r) \<Rightarrow>
             (let (n_del, r) = r_u32 r
              in if \<not> rd_ok r \<or> remaining r < unat n_del * 2 then None
                 else case read_each read_removed (unat n_del) r of
                   None \<Rightarrow> None
                 | Some (ps, r) \<Rightarrow> Some (\<lparr>mp_set = es, mp_removed = ps\<rparr>, r)))"

text \<open>
  The bytes \<open>fingerprint\<close> feeds to the hash: for every entry its path and a 44-byte block.  The
  incremental \<open>rats_sha256_*\<close> interface hashes the concatenation of its updates.
\<close>

definition fingerprint_block :: "file_meta \<Rightarrow> bytes" where
  "fingerprint_block m =
     map (\<lambda>i. ucast (drop_bit (56 - 8 * i) (fm_size m))) [0..<8] @
     map (\<lambda>i. ucast (drop_bit (24 - 8 * i) (fm_mode m))) [0..<4] @ fm_hash m"

definition fingerprint_input :: "manifest \<Rightarrow> bytes" where
  "fingerprint_input man = concat (map (\<lambda>e. fst e @ fingerprint_block (snd e)) man)"

definition fingerprint :: "(bytes \<Rightarrow> hash) \<Rightarrow> manifest \<Rightarrow> hash" where
  "fingerprint sha256 man = sha256 (fingerprint_input man)"

text \<open>
  What \<open>save\<close> hands to \<open>create_file_binary\<close>, and \<open>load\<close> on what \<open>read_file_binary\<close> returned (\<open>None\<close>
  for a null pointer).
\<close>

definition man_save :: "manifest \<Rightarrow> bytes" where
  "man_save man = man_encode man []"

definition man_load :: "bytes option \<Rightarrow> manifest option" where
  "man_load raw = (case raw of None \<Rightarrow> None | Some d \<Rightarrow> man_decode (reader_of d))"

section \<open>Codec lemmas\<close>

definition valid_entry :: "path \<times> file_meta \<Rightarrow> bool" where
  "valid_entry e \<longleftrightarrow> fst e \<noteq> [] \<and> length (fst e) < 65536 \<and> length (fm_hash (snd e)) = 32"

definition valid_removed :: "path \<Rightarrow> bool" where
  "valid_removed p \<longleftrightarrow> p \<noteq> [] \<and> length p < 65536"

definition entry_bytes :: "path \<times> file_meta \<Rightarrow> bytes" where
  "entry_bytes e = be16 (of_nat (length (fst e))) @ fst e @ be64 (fm_size (snd e)) @
     be64 (fm_mtime (snd e)) @ be32 (fm_mode (snd e)) @ fm_hash (snd e)"

lemma write_entry_bytes [codec_simps]: "write_entry e w = w @ entry_bytes e"
  by (cases e) (simp add: write_entry_def entry_bytes_def codec_simps Let_def)

lemma read_entry_consumes:
  assumes "read_entry r = Some (e, r1)"
  shows "rd_ok r1 \<and> rd_ok r \<and> valid_entry e \<and> rd_data r = entry_bytes e @ rd_data r1"
proof -
  obtain p ra where p: "r_str16 r = (p, ra)" by force
  obtain sz rb where sz: "r_u64 ra = (sz, rb)" by force
  obtain mt rc where mt: "r_i64 rb = (mt, rc)" by force
  obtain md re where md: "r_u32 rc = (md, re)" by force
  obtain h rf where h: "r_bytes 32 re = (h, rf)" by force
  have e: "e = (p, \<lparr>fm_size = sz, fm_mtime = mt, fm_mode = md, fm_hash = h\<rparr>)" "r1 = rf"
    and ok: "rd_ok rf" "p \<noteq> []"
    using assms by (auto simp: read_entry_def p sz mt md h split: if_splits)
  note hs = reads_consumes [OF reads_bytes h ok(1)]
  note mds = reads_consumes [OF reads_u32 md] reads_consumes [OF reads_i64 mt]
    reads_consumes [OF reads_u64 sz] reads_consumes [OF reads_str16 p]
  show ?thesis
    using hs mds e ok r_str16_length [OF p] r_bytes_length [OF h]
    by (simp add: valid_entry_def entry_bytes_def)
qed

lemma read_entry_rd [codec_simps]:
  assumes "valid_entry e"
  shows "read_entry (rd (entry_bytes e @ rest)) = Some (e, rd rest)"
  using assms
  by (cases e) (simp add: valid_entry_def entry_bytes_def read_entry_def codec_simps)

interpretation entry_codec: item_codec write_entry read_entry valid_entry kMinEntryBytes
proof
  fix e :: "path \<times> file_meta" and w rest :: bytes and r r1 :: reader
  show "write_entry e w = w @ write_entry e []"
    by (simp add: codec_simps)
  show "valid_entry e \<Longrightarrow> kMinEntryBytes \<le> length (write_entry e [])"
    by (simp add: codec_simps entry_bytes_def kMinEntryBytes_def valid_entry_def)
  show "valid_entry e \<Longrightarrow> read_entry (rd (write_entry e [] @ rest)) = Some (e, rd rest)"
    by (simp add: codec_simps)
  show "read_entry r = Some (e, r1) \<Longrightarrow> rd_ok r1 \<Longrightarrow>
      rd_ok r \<and> valid_entry e \<and> rd_data r = write_entry e [] @ rd_data r1"
    using read_entry_consumes by (auto simp: codec_simps)
qed

interpretation removed_codec: item_codec w_str16 read_removed valid_removed 2
proof
  fix p :: path and w rest :: bytes and r r1 :: reader
  show "w_str16 p w = w @ w_str16 p []"
    by (simp add: codec_simps)
  show "valid_removed p \<Longrightarrow> 2 \<le> length (w_str16 p [])"
    by (simp add: codec_simps)
  show "valid_removed p \<Longrightarrow> read_removed (rd (w_str16 p [] @ rest)) = Some (p, rd rest)"
    by (simp add: codec_simps read_removed_def valid_removed_def)
  assume "read_removed r = Some (p, r1)" "rd_ok r1"
  then have s: "r_str16 r = (p, r1)" and "p \<noteq> []"
    by (auto simp: read_removed_def Let_def split: prod.splits if_splits)
  then show "rd_ok r \<and> valid_removed p \<and> rd_data r = w_str16 p [] @ rd_data r1"
    using reads_consumes [OF reads_str16 s \<open>rd_ok r1\<close>] r_str16_length [OF s \<open>rd_ok r1\<close>]
    by (simp add: valid_removed_def codec_simps)
qed

lemma read_each_stays_ok:
  assumes "\<And>r x r1. get r = Some (x, r1) \<Longrightarrow> rd_ok r1"
  shows "read_each get n r = Some (xs, r1) \<Longrightarrow> rd_ok r \<Longrightarrow> rd_ok r1"
  by (induction n arbitrary: r xs) (fastforce split: option.splits dest: assms)+

lemma read_removed_ok: "read_removed r = Some (p, r1) \<Longrightarrow> rd_ok r1"
  by (auto simp: read_removed_def Let_def split: prod.splits if_splits)

lemma decode_entries_read_each:
  "decode_entries n r man =
     map_option (\<lambda>(es, r1). (fold (\<lambda>e. om_emplace (fst e) (snd e)) es man, r1)) (read_each read_entry n r)"
  by (induction n arbitrary: r man) (auto split: option.splits)

definition valid_manifest :: "manifest \<Rightarrow> bool" where
  "valid_manifest man \<longleftrightarrow> om_inv man \<and> list_all valid_entry man \<and> length man < 2 ^ 32"

definition valid_patch :: "manifest_patch \<Rightarrow> bool" where
  "valid_patch p \<longleftrightarrow> list_all valid_entry (mp_set p) \<and> length (mp_set p) < 2 ^ 32
     \<and> list_all valid_removed (mp_removed p) \<and> length (mp_removed p) < 2 ^ 32"

lemma man_encode_bytes:
  "man_encode man w = w @ be32 (of_nat (length man)) @ put_each write_entry man []"
  using entry_codec.put_each_appends [of man "w_u32 (of_nat (length man)) w"]
  by (simp add: man_encode_def codec_simps)

lemma patch_encode_bytes:
  "patch_encode p w = w @ be32 (of_nat (length (mp_set p))) @ put_each write_entry (mp_set p) [] @
     be32 (of_nat (length (mp_removed p))) @ put_each w_str16 (mp_removed p) []"
  using entry_codec.put_each_appends [of "mp_set p" "w_u32 (of_nat (length (mp_set p))) w"]
    removed_codec.put_each_appends [of "mp_removed p" "w_u32 (of_nat (length (mp_removed p)))
      (put_each write_entry (mp_set p) (w_u32 (of_nat (length (mp_set p))) w))"]
  by (simp add: patch_encode_def codec_simps Let_def)

lemma man_decode_encode:
  assumes "valid_manifest man"
  shows "man_decode (rd (man_encode man [] @ rest)) = Some man"
  using assms entry_codec.read_each_put_each [of man rest]
  by (simp add: valid_manifest_def man_decode_def man_encode_bytes codec_simps
      decode_entries_read_each om_emplace_all_self)

lemma patch_decode_encode:
  assumes "valid_patch p"
  shows "patch_decode (rd (patch_encode p [] @ rest)) = Some (p, rd rest)"
proof -
  let ?tail = "be32 (of_nat (length (mp_removed p))) @ put_each w_str16 (mp_removed p) [] @ rest"
  have "length (mp_set p) * kMinEntryBytes \<le> length (put_each write_entry (mp_set p) [])"
    "length (mp_removed p) * 2 \<le> length (put_each w_str16 (mp_removed p) [])"
    using assms entry_codec.put_each_width [of "mp_set p"]
      removed_codec.put_each_width [of "mp_removed p"]
    by (simp_all add: valid_patch_def mult.commute)
  then show ?thesis
    using assms entry_codec.read_each_put_each [of "mp_set p" ?tail]
      removed_codec.read_each_put_each [of "mp_removed p" rest]
    by (simp add: patch_decode_def patch_encode_bytes codec_simps valid_patch_def remaining_def Let_def)
qed

lemma patch_decode_consumes:
  assumes "patch_decode r = Some (p, r1)"
  shows "valid_patch p \<and> rd_ok r1 \<and> rd_data r = patch_encode p [] @ rd_data r1"
proof -
  obtain n ra where n: "r_u32 r = (n, ra)" by force
  with assms obtain es rb where ok_a: "rd_ok ra" and es: "read_each read_entry (unat n) ra = Some (es, rb)"
    by (auto simp: patch_decode_def Let_def split: if_splits option.splits)
  obtain d rc where d: "r_u32 rb = (d, rc)" by force
  with assms n es obtain ps where ok_c: "rd_ok rc"
    and ps: "read_each read_removed (unat d) rc = Some (ps, r1)"
    and p: "p = \<lparr>mp_set = es, mp_removed = ps\<rparr>"
    by (auto simp: patch_decode_def Let_def split: if_splits option.splits prod.splits)
  have ok_1: "rd_ok r1"
    by (rule read_each_stays_ok [OF _ ps ok_c]) (rule read_removed_ok)
  note parts = removed_codec.read_each_consumes [OF ps ok_1] reads_consumes [OF reads_u32 d ok_c]
    entry_codec.read_each_consumes [OF es] reads_consumes [OF reads_u32 n ok_a]
  have counts: "of_nat (unat n) = n" "of_nat (unat d) = d" "unat n < 2 ^ 32" "unat d < 2 ^ 32"
    using unsigned_less [of n] unsigned_less [of d] by simp_all
  from parts p counts ok_1 show ?thesis
    by (auto simp: valid_patch_def patch_encode_bytes)
qed

section \<open>Patches\<close>

lemma man_find_om [map_simps]: "man_find man = om_find man"
  by (simp add: man_find_def fun_eq_iff)

lemma om_inv_man_apply [simp]: "om_inv man \<Longrightarrow> om_inv (man_apply p man)"
  by (simp add: man_apply_def om.inv_assign_all om.inv_erase_all)

lemma man_find_apply [map_simps]:
  "om_inv man \<Longrightarrow> om_find (man_apply p man) =
     (om_find man ++ map_of (rev (mp_set p))) |` (- set (mp_removed p))"
  by (simp add: man_apply_def om.inv_assign_all om.find_assign_all om.find_erase_all)

text \<open>
  What the merge walk emits: the removed paths are those only \<open>from\<close> has, the set entries are
  those of \<open>to\<close> that \<open>from\<close> lacks or holds differently.
\<close>

lemma om_find_below: "om_inv m \<Longrightarrow> (\<forall>f \<in> set m. k < fst f) \<Longrightarrow> om_find m k = None"
  by (auto simp: om_find_None)

lemma diff_manifests_removed:
  "om_inv a \<Longrightarrow> om_inv b \<Longrightarrow>
   set (mp_removed (diff_manifests a b)) = fst ` set a - fst ` set b"
proof (induction a b rule: diff_manifests.induct)
  case (4 a as b bs)
  then show ?case
    by (cases "fst a < fst b"; cases "fst b < fst a") (auto simp: Let_def)
qed (auto simp: empty_patch_def Let_def)

lemma diff_manifests_set:
  "om_inv a \<Longrightarrow> om_inv b \<Longrightarrow>
   mp_set (diff_manifests a b) = filter (\<lambda>e. om_find a (fst e) \<noteq> Some (snd e)) b"
proof (induction a b rule: diff_manifests.induct)
  case (4 a as b bs)
  obtain ka va kb vb where ab: "a = (ka, va)" "b = (kb, vb)"
    by (cases a, cases b)
  have skip: "filter (\<lambda>e. om_find (a # as) (fst e) \<noteq> Some (snd e)) bs =
      filter (\<lambda>e. om_find as (fst e) \<noteq> Some (snd e)) bs" if "ka \<le> kb"
    using that "4.prems" ab by (intro filter_cong) auto
  consider "ka < kb" | "kb < ka" | "ka = kb" by fastforce
  then show ?case
  proof cases
    case 1
    then show ?thesis
      using "4.IH"(1) "4.prems" skip ab by (auto simp: Let_def)
  next
    case 2
    then have "om_find (a # as) kb = None"
      using "4.prems" ab by (intro om_find_below) auto
    then show ?thesis
      using 2 "4.IH"(2) "4.prems" ab by (auto simp: Let_def)
  next
    case 3
    then show ?thesis
      using "4.IH"(3) "4.prems" skip ab by (auto simp: Let_def)
  qed
qed (auto simp: empty_patch_def Let_def filter_id_conv)

lemma man_apply_diff:
  assumes "om_inv a" "om_inv b"
  shows "man_apply (diff_manifests a b) a = b"
proof (rule om.find_inject)
  show "om_find (man_apply (diff_manifests a b) a) = om_find b"
  proof
    fix k
    have distinct: "distinct (map fst (filter P b))" for P
      using om_distinct [OF assms(2)] by (rule distinct_map_filter)
    show "om_find (man_apply (diff_manifests a b) a) k = om_find b k"
    proof (cases "om_find b k")
      case None
      then have "k \<notin> fst ` set b"
        by (simp add: om_find_None)
      moreover from this have "map_of (rev (filter P b)) k = None" for P
        by (auto simp: map_of_eq_None_iff)
      moreover have "om_find a k = None" if "k \<notin> fst ` set a"
        using that by (simp add: om_find_None)
      ultimately show ?thesis
        using assms None
        by (simp add: man_find_apply diff_manifests_removed diff_manifests_set restrict_map_def
            map_add_def)
    next
      case (Some v)
      then have kv: "(k, v) \<in> set b"
        using assms by (simp add: om_find_Some)
      then have in_b: "k \<in> fst ` set b"
        by force
      have "map_of (rev (filter (\<lambda>e. om_find a (fst e) \<noteq> Some (snd e)) b)) k =
          (if om_find a k \<noteq> Some v then Some v else None)"
        using kv om_distinct [OF assms(2)] distinct
        by (auto simp: map_of_rev_distinct map_of_eq_None_iff dest: eq_key_imp_eq_value)
      with Some in_b assms show ?thesis
        by (auto simp: man_find_apply diff_manifests_removed diff_manifests_set restrict_map_def
            map_add_def split: option.splits)
    qed
  qed
qed (use assms in simp_all)

lemma diff_manifests_empty_iff:
  assumes "om_inv a" "om_inv b"
  shows "patch_empty (diff_manifests a b) \<longleftrightarrow> a = b"
proof
  assume "patch_empty (diff_manifests a b)"
  then have "man_apply (diff_manifests a b) a = a"
    by (simp add: patch_empty_def man_apply_def)
  with man_apply_diff [OF assms] show "a = b"
    by simp
next
  assume "a = b"
  then have "mp_removed (diff_manifests a b) = []" "mp_set (diff_manifests a b) = []"
    using assms diff_manifests_removed [OF assms]
    by (auto simp: diff_manifests_set om_find_Some filter_empty_conv)
  then show "patch_empty (diff_manifests a b)"
    by (simp add: patch_empty_def)
qed

lemma length_diff_removed: "length (mp_removed (diff_manifests a b)) \<le> length a"
  by (induction a b rule: diff_manifests.induct) (auto simp: empty_patch_def Let_def)

lemma valid_patch_diff:
  assumes "valid_manifest a" "valid_manifest b"
  shows "valid_patch (diff_manifests a b)"
proof -
  have inv: "om_inv a" "om_inv b"
    using assms by (simp_all add: valid_manifest_def)
  have "length (mp_set (diff_manifests a b)) \<le> length b"
    using inv by (simp add: diff_manifests_set)
  moreover have "list_all valid_entry (mp_set (diff_manifests a b))"
    using inv assms by (auto simp: diff_manifests_set valid_manifest_def list_all_iff)
  moreover have "list_all valid_removed (mp_removed (diff_manifests a b))"
    using diff_manifests_removed [OF inv] assms
    by (auto simp: valid_manifest_def list_all_iff valid_entry_def valid_removed_def)
  ultimately show ?thesis
    using length_diff_removed [of a b] assms by (simp add: valid_patch_def valid_manifest_def)
qed

lemma decode_entries_valid:
  assumes "decode_entries n r [] = Some (man, r1)" "rd_ok r1"
  shows "om_inv man \<and> list_all valid_entry man"
proof -
  from assms obtain es where es: "read_each read_entry n r = Some (es, r1)"
    and man: "man = fold (\<lambda>e. om_emplace (fst e) (snd e)) es []"
    by (auto simp: decode_entries_read_each)
  have inv: "om_inv man"
    unfolding man by (rule om.inv_emplace_all) simp
  have "om_find man = map_of es"
    unfolding man by (simp add: om.find_emplace_all om.find_empty)
  then have "set man \<subseteq> set es"
    using inv by (auto simp: om_find_Some [symmetric] dest: map_of_SomeD)
  with inv entry_codec.read_each_consumes [OF es assms(2)] show ?thesis
    by (auto simp: list_all_iff)
qed

section \<open>The fingerprint\<close>

lemma fingerprint_block_bytes:
  "fingerprint_block m = be64 (fm_size m) @ be32 (fm_mode m) @ fm_hash m"
  by (simp add: fingerprint_block_def be64_def be32_def upt_rec)

text \<open>What a fingerprint can tell of an entry: everything but its mtime.\<close>

definition fp_view :: "path \<times> file_meta \<Rightarrow> path \<times> u64 \<times> u32 \<times> hash" where
  "fp_view e = (fst e, fm_size (snd e), fm_mode (snd e), fm_hash (snd e))"

text \<open>
  Entries a real tree can produce: file names hold no NUL byte, and no file reaches 2 ^ 56 bytes.
\<close>

definition fp_regular :: "path \<times> file_meta \<Rightarrow> bool" where
  "fp_regular e \<longleftrightarrow> 0 \<notin> set (fst e) \<and> unat (fm_size (snd e)) < 2 ^ 56 \<and> length (fm_hash (snd e)) = 32"

lemma be64_inj: "be64 a = be64 b \<Longrightarrow> a = b"
  by (metis be_value_be64)

lemma be32_inj: "be32 a = be32 b \<Longrightarrow> a = b"
  by (metis be_value_be32)

lemma fingerprint_block_starts_zero:
  assumes "unat (fm_size m) < 2 ^ 56"
  obtains rest where "fingerprint_block m = 0 # rest"
proof -
  have "drop_bit 56 (fm_size m) = 0"
    using assms by (simp add: drop_bit_eq_div word_arith_nat_div word_less_nat_alt flip: unat_0_iff)
  then show ?thesis
    using that by (simp add: fingerprint_block_bytes be64_def)
qed

lemma path_split_unique:
  assumes "0 \<notin> set p" "0 \<notin> set q" "p @ 0 # x = q @ 0 # (y :: bytes)"
  shows "p = q \<and> x = y"
proof -
  have prefix: "takeWhile ((\<noteq>) 0) (s @ 0 # z) = s" if "0 \<notin> set s" for s z :: bytes
    using that by (induction s) auto
  from prefix [OF assms(1), of x] prefix [OF assms(2), of y] assms(3) have "p = q" by simp
  with assms(3) show ?thesis by simp
qed

lemma fingerprint_input_Cons:
  "fingerprint_input (e # man) = fst e @ fingerprint_block (snd e) @ fingerprint_input man"
  by (simp add: fingerprint_input_def)

lemma fingerprint_entry_unique:
  assumes "fp_regular e" "fp_regular f"
    and eq: "fst e @ fingerprint_block (snd e) @ x = fst f @ fingerprint_block (snd f) @ y"
  shows "fp_view e = fp_view f \<and> x = y"
proof -
  obtain eb fb where blocks: "fingerprint_block (snd e) = 0 # eb" "fingerprint_block (snd f) = 0 # fb"
    using assms fingerprint_block_starts_zero unfolding fp_regular_def by metis
  have "fst e = fst f \<and> fingerprint_block (snd e) @ x = fingerprint_block (snd f) @ y"
    using path_split_unique [of "fst e" "fst f" "eb @ x" "fb @ y"] assms blocks
    by (simp add: fp_regular_def)
  then show ?thesis
    using assms by (auto simp: fp_regular_def fp_view_def fingerprint_block_bytes be64_inj be32_inj)
qed

lemma fingerprint_input_inj:
  "list_all fp_regular a \<Longrightarrow> list_all fp_regular b \<Longrightarrow> fingerprint_input a = fingerprint_input b \<Longrightarrow>
   map fp_view a = map fp_view b"
proof (induction a arbitrary: b)
  case Nil
  then show ?case
    by (cases b) (auto simp: fingerprint_input_Cons fingerprint_block_bytes fingerprint_input_def
        dest: arg_cong [of _ _ length])
next
  case (Cons e a)
  show ?case
  proof (cases b)
    case Nil
    with Cons.prems show ?thesis
      by (auto simp: fingerprint_input_Cons fingerprint_block_bytes fingerprint_input_def
          dest: arg_cong [of _ _ length])
  next
    case (Cons f b')
    with Cons.prems Cons.IH [of b'] fingerprint_entry_unique [of e f] show ?thesis
      by (simp add: fingerprint_input_Cons)
  qed
qed

section \<open>Properties\<close>

text \<open>C28. An incremental advertisement is exact over the wire: decoding the encoded difference of two
  manifests and applying it to the old one gives the new one, whatever follows the patch in the
  message.\<close>

theorem manifest_update_exact:
  assumes "valid_manifest old" "valid_manifest new"
  shows "\<exists>p. patch_decode (reader_of (patch_encode (diff_manifests old new) [] @ rest)) = Some (p, rd rest)
    \<and> man_apply p old = new"
  using patch_decode_encode [OF valid_patch_diff [OF assms], of rest]
    man_apply_diff [of old new] assms
  by (simp add: reader_of_def valid_manifest_def)

text \<open>A manifest with one file, for the witnesses.\<close>

definition sample_meta :: file_meta where
  "sample_meta = \<lparr>fm_size = 3, fm_mtime = 5, fm_mode = 0, fm_hash = replicate 32 7\<rparr>"

lemma valid_manifest_samples [simp]:
  "valid_manifest []" "valid_manifest [([97], sample_meta)]"
  by (simp_all add: valid_manifest_def valid_entry_def sample_meta_def)

theorem manifest_update_exact_witness:
  "valid_manifest [([97], sample_meta)] \<and>
   (\<exists>p. patch_decode (reader_of (patch_encode (diff_manifests [] [([97], sample_meta)]) [] @ [1])) =
      Some (p, rd [1]) \<and> man_apply p [] = [([97], sample_meta)])"
  using manifest_update_exact [of "[]" "[([97], sample_meta)]" "[1]"] by simp

text \<open>A patch carries exactly what changed: its set entries are the entries of the new manifest
  that the old one lacks or holds with any field different, its removals the paths only the old one
  has; it is empty only between equal manifests.\<close>

theorem diff_manifests_minimal:
  assumes "om_inv old" "om_inv new"
  shows "set (mp_set (diff_manifests old new)) = set new - set old
    \<and> set (mp_removed (diff_manifests old new)) = fst ` set old - fst ` set new
    \<and> (patch_empty (diff_manifests old new) \<longleftrightarrow> old = new)"
  using assms
  by (auto simp: diff_manifests_set diff_manifests_removed diff_manifests_empty_iff om_find_Some)

theorem diff_manifests_minimal_witness:
  "om_inv [([97 :: u8], sample_meta)] \<and>
   set (mp_set (diff_manifests [] [([97], sample_meta)])) = {([97], sample_meta)}"
  using diff_manifests_minimal [of "[]" "[([97], sample_meta)]"] by simp

text \<open>A baseline written to disk reads back as the same manifest.\<close>

theorem manifest_save_load:
  assumes "valid_manifest man"
  shows "man_load (Some (man_save man)) = Some man"
  using man_decode_encode [OF assms, of "[]"] by (simp add: man_load_def man_save_def reader_of_def)

theorem manifest_save_load_witness:
  "man_load (Some (man_save [([97], sample_meta)])) = Some [([97], sample_meta)]"
  by (rule manifest_save_load) simp

text \<open>C37. Whatever bytes a baseline file or a peer holds, a manifest that decodes is a well-formed
  map: strictly ascending paths, no empty path, hashes of 32 bytes.\<close>

theorem man_decode_wellformed:
  assumes "man_decode (reader_of d) = Some man"
  shows "om_inv man \<and> list_all valid_entry man"
proof -
  obtain n r where "r_u32 (reader_of d) = (n, r)" by force
  with assms obtain r1 where "decode_entries (unat n) r [] = Some (man, r1)" "rd_ok r1"
    by (auto simp: man_decode_def split: option.splits if_splits)
  then show ?thesis by (rule decode_entries_valid)
qed

theorem man_decode_wellformed_witness:
  "om_inv [([97 :: u8], sample_meta)] \<and> list_all valid_entry [([97], sample_meta)]"
proof (rule man_decode_wellformed)
  show "man_decode (reader_of (man_save [([97], sample_meta)])) = Some [([97], sample_meta)]"
    using man_decode_encode [of "[([97], sample_meta)]" "[]"]
    by (simp add: man_save_def reader_of_def)
qed

text \<open>The patch decoder accepts only what the encoder writes: a decoded patch re-encodes to the
  very bytes it was read from, so two different byte strings never decode to one patch, and every
  path in it is non-empty.\<close>

theorem patch_decode_canonical:
  assumes "patch_decode (reader_of d) = Some (p, r)"
  shows "d = patch_encode p [] @ rd_data r \<and> valid_patch p \<and> rd_ok r"
  using patch_decode_consumes [OF assms] by (simp add: reader_of_def)

theorem patch_decode_canonical_witness:
  "patch_decode (reader_of (patch_encode (diff_manifests [] [([97], sample_meta)]) [] @ [9])) =
     Some (diff_manifests [] [([97], sample_meta)], rd [9]) \<and>
   valid_patch (diff_manifests [] [([97], sample_meta)])"
proof -
  have v: "valid_patch (diff_manifests [] [([97], sample_meta)])"
    by (rule valid_patch_diff) simp_all
  then have d: "patch_decode (reader_of (patch_encode (diff_manifests [] [([97], sample_meta)]) [] @ [9])) =
     Some (diff_manifests [] [([97], sample_meta)], rd [9])"
    using patch_decode_encode [OF v, of "[9]"] by (simp add: reader_of_def)
  from patch_decode_canonical [OF d] d show ?thesis by simp
qed

text \<open>On trees a file system can hold, the bytes a fingerprint hashes determine every path, size,
  mode and content hash, although paths are neither delimited nor counted: equal inputs mean equal
  trees up to mtimes.\<close>

theorem fingerprint_input_determines_tree:
  assumes "list_all fp_regular a" "list_all fp_regular b"
    and "fingerprint_input a = fingerprint_input b"
  shows "map fp_view a = map fp_view b"
  using assms by (rule fingerprint_input_inj)

theorem fingerprint_input_determines_tree_witness:
  "list_all fp_regular [([97], sample_meta)] \<and>
   map fp_view [([97], sample_meta)] = map fp_view [([97], sample_meta\<lparr>fm_mtime := 6\<rparr>)]"
proof -
  have regular: "list_all fp_regular [([97], sample_meta)]"
    "list_all fp_regular [([97], sample_meta\<lparr>fm_mtime := 6\<rparr>)]"
    by (simp_all add: fp_regular_def sample_meta_def)
  have "fingerprint_input [([97], sample_meta)] = fingerprint_input [([97], sample_meta\<lparr>fm_mtime := 6\<rparr>)]"
    by (simp add: fingerprint_input_Cons fingerprint_block_bytes fingerprint_input_def)
  from fingerprint_input_determines_tree [OF regular this] regular show ?thesis by simp
qed

text \<open>Without that restriction they do not: a path that holds the bytes of another entry's
  block makes a one-file manifest hash like a two-file one, whatever the hash function.\<close>

theorem fingerprint_collision:
  "\<exists>a b. valid_manifest a \<and> valid_manifest b \<and> length a \<noteq> length b \<and>
     fingerprint H a = fingerprint H b"
proof -
  let ?a = "[([97], sample_meta), ([98], sample_meta)]"
  let ?b = "[([97] @ fingerprint_block sample_meta @ [98], sample_meta)]"
  have "fingerprint_input ?a = fingerprint_input ?b"
    by (simp add: fingerprint_input_def)
  then have "fingerprint H ?a = fingerprint H ?b"
    by (simp add: fingerprint_def)
  moreover have "valid_manifest ?a" "valid_manifest ?b"
    by (simp_all add: valid_manifest_def valid_entry_def sample_meta_def fingerprint_block_bytes)
  ultimately show ?thesis
    by (intro exI [of _ ?a] exI [of _ ?b]) simp
qed

end
