(* ===== verification/Diff.thy ===== *)
theory Diff
  imports Manifest
begin

text \<open>
  \<open>core/diff.h\<close> and \<open>core/diff.cpp\<close>: the three-way merge of a baseline, the local and the remote
  manifest into one side's plan; and what two peers that each run their own plan end up with.
\<close>

section \<open>Options, plans and policies\<close>

datatype sync_mode = TwoWay | Mirror

datatype conflict_policy = Newer | Larger | PreferLocal | PreferRemote

definition complement :: "conflict_policy \<Rightarrow> conflict_policy" where
  "complement p = (case p of PreferLocal \<Rightarrow> PreferRemote | PreferRemote \<Rightarrow> PreferLocal
     | Newer \<Rightarrow> p | Larger \<Rightarrow> p)"

definition conflict_policy_name :: "conflict_policy \<Rightarrow> bytes" where
  "conflict_policy_name p = (case p of Newer \<Rightarrow> str ''newer'' | Larger \<Rightarrow> str ''larger''
     | PreferLocal \<Rightarrow> str ''local'' | PreferRemote \<Rightarrow> str ''remote'')"

record reconcile_options =
  ro_mode :: sync_mode
  ro_conflict :: conflict_policy
  ro_source :: bool
  ro_propagate_deletes :: bool

record sync_plan =
  pl_pull :: "path list"
  pl_delete_local :: "path list"
  pl_conflicts :: "path list"
  pl_push :: "path list"
  pl_delete_remote :: "path list"

definition empty_plan :: sync_plan where
  "empty_plan = \<lparr>pl_pull = [], pl_delete_local = [], pl_conflicts = [], pl_push = [],
     pl_delete_remote = []\<rparr>"

definition plan_empty :: "sync_plan \<Rightarrow> bool" where
  "plan_empty p \<longleftrightarrow> pl_pull p = [] \<and> pl_delete_local p = [] \<and> pl_push p = [] \<and> pl_delete_remote p = []"

section \<open>Deciding one path\<close>

datatype change = Unchanged | Added | Modified | Deleted | Absent

definition classify :: "file_meta option \<Rightarrow> file_meta option \<Rightarrow> change" where
  "classify cur base =
     (case cur of
        Some c \<Rightarrow> (case base of None \<Rightarrow> Added
          | Some b \<Rightarrow> if same_content c b then Unchanged else Modified)
      | None \<Rightarrow> (case base of Some _ \<Rightarrow> Deleted | None \<Rightarrow> Absent))"

definition changed :: "change \<Rightarrow> bool" where
  "changed c \<longleftrightarrow> c = Added \<or> c = Modified \<or> c = Deleted"

text \<open>The \<open>Newer\<close> comparison, which \<open>Larger\<close> falls through to: mtime, then hash bytes.\<close>

definition newer_wins :: "file_meta \<Rightarrow> file_meta \<Rightarrow> bool" where
  "newer_wins l r =
     (if fm_mtime l \<noteq> fm_mtime r then sint (fm_mtime l) > sint (fm_mtime r)
      else fm_hash r < fm_hash l)"

definition local_wins :: "file_meta option \<Rightarrow> file_meta option \<Rightarrow> conflict_policy \<Rightarrow> bool" where
  "local_wins L R p =
     (case (L, R) of
        (Some l, None) \<Rightarrow> p \<noteq> PreferRemote
      | (None, Some r) \<Rightarrow> p = PreferLocal
      | (None, None) \<Rightarrow> True
      | (Some l, Some r) \<Rightarrow>
          (case p of
             PreferLocal \<Rightarrow> True
           | PreferRemote \<Rightarrow> False
           | Larger \<Rightarrow> if fm_size l \<noteq> fm_size r then fm_size l > fm_size r else newer_wins l r
           | Newer \<Rightarrow> newer_wins l r))"

datatype decision_kind = NoAction | Pull | DeleteLocal | Push | DeleteRemote

record decision =
  d_kind :: decision_kind
  d_conflict :: bool

definition decision :: "decision_kind \<Rightarrow> bool \<Rightarrow> decision" where
  "decision k c = \<lparr>d_kind = k, d_conflict = c\<rparr>"

definition decide_two_way ::
  "file_meta option \<Rightarrow> file_meta option \<Rightarrow> file_meta option \<Rightarrow> reconcile_options \<Rightarrow> decision" where
  "decide_two_way L R B opt =
     (if L = None \<and> R = None then decision NoAction False
      else if L \<noteq> None \<and> R \<noteq> None \<and> same_content (the L) (the R) then decision NoAction False
      else
        let lc = changed (classify L B);
            rc = changed (classify R B)
        in if lc \<and> \<not> rc then
             (if L \<noteq> None then decision Push False else decision DeleteRemote False)
           else if rc \<and> \<not> lc then
             (if R \<noteq> None then decision Pull False
              else if ro_propagate_deletes opt then decision DeleteLocal False
              else decision NoAction False)
           else if local_wins L R (ro_conflict opt) then
             (if L \<noteq> None then decision Push True else decision DeleteRemote True)
           else if R \<noteq> None then decision Pull True
           else if ro_propagate_deletes opt then decision DeleteLocal True
           else decision NoAction True)"

definition decide_mirror ::
  "file_meta option \<Rightarrow> file_meta option \<Rightarrow> reconcile_options \<Rightarrow> decision" where
  "decide_mirror L R opt =
     (if ro_source opt then
        (if L \<noteq> None then
           (if R \<noteq> None \<and> same_content (the R) (the L) then decision NoAction False
            else decision Push False)
         else decision DeleteRemote False)
      else if R \<noteq> None then
        (if L \<noteq> None \<and> same_content (the L) (the R) then decision NoAction False
         else decision Pull False)
      else if ro_propagate_deletes opt then decision DeleteLocal False
      else decision NoAction False)"

definition decide ::
  "path \<Rightarrow> manifest \<Rightarrow> manifest \<Rightarrow> manifest \<Rightarrow> reconcile_options \<Rightarrow> decision" where
  "decide p base local remote opt =
     (let L = man_find local p; R = man_find remote p
      in if ro_mode opt = Mirror then decide_mirror L R opt
         else decide_two_way L R (man_find base p) opt)"

section \<open>The plan\<close>

text \<open>\<open>std::set<std::string>\<close> as a strictly ascending list.\<close>

definition union_keys :: "manifest \<Rightarrow> manifest \<Rightarrow> manifest \<Rightarrow> path list" where
  "union_keys a b c =
     (let keys = fold (\<lambda>e. insort_insert (fst e)) a [];
          keys = fold (\<lambda>e. insort_insert (fst e)) b keys
      in fold (\<lambda>e. insort_insert (fst e)) c keys)"

definition plan_add :: "path \<Rightarrow> decision \<Rightarrow> sync_plan \<Rightarrow> sync_plan" where
  "plan_add p d plan =
     (let plan = (case d_kind d of
          Pull \<Rightarrow> plan\<lparr>pl_pull := pl_pull plan @ [p]\<rparr>
        | DeleteLocal \<Rightarrow> plan\<lparr>pl_delete_local := pl_delete_local plan @ [p]\<rparr>
        | Push \<Rightarrow> plan\<lparr>pl_push := pl_push plan @ [p]\<rparr>
        | DeleteRemote \<Rightarrow> plan\<lparr>pl_delete_remote := pl_delete_remote plan @ [p]\<rparr>
        | NoAction \<Rightarrow> plan)
      in if d_conflict d then plan\<lparr>pl_conflicts := pl_conflicts plan @ [p]\<rparr> else plan)"

definition reconcile ::
  "manifest \<Rightarrow> manifest \<Rightarrow> manifest \<Rightarrow> reconcile_options \<Rightarrow> sync_plan" where
  "reconcile base local remote opt =
     (let b = (if ro_mode opt = Mirror then [] else base)
      in fold (\<lambda>p. plan_add p (decide p b local remote opt)) (union_keys b local remote) empty_plan)"

section \<open>What a plan holds\<close>

lemma insort_insert_keys:
  fixes a :: "('k::linorder \<times> 'v) list"
  assumes "sorted_wrt (<) keys"
  shows "set (fold (\<lambda>e. insort_insert (fst e)) a keys) = fst ` set a \<union> set keys
    \<and> sorted_wrt (<) (fold (\<lambda>e. insort_insert (fst e)) a keys)"
  using assms
proof (induction a arbitrary: keys)
  case (Cons e a)
  have "sorted_wrt (<) (insort_insert (fst e) keys)"
    using Cons.prems by (auto simp: strict_sorted_iff sorted_insort_insert distinct_insort_insert)
  from Cons.IH [OF this] show ?case
    by (auto simp: set_insort_insert)
qed simp

lemma union_keys_set: "set (union_keys a b c) = fst ` (set a \<union> set b \<union> set c)"
  using insort_insert_keys [of "[]" a] insort_insert_keys [of _ b] insort_insert_keys [of _ c]
  by (simp add: union_keys_def Let_def image_Un) auto

lemma union_keys_sorted: "sorted_wrt (<) (union_keys a b c)"
  using insort_insert_keys [of "[]" a] insort_insert_keys [of _ b] insort_insert_keys [of _ c]
  by (simp add: union_keys_def Let_def)

text \<open>Each list of the plan is the ascending list of the keys whose decision sends them there.\<close>

lemma plan_add_lists:
  "pl_pull (plan_add p d plan) = pl_pull plan @ (if d_kind d = Pull then [p] else [])"
  "pl_delete_local (plan_add p d plan) = pl_delete_local plan @ (if d_kind d = DeleteLocal then [p] else [])"
  "pl_push (plan_add p d plan) = pl_push plan @ (if d_kind d = Push then [p] else [])"
  "pl_delete_remote (plan_add p d plan) = pl_delete_remote plan @ (if d_kind d = DeleteRemote then [p] else [])"
  "pl_conflicts (plan_add p d plan) = pl_conflicts plan @ (if d_conflict d then [p] else [])"
  by (cases "d_kind d"; simp add: plan_add_def Let_def)+

lemma fold_plan_add_lists:
  fixes dec :: "path \<Rightarrow> decision"
  defines "run \<equiv> \<lambda>ps plan. fold (\<lambda>p. plan_add p (dec p)) ps plan"
  shows "pl_pull (run ps plan) = pl_pull plan @ filter (\<lambda>p. d_kind (dec p) = Pull) ps"
    and "pl_delete_local (run ps plan) = pl_delete_local plan @ filter (\<lambda>p. d_kind (dec p) = DeleteLocal) ps"
    and "pl_push (run ps plan) = pl_push plan @ filter (\<lambda>p. d_kind (dec p) = Push) ps"
    and "pl_delete_remote (run ps plan) = pl_delete_remote plan @ filter (\<lambda>p. d_kind (dec p) = DeleteRemote) ps"
    and "pl_conflicts (run ps plan) = pl_conflicts plan @ filter (\<lambda>p. d_conflict (dec p)) ps"
  unfolding run_def by (induction ps arbitrary: plan; simp add: plan_add_lists)+

text \<open>The decision a round takes on a path, and the paths it looks at.\<close>

definition round_base :: "reconcile_options \<Rightarrow> manifest \<Rightarrow> manifest" where
  "round_base opt base = (if ro_mode opt = Mirror then [] else base)"

definition round_keys :: "reconcile_options \<Rightarrow> manifest \<Rightarrow> manifest \<Rightarrow> manifest \<Rightarrow> path list" where
  "round_keys opt base local remote = union_keys (round_base opt base) local remote"

abbreviation kind_of ::
  "reconcile_options \<Rightarrow> manifest \<Rightarrow> manifest \<Rightarrow> manifest \<Rightarrow> path \<Rightarrow> decision_kind" where
  "kind_of opt base local remote p \<equiv> d_kind (decide p (round_base opt base) local remote opt)"

lemma reconcile_lists:
  "pl_pull (reconcile b l r opt) = filter (\<lambda>p. kind_of opt b l r p = Pull) (round_keys opt b l r)"
  "pl_delete_local (reconcile b l r opt) = filter (\<lambda>p. kind_of opt b l r p = DeleteLocal) (round_keys opt b l r)"
  "pl_push (reconcile b l r opt) = filter (\<lambda>p. kind_of opt b l r p = Push) (round_keys opt b l r)"
  "pl_delete_remote (reconcile b l r opt) = filter (\<lambda>p. kind_of opt b l r p = DeleteRemote) (round_keys opt b l r)"
  "pl_conflicts (reconcile b l r opt) =
     filter (\<lambda>p. d_conflict (decide p (round_base opt b) l r opt)) (round_keys opt b l r)"
  by (simp_all add: reconcile_def fold_plan_add_lists round_keys_def round_base_def empty_plan_def)

lemma round_keys_set:
  "p \<in> set (round_keys opt b l r) \<longleftrightarrow>
     om_find (round_base opt b) p \<noteq> None \<or> om_find l p \<noteq> None \<or> om_find r p \<noteq> None"
  by (auto simp: round_keys_def union_keys_set om_find_None)

section \<open>Two peers on one path\<close>

text \<open>What the peer on the other end of a connection runs: the complementary policy, and in a mirror
  the opposite role.\<close>

definition peer_of :: "reconcile_options \<Rightarrow> reconcile_options" where
  "peer_of opt = opt\<lparr>ro_conflict := complement (ro_conflict opt), ro_source := \<not> ro_source opt\<rparr>"

lemma complement_complement [simp]: "complement (complement p) = p"
  by (cases p) (simp_all add: complement_def)

lemma peer_of_peer_of [simp]: "peer_of (peer_of opt) = opt"
  by (simp add: peer_of_def)

lemma peer_of_simps [simp]:
  "ro_mode (peer_of opt) = ro_mode opt" "ro_source (peer_of opt) = (\<not> ro_source opt)"
  "ro_propagate_deletes (peer_of opt) = ro_propagate_deletes opt"
  "ro_conflict (peer_of opt) = complement (ro_conflict opt)"
  by (simp_all add: peer_of_def)

text \<open>The same action seen from the other side, and what an action makes of a path.\<close>

fun flip :: "decision_kind \<Rightarrow> decision_kind" where
  "flip NoAction = NoAction"
| "flip Pull = Push"
| "flip Push = Pull"
| "flip DeleteLocal = DeleteRemote"
| "flip DeleteRemote = DeleteLocal"

fun settle :: "decision_kind \<Rightarrow> file_meta option \<Rightarrow> file_meta option \<Rightarrow> file_meta option" where
  "settle Pull L R = R"
| "settle DeleteLocal L R = None"
| "settle _ L R = L"

abbreviation agree :: "file_meta option \<Rightarrow> file_meta option \<Rightarrow> bool" where
  "agree \<equiv> rel_option same_content"

lemma agree_refl [simp]: "agree L L"
  by (cases L) simp_all

lemma agree_sym: "agree L R \<Longrightarrow> agree R L"
  by (cases L; cases R) (auto simp: same_content_sym)

lemma agree_trans: "agree L M \<Longrightarrow> agree M R \<Longrightarrow> agree L R"
  by (cases L; cases M; cases R) (auto intro: same_content_trans)

text \<open>SHA-256 tells the two versions apart: equal hashes (the last tie break of a conflict) do not
  come with different sizes.\<close>

fun distinguished :: "file_meta option \<Rightarrow> file_meta option \<Rightarrow> bool" where
  "distinguished (Some l) (Some r) = (fm_hash l = fm_hash r \<longrightarrow> fm_size l = fm_size r)"
| "distinguished _ _ = True"

text \<open>The contract of a decision rule run by two peers, each on its own view of a path. \<open>tracked\<close> is
  what a round knows of a path: it is in the baseline or on one side.\<close>

locale peer_rule =
  fixes here there :: "file_meta option \<Rightarrow> file_meta option \<Rightarrow> decision_kind"
    and ok :: "file_meta option \<Rightarrow> file_meta option \<Rightarrow> bool"
    and tracked :: "file_meta option \<Rightarrow> file_meta option \<Rightarrow> bool"
  assumes mirrored: "ok L R \<Longrightarrow> there R L = flip (here L R)"
    and pull_needs: "here L R = Pull \<Longrightarrow> R \<noteq> None"
    and push_needs: "here L R = Push \<Longrightarrow> L \<noteq> None"
    and delete_local_needs: "here L R = DeleteLocal \<Longrightarrow> R = None"
    and delete_remote_needs: "here L R = DeleteRemote \<Longrightarrow> L = None"
    and idle_agrees: "ok L R \<Longrightarrow> here L R = NoAction \<Longrightarrow> agree L R"
    and agreed_idles: "agree L R \<Longrightarrow> tracked L R \<Longrightarrow> here L R = NoAction"
begin

lemma exchange_agrees:
  assumes "ok L R"
  shows "agree (settle (here L R) L R) (settle (there R L) R L)"
  using assms mirrored [of L R] idle_agrees [of L R] delete_local_needs [of L R]
    delete_remote_needs [of L R]
  by (cases "here L R") auto

lemma idle_iff: "ok L R \<Longrightarrow> tracked L R \<Longrightarrow> here L R = NoAction \<longleftrightarrow> agree L R"
  using idle_agrees agreed_idles by blast

end

text \<open>Both modes meet it, for peers that propagate deletions.\<close>

lemma newer_wins_flip:
  assumes "\<not> same_content l r" "distinguished (Some l) (Some r)"
  shows "newer_wins r l \<longleftrightarrow> \<not> newer_wins l r"
proof -
  have "sint (fm_mtime l) \<noteq> sint (fm_mtime r)" if "fm_mtime l \<noteq> fm_mtime r"
    using that by (auto intro: signed_word_eqI)
  moreover have "fm_hash l \<noteq> fm_hash r"
    using assms by (auto simp: same_content_def)
  ultimately show ?thesis
    by (auto simp: newer_wins_def)
qed

lemma local_wins_flip:
  assumes "\<not> agree L R" "distinguished L R"
  shows "local_wins R L (complement p) \<longleftrightarrow> \<not> local_wins L R p"
proof (cases L)
  case None
  with assms show ?thesis
    by (cases R; cases p) (simp_all add: local_wins_def complement_def)
next
  case (Some l)
  show ?thesis
  proof (cases R)
    case None
    with Some show ?thesis
      by (cases p) (simp_all add: local_wins_def complement_def)
  next
    case (Some r)
    have "newer_wins r l \<longleftrightarrow> \<not> newer_wins l r"
      using assms \<open>L = Some l\<close> Some by (intro newer_wins_flip) simp_all
    moreover have "fm_size l < fm_size r \<longleftrightarrow> \<not> fm_size r < fm_size l" if "fm_size l \<noteq> fm_size r"
      using that by auto
    ultimately show ?thesis
      using \<open>L = Some l\<close> Some by (cases p) (simp_all add: local_wins_def complement_def eq_commute)
  qed
qed

lemma changed_simps [simp]:
  "changed (classify None B) \<longleftrightarrow> B \<noteq> None"
  "changed (classify (Some c) B) \<longleftrightarrow> \<not> agree (Some c) B"
  by (auto simp: changed_def classify_def split: option.splits)

lemma changed_classify: "changed (classify L B) \<longleftrightarrow> \<not> agree L B"
  by (cases L; cases B) simp_all

definition two_way_ok :: "reconcile_options \<Rightarrow> file_meta option \<Rightarrow> file_meta option \<Rightarrow> bool" where
  "two_way_ok opt L R \<longleftrightarrow> ro_propagate_deletes opt \<and> distinguished L R"

lemma decision_simps [simp]: "d_kind (decision k c) = k" "d_conflict (decision k c) = c"
  by (simp_all add: decision_def)

text \<open>A side whose version stands, and a side that takes the other one's version.\<close>

definition keep :: "file_meta option \<Rightarrow> decision_kind" where
  "keep L = (if L \<noteq> None then Push else DeleteRemote)"

definition adopt :: "reconcile_options \<Rightarrow> file_meta option \<Rightarrow> decision_kind" where
  "adopt opt R = (if R \<noteq> None then Pull else if ro_propagate_deletes opt then DeleteLocal else NoAction)"

lemma keep_simps [simp]:
  "keep L \<noteq> Pull" "keep L \<noteq> DeleteLocal" "keep L \<noteq> NoAction"
  "keep L = Push \<longleftrightarrow> L \<noteq> None" "keep L = DeleteRemote \<longleftrightarrow> L = None"
  by (simp_all add: keep_def)

lemma adopt_simps [simp]:
  "adopt opt R \<noteq> Push" "adopt opt R \<noteq> DeleteRemote"
  "adopt opt R = Pull \<longleftrightarrow> R \<noteq> None"
  "adopt opt R = DeleteLocal \<longleftrightarrow> R = None \<and> ro_propagate_deletes opt"
  "adopt opt R = NoAction \<longleftrightarrow> R = None \<and> \<not> ro_propagate_deletes opt"
  by (simp_all add: adopt_def)

lemma flip_keep: "ro_propagate_deletes opt \<Longrightarrow> flip (keep L) = adopt opt L"
  by (simp add: keep_def adopt_def)

lemma flip_adopt [simp]:
  "ro_propagate_deletes opt \<Longrightarrow> flip (adopt opt R) = keep R"
  "adopt (peer_of opt) = adopt opt"
  by (auto simp: keep_def adopt_def fun_eq_iff)

text \<open>The decision as a function of what changed since the baseline. The last branch is a conflict:
  when neither side changed, both agree with the baseline and so with each other.\<close>

lemma decide_two_way_cases:
  "decide_two_way L R B opt =
     (if agree L R then decision NoAction False
      else if agree R B then decision (keep L) False
      else if agree L B then decision (adopt opt R) False
      else if local_wins L R (ro_conflict opt) then decision (keep L) True
      else decision (adopt opt R) True)"
proof (cases "agree L R")
  case True
  then show ?thesis
    by (cases L; cases R) (auto simp: decide_two_way_def)
next
  case False
  have "\<not> (agree L B \<and> agree R B)"
    using False agree_trans [of L B R] agree_sym [of R B] by blast
  with False show ?thesis
    by (cases L; cases R) (auto simp: decide_two_way_def Let_def changed_classify keep_def adopt_def)
qed

lemma decide_mirror_cases:
  "L \<noteq> None \<or> R \<noteq> None \<Longrightarrow> decide_mirror L R opt =
     decision (if agree L R then NoAction else if ro_source opt then keep L else adopt opt R) False"
  by (cases L; cases R) (auto simp: decide_mirror_def keep_def adopt_def same_content_sym)

lemma decide_mirror_untracked:
  "decide_mirror None None opt = decision (if ro_source opt then keep None else adopt opt None) False"
  by (simp add: decide_mirror_def keep_def adopt_def)

interpretation two_way: peer_rule
  "\<lambda>L R. d_kind (decide_two_way L R B opt)" "\<lambda>R L. d_kind (decide_two_way R L B' (peer_of opt))"
  "\<lambda>L R. two_way_ok opt L R \<and> agree B B'" "\<lambda>L R. True" for B B' opt
proof unfold_locales
  fix L R
  assume ok: "two_way_ok opt L R \<and> agree B B'"
  show "d_kind (decide_two_way R L B' (peer_of opt)) = flip (d_kind (decide_two_way L R B opt))"
  proof (cases "agree L R")
    case True
    then show ?thesis
      using agree_sym [OF True] by (simp add: decide_two_way_cases)
  next
    case False
    have "agree M B' \<longleftrightarrow> agree M B" for M
      using ok agree_trans agree_sym by blast
    moreover have "\<not> agree R L"
      using False agree_sym by blast
    moreover have "\<not> (agree L B \<and> agree R B)"
      using False agree_trans [of L B R] agree_sym [of R B] by blast
    moreover have "local_wins R L (ro_conflict (peer_of opt)) \<longleftrightarrow> \<not> local_wins L R (ro_conflict opt)"
      using False ok by (simp add: local_wins_flip two_way_ok_def)
    ultimately show ?thesis
      using False ok flip_keep [of opt L] by (simp add: decide_two_way_cases two_way_ok_def)
  qed
qed (simp_all add: decide_two_way_cases two_way_ok_def split: if_splits)

definition mirror_ok :: "reconcile_options \<Rightarrow> file_meta option \<Rightarrow> file_meta option \<Rightarrow> bool" where
  "mirror_ok opt L R \<longleftrightarrow> ro_propagate_deletes opt"

lemma decide_mirror_all:
  "d_kind (decide_mirror L R opt) =
     (if (L \<noteq> None \<or> R \<noteq> None) \<and> agree L R then NoAction
      else if ro_source opt then keep L else adopt opt R)"
  by (cases "L \<noteq> None \<or> R \<noteq> None") (simp_all add: decide_mirror_cases decide_mirror_untracked)

interpretation mirror: peer_rule
  "\<lambda>L R. d_kind (decide_mirror L R opt)" "\<lambda>R L. d_kind (decide_mirror R L (peer_of opt))"
  "mirror_ok opt" "\<lambda>L R. L \<noteq> None \<or> R \<noteq> None" for opt
proof unfold_locales
  fix L R
  assume "mirror_ok opt L R"
  moreover have "agree R L \<longleftrightarrow> agree L R"
    using agree_sym by blast
  ultimately show "d_kind (decide_mirror R L (peer_of opt)) = flip (d_kind (decide_mirror L R opt))"
    using flip_keep [of opt L] by (simp add: decide_mirror_all mirror_ok_def disj_commute)
qed (simp_all add: decide_mirror_all mirror_ok_def split: if_splits)

section \<open>Two peers on whole trees\<close>

definition same_tree :: "manifest \<Rightarrow> manifest \<Rightarrow> bool" where
  "same_tree l r \<longleftrightarrow> (\<forall>p. agree (om_find l p) (om_find r p))"

definition sha_distinguishes :: "manifest \<Rightarrow> manifest \<Rightarrow> bool" where
  "sha_distinguishes l r \<longleftrightarrow>
     (\<forall>e \<in> set l. \<forall>f \<in> set r. fm_hash (snd e) = fm_hash (snd f) \<longrightarrow> fm_size (snd e) = fm_size (snd f))"

text \<open>The local tree once every action of the plan has been carried out: the deletions, then the
  pulls, each of which installs the peer's entry.\<close>

definition follow :: "sync_plan \<Rightarrow> manifest \<Rightarrow> manifest \<Rightarrow> manifest" where
  "follow plan l r =
     fold (\<lambda>p man. case man_find r p of None \<Rightarrow> man | Some m \<Rightarrow> man_set p m man) (pl_pull plan)
       (fold man_remove (pl_delete_local plan) l)"

lemma same_tree_refl [simp]: "same_tree l l"
  by (simp add: same_tree_def)

lemma same_tree_sym: "same_tree l r \<Longrightarrow> same_tree r l"
  by (simp add: same_tree_def agree_sym)

lemma sha_distinguishes_find:
  "sha_distinguishes l r \<Longrightarrow> distinguished (om_find l p) (om_find r p)"
  by (cases "om_find l p"; cases "om_find r p")
    (force simp: sha_distinguishes_def om_find_map_of dest: map_of_SomeD)+

lemma pulls_find:
  assumes "om_inv man"
  shows "om_inv (fold (\<lambda>p man. case man_find r p of None \<Rightarrow> man | Some m \<Rightarrow> man_set p m man) ps man)
    \<and> om_find (fold (\<lambda>p man. case man_find r p of None \<Rightarrow> man | Some m \<Rightarrow> man_set p m man) ps man) q =
      (if q \<in> set ps \<and> om_find r q \<noteq> None then om_find r q else om_find man q)"
  using assms
proof (induction ps arbitrary: man)
  case (Cons p ps)
  show ?case
  proof (cases "om_find r p")
    case None
    then show ?thesis
      using Cons by (auto simp: man_find_def)
  next
    case (Some m)
    have "om_inv (om_assign p m man)"
      using Cons.prems by (rule om.inv_assign)
    from Cons.IH [OF this] show ?thesis
      using Some om.find_assign [OF Cons.prems, of p m] by (auto simp: man_find_def man_set_def)
  qed
qed simp

lemma removes_find:
  assumes "om_inv l"
  shows "om_inv (fold man_remove ps l)" "om_find (fold man_remove ps l) q = (if q \<in> set ps then None else om_find l q)"
proof -
  have "fold man_remove ps l = fold om_erase ps l"
    by (rule arg_cong [where f = "\<lambda>g. fold g ps l"]) (simp add: man_remove_def fun_eq_iff)
  then show "om_inv (fold man_remove ps l)" "om_find (fold man_remove ps l) q = (if q \<in> set ps then None else om_find l q)"
    using om.inv_erase_all [OF assms] om.find_erase_all [OF assms, of ps] by (simp_all add: restrict_map_def)
qed

lemma follow_find:
  assumes "om_inv l"
  shows "om_inv (follow plan l r)"
    and "om_find (follow plan l r) q =
      (if q \<in> set (pl_pull plan) \<and> om_find r q \<noteq> None then om_find r q
       else if q \<in> set (pl_delete_local plan) then None else om_find l q)"
  using pulls_find [OF removes_find(1) [OF assms], of r "pl_pull plan" "pl_delete_local plan" q]
  by (auto simp: follow_def removes_find(2) [OF assms])

text \<open>The two contracts, joined over the modes.\<close>

lemma kind_of_two_way:
  "ro_mode opt \<noteq> Mirror \<Longrightarrow>
     kind_of opt b l r p = d_kind (decide_two_way (om_find l p) (om_find r p) (om_find b p) opt)"
  by (simp add: decide_def round_base_def man_find_def Let_def)

lemma kind_of_mirror:
  "ro_mode opt = Mirror \<Longrightarrow> kind_of opt b l r p = d_kind (decide_mirror (om_find l p) (om_find r p) opt)"
  by (simp add: decide_def round_base_def man_find_def Let_def)

definition can_sync :: "reconcile_options \<Rightarrow> manifest \<Rightarrow> manifest \<Rightarrow> bool" where
  "can_sync opt l r \<longleftrightarrow> ro_propagate_deletes opt \<and> sha_distinguishes l r"

lemma kind_flip:
  assumes "can_sync opt l r" "same_tree b b'"
  shows "kind_of (peer_of opt) b' r l p = flip (kind_of opt b l r p)"
proof (cases "ro_mode opt = Mirror")
  case True
  then show ?thesis
    using mirror.mirrored [where opt = opt] assms by (simp add: kind_of_mirror mirror_ok_def can_sync_def)
next
  case False
  have "two_way_ok opt (om_find l p) (om_find r p) \<and> agree (om_find b p) (om_find b' p)"
    using assms by (simp add: two_way_ok_def can_sync_def sha_distinguishes_find same_tree_def)
  from two_way.mirrored [OF this] False show ?thesis
    by (simp add: kind_of_two_way)
qed

lemma kind_exchange:
  assumes "can_sync opt l r" "same_tree b b'"
  shows "agree (settle (kind_of opt b l r p) (om_find l p) (om_find r p))
    (settle (kind_of (peer_of opt) b' r l p) (om_find r p) (om_find l p))"
proof (cases "ro_mode opt = Mirror")
  case True
  then show ?thesis
    using mirror.exchange_agrees [where opt = opt] assms by (simp add: kind_of_mirror mirror_ok_def can_sync_def)
next
  case False
  have "two_way_ok opt (om_find l p) (om_find r p) \<and> agree (om_find b p) (om_find b' p)"
    using assms by (simp add: two_way_ok_def can_sync_def sha_distinguishes_find same_tree_def)
  from two_way.exchange_agrees [OF this] False show ?thesis
    by (simp add: kind_of_two_way)
qed

lemma kind_needs:
  "kind_of opt b l r p = Pull \<Longrightarrow> om_find r p \<noteq> None"
  "kind_of opt b l r p = DeleteLocal \<Longrightarrow> om_find r p = None"
  using mirror.pull_needs [where opt = opt] mirror.delete_local_needs [where opt = opt]
    two_way.pull_needs [where opt = opt] two_way.delete_local_needs [where opt = opt]
  by (cases "ro_mode opt = Mirror"; force simp: kind_of_mirror kind_of_two_way)+

lemma follow_settles:
  assumes "om_inv l"
  shows "om_find (follow (reconcile b l r opt) l r) p =
    settle (kind_of opt b l r p) (om_find l p) (om_find r p)"
  using kind_needs [where opt = opt and b = b and l = l and r = r and p = p]
  by (cases "kind_of opt b l r p"; auto simp: follow_find(2) [OF assms] reconcile_lists round_keys_set)

lemma plan_empty_kinds:
  "plan_empty (reconcile b l r opt) \<longleftrightarrow> (\<forall>p \<in> set (round_keys opt b l r). kind_of opt b l r p = NoAction)"
proof -
  have "k = NoAction \<longleftrightarrow> k \<noteq> Pull \<and> k \<noteq> DeleteLocal \<and> k \<noteq> Push \<and> k \<noteq> DeleteRemote" for k
    by (cases k) simp_all
  then show ?thesis
    by (auto simp: plan_empty_def reconcile_lists filter_empty_conv)
qed

lemma kind_idle:
  assumes "agree (om_find l p) (om_find r p)" "p \<in> set (round_keys opt b l r)"
  shows "kind_of opt b l r p = NoAction"
proof (cases "ro_mode opt = Mirror")
  case True
  then have "om_find l p \<noteq> None \<or> om_find r p \<noteq> None"
    using assms(2) by (simp add: round_keys_set round_base_def)
  then show ?thesis
    using assms(1) by (simp only: kind_of_mirror [OF True] decide_mirror_all) simp
next
  case False
  then show ?thesis
    using assms by (simp add: kind_of_two_way decide_two_way_cases)
qed

lemma idle_kind:
  assumes "ro_propagate_deletes opt" "kind_of opt b l r p = NoAction"
  shows "agree (om_find l p) (om_find r p)"
proof (cases "ro_mode opt = Mirror")
  case True
  then show ?thesis
    using assms mirror.idle_agrees [where opt = opt] by (simp add: kind_of_mirror mirror_ok_def)
next
  case False
  then show ?thesis
    using assms by (simp add: kind_of_two_way decide_two_way_cases split: if_splits)
qed

lemma agree_plan_empty: "same_tree l r \<Longrightarrow> plan_empty (reconcile b l r opt)"
  by (simp add: plan_empty_kinds same_tree_def kind_idle)

section \<open>Properties\<close>

definition sample_options :: "conflict_policy \<Rightarrow> bool \<Rightarrow> reconcile_options" where
  "sample_options p propagate =
     \<lparr>ro_mode = TwoWay, ro_conflict = p, ro_source = False, ro_propagate_deletes = propagate\<rparr>"

text \<open>C3. Two peers that run complementary options on baselines with the same content converge in one
  exchange, whatever was added, changed or deleted on either side: after each has carried out its own
  plan the trees hold the same files with the same content, and the next round of either peer, over
  any baseline, is empty. It relies on SHA-256 telling different sizes apart.\<close>

theorem peers_converge:
  assumes "om_inv l" "om_inv r" "ro_propagate_deletes opt" "sha_distinguishes l r" "same_tree b b'"
  shows "same_tree (follow (reconcile b l r opt) l r) (follow (reconcile b' r l (peer_of opt)) r l)
    \<and> plan_empty (reconcile c (follow (reconcile b l r opt) l r)
        (follow (reconcile b' r l (peer_of opt)) r l) opt)
    \<and> plan_empty (reconcile d (follow (reconcile b' r l (peer_of opt)) r l)
        (follow (reconcile b l r opt) l r) (peer_of opt))"
proof -
  have "same_tree (follow (reconcile b l r opt) l r) (follow (reconcile b' r l (peer_of opt)) r l)"
    using kind_exchange [of opt l r b b'] assms
    by (simp add: same_tree_def can_sync_def follow_settles)
  then show ?thesis
    using agree_plan_empty same_tree_sym by blast
qed

theorem peers_converge_witness:
  "same_tree (follow (reconcile [] [([97], sample_meta)] [] (sample_options Newer True)) [([97], sample_meta)] [])
     (follow (reconcile [] [] [([97], sample_meta)] (peer_of (sample_options Newer True))) [] [([97], sample_meta)])"
  using peers_converge [of "[([97], sample_meta)]" "[]" "sample_options Newer True" "[]" "[]"]
  by (simp add: sample_options_def sha_distinguishes_def)

text \<open>C27. The plans of the two peers are complements: what one pulls is what the other announces as
  its push, what one deletes is what the other announces as a remote deletion, in the same order.\<close>

theorem plans_complement:
  assumes "om_inv l" "om_inv r" "ro_propagate_deletes opt" "sha_distinguishes l r"
  shows "pl_push (reconcile b l r opt) = pl_pull (reconcile b r l (peer_of opt))
    \<and> pl_pull (reconcile b l r opt) = pl_push (reconcile b r l (peer_of opt))
    \<and> pl_delete_remote (reconcile b l r opt) = pl_delete_local (reconcile b r l (peer_of opt))
    \<and> pl_delete_local (reconcile b l r opt) = pl_delete_remote (reconcile b r l (peer_of opt))"
proof -
  have keys: "round_keys (peer_of opt) b r l = round_keys opt b l r"
    by (rule strict_sorted_equal) (auto simp: union_keys_sorted union_keys_set round_keys_def round_base_def)
  have "flip k = Pull \<longleftrightarrow> k = Push" "flip k = Push \<longleftrightarrow> k = Pull"
    "flip k = DeleteLocal \<longleftrightarrow> k = DeleteRemote" "flip k = DeleteRemote \<longleftrightarrow> k = DeleteLocal" for k
    by (cases k; simp)+
  then show ?thesis
    using kind_flip [of opt l r b b] assms by (simp add: reconcile_lists keys can_sync_def)
qed

theorem plans_complement_witness:
  "pl_push (reconcile [] [([97], sample_meta)] [] (sample_options Newer True)) =
   pl_pull (reconcile [] [] [([97], sample_meta)] (peer_of (sample_options Newer True)))"
  using plans_complement [of "[([97], sample_meta)]" "[]" "sample_options Newer True" "[]"]
  by (simp add: sample_options_def sha_distinguishes_def)

text \<open>When deletions propagate, an empty plan says exactly that the trees agree, in both modes
  and for every baseline: the local manifest at that moment is the merged state.\<close>

theorem plan_empty_iff_same_tree:
  assumes "ro_propagate_deletes opt"
  shows "plan_empty (reconcile b l r opt) \<longleftrightarrow> same_tree l r"
proof
  assume empty: "plan_empty (reconcile b l r opt)"
  show "same_tree l r"
    unfolding same_tree_def
  proof
    fix p
    show "agree (om_find l p) (om_find r p)"
    proof (cases "p \<in> set (round_keys opt b l r)")
      case True
      with empty assms show ?thesis
        by (intro idle_kind [where opt = opt and b = b]) (simp_all add: plan_empty_kinds)
    next
      case False
      then show ?thesis by (simp add: round_keys_set)
    qed
  qed
qed (rule agree_plan_empty)

theorem plan_empty_iff_same_tree_witness:
  "\<not> plan_empty (reconcile [] [([97], sample_meta)] [] (sample_options Newer True))"
proof -
  have "\<not> same_tree [([97 :: u8], sample_meta)] []"
    by (auto simp: same_tree_def intro!: exI [of _ "[97 :: u8]"])
  then show ?thesis
    using plan_empty_iff_same_tree [of "sample_options Newer True" "[]"] by (simp add: sample_options_def)
qed

text \<open>C11. A two-way round deletes a local file only when the peer lacks it and the baseline holds it,
  and either the local copy is still the baseline's or the policy gives every conflict to the remote
  side. In particular a first sync, whose baseline is empty, deletes nothing.\<close>

theorem two_way_delete_safe:
  assumes "ro_mode opt = TwoWay" "p \<in> set (pl_delete_local (reconcile b l r opt))"
  shows "man_find r p = None \<and> (\<exists>m old. man_find l p = Some m \<and> man_find b p = Some old \<and>
    (same_content m old \<or> ro_conflict opt = PreferRemote)) \<and> ro_propagate_deletes opt"
proof -
  have kind: "kind_of opt b l r p = DeleteLocal"
    using assms by (simp add: reconcile_lists)
  have gone: "om_find r p = None"
    using kind by (rule kind_needs)
  with kind assms(1) show ?thesis
    by (cases "om_find l p"; cases "om_find b p")
      (auto simp: kind_of_two_way decide_two_way_cases man_find_def local_wins_def split: if_splits)
qed

theorem two_way_delete_safe_witness:
  "\<exists>m old. man_find [([97], sample_meta)] [97] = Some m \<and> man_find [([97], sample_meta)] [97] = Some old \<and>
    (same_content m old \<or> Newer = PreferRemote)"
proof -
  have "kind_of (sample_options Newer True) [([97], sample_meta)] [([97], sample_meta)] [] [97] = DeleteLocal"
    by (simp add: kind_of_two_way decide_two_way_cases sample_options_def)
  then have "[97] \<in> set (pl_delete_local
      (reconcile [([97], sample_meta)] [([97], sample_meta)] [] (sample_options Newer True)))"
    by (simp add: reconcile_lists round_keys_set)
  from two_way_delete_safe [OF _ this] show ?thesis
    by (simp add: sample_options_def)
qed

text \<open>A mirror has one authority: the source's plan never pulls and never deletes locally, and the
  replica that follows its own plan ends with the source's content on every path.\<close>

theorem mirror_one_way:
  assumes "ro_mode opt = Mirror" "ro_source opt" "om_inv r" "ro_propagate_deletes opt"
  shows "pl_pull (reconcile b l r opt) = [] \<and> pl_delete_local (reconcile b l r opt) = []
    \<and> follow (reconcile b l r opt) l r = l
    \<and> same_tree (follow (reconcile c r l (peer_of opt)) r l) l"
proof -
  have "kind_of opt b l r p \<noteq> Pull" "kind_of opt b l r p \<noteq> DeleteLocal" for p
    using assms by (simp_all add: kind_of_mirror decide_mirror_all)
  then have lists: "pl_pull (reconcile b l r opt) = []" "pl_delete_local (reconcile b l r opt) = []"
    by (simp_all add: reconcile_lists filter_empty_conv)
  have "agree (settle (kind_of (peer_of opt) c r l p) (om_find r p) (om_find l p)) (om_find l p)" for p
    using assms by (cases "om_find r p"; cases "om_find l p")
      (auto simp: kind_of_mirror decide_mirror_all adopt_def)
  then have "same_tree (follow (reconcile c r l (peer_of opt)) r l) l"
    using assms by (simp add: same_tree_def follow_settles)
  with lists show ?thesis
    by (simp add: follow_def)
qed

theorem mirror_one_way_witness:
  "same_tree (follow (reconcile [] [([98], sample_meta)] [([97], sample_meta)]
       (peer_of (sample_options Newer True\<lparr>ro_mode := Mirror, ro_source := True\<rparr>)))
     [([98], sample_meta)] [([97], sample_meta)]) [([97], sample_meta)]"
  using mirror_one_way [of "sample_options Newer True\<lparr>ro_mode := Mirror, ro_source := True\<rparr>"
      "[([98], sample_meta)]" "[]" "[([97], sample_meta)]" "[]"]
  by (simp add: sample_options_def)

text \<open>A two-way round reports a path as a conflict exactly when both sides changed it since the
  baseline and now differ. The last branch of the decision has no other way in, so an inconsistent
  baseline is never what it handles.\<close>

theorem conflict_iff_both_changed:
  assumes "ro_mode opt = TwoWay"
  shows "p \<in> set (pl_conflicts (reconcile b l r opt)) \<longleftrightarrow>
    changed (classify (man_find l p) (man_find b p)) \<and> changed (classify (man_find r p) (man_find b p))
    \<and> \<not> agree (man_find l p) (man_find r p)"
proof -
  have "d_conflict (decide p (round_base opt b) l r opt) \<longleftrightarrow>
      \<not> agree (om_find l p) (om_find r p) \<and> \<not> agree (om_find r p) (om_find b p)
      \<and> \<not> agree (om_find l p) (om_find b p)"
    using assms by (simp add: decide_def round_base_def man_find_def Let_def decide_two_way_cases)
  moreover have "p \<in> set (round_keys opt b l r)" if "\<not> agree (om_find l p) (om_find r p)"
    using that by (cases "om_find l p"; cases "om_find r p") (auto simp: round_keys_set)
  ultimately show ?thesis
    by (auto simp: reconcile_lists changed_classify man_find_def)
qed

theorem conflict_iff_both_changed_witness:
  "[97] \<in> set (pl_conflicts (reconcile [] [([97], sample_meta)] [([97], sample_meta\<lparr>fm_size := 4\<rparr>)]
     (sample_options Newer True)))"
  using conflict_iff_both_changed [of "sample_options Newer True" "[97]" "[]" "[([97], sample_meta)]"
      "[([97], sample_meta\<lparr>fm_size := 4\<rparr>)]"]
  by (simp add: sample_options_def man_find_def sample_meta_def same_content_def)

text \<open>Without deletion propagation on both sides a deletion stalls the pair: when one peer has
  dropped a path the other still holds unchanged, both plans leave the path as it is, the dropping
  peer's plan still announces a remote deletion, and so it is not empty - in this round nor, since
  nothing about the path moved, in any later one.\<close>

theorem no_delete_stalls:
  assumes "ro_mode opt = TwoWay" "\<not> ro_propagate_deletes opt" "om_inv l" "om_inv r"
    and "man_find b p = Some old" "man_find l p = None" "man_find r p = Some kept" "same_content kept old"
  shows "\<not> plan_empty (reconcile b l r opt)
    \<and> man_find (follow (reconcile b l r opt) l r) p = None
    \<and> man_find (follow (reconcile b r l (peer_of opt)) r l) p = Some kept"
proof -
  have k: "kind_of opt b l r p = DeleteRemote" "kind_of (peer_of opt) b r l p = NoAction"
    using assms by (simp_all add: kind_of_two_way decide_two_way_cases man_find_def)
  then have "p \<in> set (pl_delete_remote (reconcile b l r opt))"
    using assms by (simp add: reconcile_lists round_keys_set man_find_def)
  then have "\<not> plan_empty (reconcile b l r opt)"
    by (auto simp: plan_empty_def)
  then show ?thesis
    using assms k by (simp add: follow_settles man_find_def)
qed

theorem no_delete_stalls_witness:
  "\<not> plan_empty (reconcile [([97], sample_meta)] [] [([97], sample_meta)] (sample_options Newer False))"
  using no_delete_stalls [of "sample_options Newer False" "[]" "[([97], sample_meta)]"
      "[([97], sample_meta)]" "[97]" sample_meta sample_meta]
  by (simp add: sample_options_def man_find_def)

text \<open>Peers that run the same side-naming policy do not converge on a conflict: with \<open>local\<close> on
  both ends each keeps its version and announces a push, with \<open>remote\<close> each takes the other's and
  the versions are swapped.\<close>

theorem same_side_policy_diverges:
  assumes "ro_mode opt = TwoWay" "om_inv l" "om_inv r"
    and "man_find l p = Some m" "man_find r p = Some n" "\<not> same_content m n"
    and "\<not> agree (Some m) (man_find b p)" "\<not> agree (Some n) (man_find b p)"
  shows "(ro_conflict opt = PreferLocal \<longrightarrow>
      p \<in> set (pl_push (reconcile b l r opt)) \<inter> set (pl_push (reconcile b r l opt))
      \<and> man_find (follow (reconcile b l r opt) l r) p = Some m
      \<and> man_find (follow (reconcile b r l opt) r l) p = Some n)
    \<and> (ro_conflict opt = PreferRemote \<longrightarrow>
      man_find (follow (reconcile b l r opt) l r) p = Some n
      \<and> man_find (follow (reconcile b r l opt) r l) p = Some m)"
proof -
  have nm: "\<not> same_content n m"
    using assms(6) same_content_sym by blast
  have "kind_of opt b l r p = Push" "kind_of opt b r l p = Push" if "ro_conflict opt = PreferLocal"
    using assms nm that
    by (simp_all add: kind_of_two_way decide_two_way_cases man_find_def local_wins_def keep_def)
  moreover have "kind_of opt b l r p = Pull" "kind_of opt b r l p = Pull"
    if "ro_conflict opt = PreferRemote"
    using assms nm that
    by (simp_all add: kind_of_two_way decide_two_way_cases man_find_def local_wins_def adopt_def)
  ultimately show ?thesis
    using assms by (simp add: follow_settles man_find_def reconcile_lists round_keys_set)
qed

theorem same_side_policy_diverges_witness:
  "[97] \<in> set (pl_push (reconcile [] [([97], sample_meta)] [([97], sample_meta\<lparr>fm_size := 4\<rparr>)]
     (sample_options PreferLocal True)))"
  using same_side_policy_diverges [of "sample_options PreferLocal True" "[([97], sample_meta)]"
      "[([97], sample_meta\<lparr>fm_size := 4\<rparr>)]" "[97]" sample_meta "sample_meta\<lparr>fm_size := 4\<rparr>" "[]"]
  by (simp add: sample_options_def man_find_def sample_meta_def same_content_def)

end
