(* ===== verification/Cli.thy ===== *)
theory Cli
  imports Diff
begin

text \<open>
  \<open>app/cli.h\<close> / \<open>.cpp\<close>: the command line, from its words to the options of a run. \<open>unsigned long\<close> is 64
  bits, \<open>int\<close> is 32 bits read with \<^const>\<open>sint\<close>.
\<close>

section \<open>Options\<close>

record folder_options =
  fo_directory :: bytes
  fo_name :: bytes
  fo_mode :: sync_mode
  fo_source :: bool
  fo_replica :: bool
  fo_conflict :: conflict_policy
  fo_no_delete :: bool
  fo_no_delta :: bool
  fo_follow_symlinks :: bool
  fo_ignores :: "bytes list"
  fo_ignore_file :: bytes

definition default_folder :: folder_options where
  "default_folder = \<lparr>fo_directory = [], fo_name = [], fo_mode = TwoWay, fo_source = False, fo_replica = False,
     fo_conflict = Newer, fo_no_delete = False, fo_no_delta = False, fo_follow_symlinks = False,
     fo_ignores = [], fo_ignore_file = []\<rparr>"

record options =
  opt_folders :: "folder_options list"
  opt_port :: u16
  opt_peers :: "bytes list"
  opt_key :: bytes
  opt_allow :: "bytes list"
  opt_discover :: bool
  opt_lan_only :: bool
  opt_interval :: "32 word"
  opt_once :: bool
  opt_data_dir :: bytes
  opt_no_color :: bool
  opt_verbosity :: int

definition default_options :: options where
  "default_options = \<lparr>opt_folders = [], opt_port = 0, opt_peers = [], opt_key = [], opt_allow = [],
     opt_discover = False, opt_lan_only = False, opt_interval = 3, opt_once = False, opt_data_dir = [],
     opt_no_color = False, opt_verbosity = 1\<rparr>"

datatype action = Run | Help | Version | Error

record parse_result =
  pr_action :: action
  pr_error :: bytes
  pr_options :: options

section \<open>Values\<close>

definition is_space :: "u8 \<Rightarrow> bool" where
  "is_space c \<longleftrightarrow> c = 32 \<or> 9 \<le> c \<and> c \<le> 13"

definition is_digit :: "u8 \<Rightarrow> bool" where
  "is_digit c \<longleftrightarrow> 48 \<le> c \<and> c \<le> 57"

definition is_xdigit :: "u8 \<Rightarrow> bool" where
  "is_xdigit c \<longleftrightarrow> is_digit c \<or> 65 \<le> c \<and> c \<le> 70 \<or> 97 \<le> c \<and> c \<le> 102"

definition digits_value :: "bytes \<Rightarrow> int" where
  "digits_value ds = fold (\<lambda>c n. 10 * n + (uint c - 48)) ds 0"

text \<open>\<open>std::strtoul\<close> in base ten: leading white space, a sign, digits; the value and what follows it. A value
  out of range is the largest one, a minus sign negates modulo \<open>2 ^ 64\<close>, and without a digit nothing is
  read.\<close>

definition strtoul :: "bytes \<Rightarrow> u64 \<times> bytes" where
  "strtoul s =
     (let s1 = dropWhile is_space s;
          s2 = (if s1 \<noteq> [] \<and> (hd s1 = 43 \<or> hd s1 = 45) then tl s1 else s1);
          ds = takeWhile is_digit s2; n = digits_value ds
      in if ds = [] then (0, s)
         else (if n \<ge> 2 ^ 64 then - 1 else if hd s1 = 45 then - of_int n else of_int n, dropWhile is_digit s2))"

definition parse_uint :: "bytes \<Rightarrow> u64 option" where
  "parse_uint s =
     (if s = [] then None
      else let (out, rest) = strtoul s in if rest = [] then Some out else None)"

definition is_peer_id :: "bytes \<Rightarrow> bool" where
  "is_peer_id s \<longleftrightarrow> (if length s \<noteq> 64 then False else list_all is_xdigit s)"

lemma is_peer_id_iff: "is_peer_id p \<longleftrightarrow> length p = 64 \<and> (\<forall>c \<in> set p. is_xdigit c)"
  by (simp add: is_peer_id_def list_all_iff)

text \<open>None for a valid name, else the reason.\<close>

definition valid_folder_name :: "bytes \<Rightarrow> bytes option" where
  "valid_folder_name name =
     (if name = [] then Some (str ''a folder name may not be empty'')
      else if length name > 255 then Some (str ''folder name is too long (255 bytes max)'')
      else if list_ex (\<lambda>c. c < 32 \<or> c = 127) name then Some (str ''folder name contains a control character'')
      else if hd name = 32 \<or> last name = 32 then Some (str ''folder name has leading or trailing whitespace'')
      else None)"

section \<open>One word\<close>

datatype opt = O_help | O_version | O_port | O_peer | O_key | O_allow | O_discover | O_lan | O_name | O_mirror
  | O_source | O_replica | O_conflict | O_no_delete | O_no_delta | O_follow_symlinks | O_ignore | O_ignore_file
  | O_interval | O_once | O_data_dir | O_no_color | O_verbose | O_quiet

text \<open>The comparisons of the code, in its order; None is the last two branches.\<close>

definition opt_of :: "bytes \<Rightarrow> opt option" where
  "opt_of arg =
     (if arg = str ''-h'' \<or> arg = str ''--help'' then Some O_help
      else if arg = str ''--version'' then Some O_version
      else if arg = str ''-p'' \<or> arg = str ''--port'' then Some O_port
      else if arg = str ''--peer'' then Some O_peer
      else if arg = str ''--key'' then Some O_key
      else if arg = str ''--allow'' then Some O_allow
      else if arg = str ''--discover'' then Some O_discover
      else if arg = str ''--lan'' then Some O_lan
      else if arg = str ''--name'' then Some O_name
      else if arg = str ''--mirror'' then Some O_mirror
      else if arg = str ''--source'' then Some O_source
      else if arg = str ''--replica'' then Some O_replica
      else if arg = str ''--conflict'' then Some O_conflict
      else if arg = str ''--no-delete'' then Some O_no_delete
      else if arg = str ''--no-delta'' then Some O_no_delta
      else if arg = str ''--follow-symlinks'' then Some O_follow_symlinks
      else if arg = str ''--ignore'' then Some O_ignore
      else if arg = str ''--ignore-file'' then Some O_ignore_file
      else if arg = str ''--interval'' then Some O_interval
      else if arg = str ''--once'' then Some O_once
      else if arg = str ''--data-dir'' then Some O_data_dir
      else if arg = str ''--no-color'' then Some O_no_color
      else if arg = str ''-v'' \<or> arg = str ''--verbose'' then Some O_verbose
      else if arg = str ''-q'' \<or> arg = str ''--quiet'' then Some O_quiet
      else None)"

text \<open>The result so far and the folder options that come before the first directory.\<close>

record parsing =
  pg_res :: parse_result
  pg_defaults :: folder_options

definition fail :: "bytes \<Rightarrow> parsing \<Rightarrow> parsing" where
  "fail msg pg = pg\<lparr>pg_res := (pg_res pg)\<lparr>pr_action := Error, pr_error := msg\<rparr>\<rparr>"

abbreviation on_options :: "(options \<Rightarrow> options) \<Rightarrow> parsing \<Rightarrow> parsing" where
  "on_options f pg \<equiv> pg\<lparr>pg_res := (pg_res pg)\<lparr>pr_options := f (pr_options (pg_res pg))\<rparr>\<rparr>"

abbreviation folders_of :: "parsing \<Rightarrow> folder_options list" where
  "folders_of pg \<equiv> opt_folders (pr_options (pg_res pg))"

definition on_current :: "(folder_options \<Rightarrow> folder_options) \<Rightarrow> parsing \<Rightarrow> parsing" where
  "on_current f pg =
     (if folders_of pg = [] then pg\<lparr>pg_defaults := f (pg_defaults pg)\<rparr>
      else on_options (\<lambda>q. q\<lparr>opt_folders := butlast (opt_folders q) @ [f (last (opt_folders q))]\<rparr>) pg)"

definition split_inline :: "bytes \<Rightarrow> bytes \<times> bytes option" where
  "split_inline arg =
     (if take 2 arg = str ''--'' \<and> 61 \<in> set arg
      then (takeWhile (\<lambda>c. c \<noteq> 61) arg, Some (tl (dropWhile (\<lambda>c. c \<noteq> 61) arg)))
      else (arg, None))"

text \<open>The value of an option: the inline one, else the next word, else an error and an empty value.\<close>

definition next_value :: "bytes \<Rightarrow> bytes option \<Rightarrow> bytes list \<Rightarrow> parsing \<Rightarrow> bytes \<times> bytes list \<times> parsing" where
  "next_value name inline rest pg =
     (case inline of
        Some value \<Rightarrow> (value, rest, pg)
      | None \<Rightarrow>
          (case rest of
             [] \<Rightarrow> ([], [], fail (str ''option '' @ name @ str '' needs a value'') pg)
           | value # rest \<Rightarrow> (value, rest, pg)))"

abbreviation failed :: "parsing \<Rightarrow> bool" where
  "failed pg \<equiv> pr_action (pg_res pg) = Error"

abbreviation set_action :: "action \<Rightarrow> parsing \<Rightarrow> parsing" where
  "set_action a pg \<equiv> pg\<lparr>pg_res := (pg_res pg)\<lparr>pr_action := a\<rparr>\<rparr>"

definition take_port :: "bytes \<Rightarrow> parsing \<Rightarrow> bool \<times> parsing" where
  "take_port value pg =
     (case parse_uint value of
        None \<Rightarrow> (True, fail (str ''invalid --port'') pg)
      | Some p \<Rightarrow> if p > 65535 then (True, fail (str ''invalid --port'') pg)
                  else (False, on_options (\<lambda>q. q\<lparr>opt_port := ucast p\<rparr>) pg))"

definition take_allow :: "bytes \<Rightarrow> parsing \<Rightarrow> bool \<times> parsing" where
  "take_allow hex pg =
     (if failed pg then (True, pg)
      else if \<not> is_peer_id hex then (True, fail (str ''--allow expects a 64-character hex peer id, got: '' @ hex) pg)
      else (False, on_options (\<lambda>q. q\<lparr>opt_allow := opt_allow q @ [hex]\<rparr>) pg))"

definition take_name :: "bytes \<Rightarrow> parsing \<Rightarrow> bool \<times> parsing" where
  "take_name name pg =
     (if failed pg then (True, pg)
      else if folders_of pg = [] then (True, fail (str ''--name must follow a directory (it names that folder)'') pg)
      else case valid_folder_name name of
          Some why \<Rightarrow> (True, fail (why @ str '': '' @ [39] @ name @ [39]) pg)
        | None \<Rightarrow> (False, on_current (\<lambda>f. f\<lparr>fo_name := name\<rparr>) pg))"

definition take_conflict :: "bytes \<Rightarrow> parsing \<Rightarrow> bool \<times> parsing" where
  "take_conflict c pg =
     (if c = str ''newer'' then (False, on_current (\<lambda>f. f\<lparr>fo_conflict := Newer\<rparr>) pg)
      else if c = str ''larger'' then (False, on_current (\<lambda>f. f\<lparr>fo_conflict := Larger\<rparr>) pg)
      else if c = str ''local'' then (False, on_current (\<lambda>f. f\<lparr>fo_conflict := PreferLocal\<rparr>) pg)
      else if c = str ''remote'' then (False, on_current (\<lambda>f. f\<lparr>fo_conflict := PreferRemote\<rparr>) pg)
      else (True, fail (str ''unknown --conflict policy: '' @ c) pg))"

definition take_interval :: "bytes \<Rightarrow> parsing \<Rightarrow> bool \<times> parsing" where
  "take_interval value pg =
     (case parse_uint value of
        None \<Rightarrow> (True, fail (str ''invalid --interval'') pg)
      | Some s \<Rightarrow> if s = 0 then (True, fail (str ''invalid --interval'') pg)
                  else (False, on_options (\<lambda>q. q\<lparr>opt_interval := ucast s\<rparr>) pg))"

text \<open>What an option with a value does with it, and what one without does. The flag is the early return.\<close>

definition with_value :: "opt \<Rightarrow> (bytes \<Rightarrow> parsing \<Rightarrow> bool \<times> parsing) option" where
  "with_value op =
     (case op of
        O_port \<Rightarrow> Some take_port
      | O_peer \<Rightarrow> Some (\<lambda>v pg. (False, on_options (\<lambda>q. q\<lparr>opt_peers := opt_peers q @ [v]\<rparr>) pg))
      | O_key \<Rightarrow> Some (\<lambda>v pg. (False, on_options (\<lambda>q. q\<lparr>opt_key := v, opt_discover := True\<rparr>) pg))
      | O_allow \<Rightarrow> Some take_allow
      | O_name \<Rightarrow> Some take_name
      | O_conflict \<Rightarrow> Some take_conflict
      | O_ignore \<Rightarrow> Some (\<lambda>v pg. (False, on_current (\<lambda>f. f\<lparr>fo_ignores := fo_ignores f @ [v]\<rparr>) pg))
      | O_ignore_file \<Rightarrow> Some (\<lambda>v pg. (False, on_current (\<lambda>f. f\<lparr>fo_ignore_file := v\<rparr>) pg))
      | O_interval \<Rightarrow> Some take_interval
      | O_data_dir \<Rightarrow> Some (\<lambda>v pg. (False, on_options (\<lambda>q. q\<lparr>opt_data_dir := v\<rparr>) pg))
      | _ \<Rightarrow> None)"

definition without_value :: "opt \<Rightarrow> parsing \<Rightarrow> bool \<times> parsing" where
  "without_value op pg =
     (case op of
        O_help \<Rightarrow> (True, set_action Help pg)
      | O_version \<Rightarrow> (True, set_action Version pg)
      | O_discover \<Rightarrow> (False, on_options (\<lambda>q. q\<lparr>opt_discover := True\<rparr>) pg)
      | O_lan \<Rightarrow> (False, on_options (\<lambda>q. q\<lparr>opt_lan_only := True, opt_discover := True\<rparr>) pg)
      | O_mirror \<Rightarrow> (False, on_current (\<lambda>f. f\<lparr>fo_mode := Mirror\<rparr>) pg)
      | O_source \<Rightarrow> (False, on_current (\<lambda>f. f\<lparr>fo_source := True\<rparr>) pg)
      | O_replica \<Rightarrow> (False, on_current (\<lambda>f. f\<lparr>fo_replica := True\<rparr>) pg)
      | O_no_delete \<Rightarrow> (False, on_current (\<lambda>f. f\<lparr>fo_no_delete := True\<rparr>) pg)
      | O_no_delta \<Rightarrow> (False, on_current (\<lambda>f. f\<lparr>fo_no_delta := True\<rparr>) pg)
      | O_follow_symlinks \<Rightarrow> (False, on_current (\<lambda>f. f\<lparr>fo_follow_symlinks := True\<rparr>) pg)
      | O_once \<Rightarrow> (False, on_options (\<lambda>q. q\<lparr>opt_once := True\<rparr>) pg)
      | O_no_color \<Rightarrow> (False, on_options (\<lambda>q. q\<lparr>opt_no_color := True\<rparr>) pg)
      | O_verbose \<Rightarrow> (False, on_options (\<lambda>q. q\<lparr>opt_verbosity := 2\<rparr>) pg)
      | O_quiet \<Rightarrow> (False, on_options (\<lambda>q. q\<lparr>opt_verbosity := 0\<rparr>) pg)
      | _ \<Rightarrow> (False, pg))"

definition open_folder :: "bytes \<Rightarrow> parsing \<Rightarrow> parsing" where
  "open_folder arg pg = on_options (\<lambda>q. q\<lparr>opt_folders := opt_folders q @ [(pg_defaults pg)\<lparr>fo_directory := arg\<rparr>]\<rparr>) pg"

text \<open>One round of the loop: whether it returned, the words left, the state.\<close>

definition parse_arg :: "bytes \<Rightarrow> bytes list \<Rightarrow> parsing \<Rightarrow> bool \<times> bytes list \<times> parsing" where
  "parse_arg word rest pg =
     (let (arg, inline) = split_inline word
      in case opt_of arg of
           Some op \<Rightarrow>
             (case with_value op of
                Some use \<Rightarrow>
                  let (value, rest, pg) = next_value arg inline rest pg; (returned, pg) = use value pg
                  in (returned, rest, pg)
              | None \<Rightarrow> let (returned, pg) = without_value op pg in (returned, rest, pg))
         | None \<Rightarrow>
             if arg \<noteq> [] \<and> hd arg = 45 then (True, rest, fail (str ''unknown option: '' @ arg) pg)
             else (False, rest, open_folder arg pg))"

section \<open>The whole line\<close>

lemma parse_arg_rest: "(returned, rest', pg') = parse_arg word rest pg \<Longrightarrow> length rest' \<le> length rest"
  by (auto simp: parse_arg_def next_value_def Let_def split: prod.splits option.splits list.splits if_splits)

function parse_loop :: "bytes list \<Rightarrow> parsing \<Rightarrow> bool \<times> parsing" where
  "parse_loop [] pg = (False, pg)"
| "parse_loop (word # rest) pg =
     (let (returned, rest', pg') = parse_arg word rest pg
      in if returned \<or> failed pg' then (True, pg') else parse_loop rest' pg')"
  by pat_completeness auto
termination
  by (relation "measure (length \<circ> fst)") (auto dest: parse_arg_rest)

definition folder_label :: "folder_options \<Rightarrow> bytes" where
  "folder_label f = (if fo_name f = [] then fo_directory f else fo_name f)"

definition check_roles :: "folder_options \<Rightarrow> bytes option" where
  "check_roles f =
     (if fo_mode f = Mirror \<and> \<not> fo_source f \<and> \<not> fo_replica f
        then Some (str ''--mirror requires --source or --replica ('' @ folder_label f @ str '')'')
      else if fo_source f \<and> fo_replica f
        then Some (str ''--source and --replica are mutually exclusive ('' @ folder_label f @ str '')'')
      else if fo_mode f = TwoWay \<and> (fo_source f \<or> fo_replica f)
        then Some (str ''--source/--replica only apply with --mirror ('' @ folder_label f @ str '')'')
      else None)"

fun check_all_roles :: "folder_options list \<Rightarrow> bytes option" where
  "check_all_roles [] = None"
| "check_all_roles (f # fs) = (case check_roles f of Some msg \<Rightarrow> Some msg | None \<Rightarrow> check_all_roles fs)"

fun check_names :: "bytes set \<Rightarrow> folder_options list \<Rightarrow> bytes option" where
  "check_names named [] = None"
| "check_names named (f # fs) =
     (if fo_name f = [] then check_names named fs
      else if fo_name f \<in> named then Some (str ''two folders share the name '' @ [39] @ fo_name f @ [39])
      else check_names (insert (fo_name f) named) fs)"

definition parse_start :: parsing where
  "parse_start = \<lparr>pg_res = \<lparr>pr_action = Run, pr_error = [], pr_options = default_options\<rparr>,
     pg_defaults = default_folder\<rparr>"

definition parse_args :: "bytes list \<Rightarrow> parse_result" where
  "parse_args argv =
     (let (returned, pg) = parse_loop (tl argv) parse_start
      in if returned then pg_res pg
         else if folders_of pg = [] then pg_res (fail (str ''missing <directory> to sync'') pg)
         else case check_all_roles (folders_of pg) of
             Some msg \<Rightarrow> pg_res (fail msg pg)
           | None \<Rightarrow>
               (case check_names {} (folders_of pg) of
                  Some msg \<Rightarrow> pg_res (fail msg pg)
                | None \<Rightarrow> pg_res pg))"

section \<open>What every word keeps\<close>

definition folder_sound :: "folder_options \<Rightarrow> bool" where
  "folder_sound f \<longleftrightarrow> (fo_name f = [] \<or> valid_folder_name (fo_name f) = None)
     \<and> (fo_directory f = [] \<or> hd (fo_directory f) \<noteq> 45)"

definition sound :: "parsing \<Rightarrow> bool" where
  "sound pg \<longleftrightarrow> list_all folder_sound (folders_of pg) \<and> fo_name (pg_defaults pg) = []
     \<and> list_all is_peer_id (opt_allow (pr_options (pg_res pg)))
     \<and> (opt_key (pr_options (pg_res pg)) \<noteq> [] \<or> opt_lan_only (pr_options (pg_res pg)) \<longrightarrow> opt_discover (pr_options (pg_res pg)))
     \<and> opt_verbosity (pr_options (pg_res pg)) \<in> {0, 1, 2}"

lemma sound_start: "sound parse_start"
  by (simp add: sound_def parse_start_def default_options_def default_folder_def)

lemma sound_fail [simp]: "sound (fail msg pg) = sound pg"
  by (simp add: sound_def fail_def)

lemma sound_set_action [simp]: "sound (set_action a pg) = sound pg"
  by (simp add: sound_def)

lemma sound_on_current:
  assumes "sound pg" "\<And>f. folder_sound f \<Longrightarrow> folder_sound (g f)" "folders_of pg = [] \<Longrightarrow> fo_name (g (pg_defaults pg)) = []"
  shows "sound (on_current g pg)"
proof (cases "folders_of pg = []")
  case False
  then have "list_all folder_sound (butlast (folders_of pg))" "folder_sound (last (folders_of pg))"
    using assms(1) by (auto simp: sound_def list_all_iff dest: in_set_butlastD)
  with False assms(1,2) show ?thesis
    by (simp add: on_current_def sound_def)
qed (use assms in \<open>simp add: on_current_def sound_def\<close>)

lemma sound_on_plain:
  assumes "sound pg" "\<And>f. folder_sound f \<Longrightarrow> folder_sound (g f)" "\<And>f. fo_name (g f) = fo_name f"
  shows "sound (on_current g pg)"
  by (rule sound_on_current) (use assms in \<open>simp_all add: sound_def\<close>)

lemma sound_next: "sound pg \<Longrightarrow> next_value name inline rest pg = (v, rest', pg') \<Longrightarrow> sound pg'"
  by (auto simp: next_value_def split: option.splits list.splits)

lemma folder_sound_update:
  "folder_sound f \<Longrightarrow> folder_sound (f\<lparr>fo_mode := m\<rparr>)" "folder_sound f \<Longrightarrow> folder_sound (f\<lparr>fo_source := b\<rparr>)"
  "folder_sound f \<Longrightarrow> folder_sound (f\<lparr>fo_replica := b\<rparr>)" "folder_sound f \<Longrightarrow> folder_sound (f\<lparr>fo_conflict := c\<rparr>)"
  "folder_sound f \<Longrightarrow> folder_sound (f\<lparr>fo_no_delete := b\<rparr>)" "folder_sound f \<Longrightarrow> folder_sound (f\<lparr>fo_no_delta := b\<rparr>)"
  "folder_sound f \<Longrightarrow> folder_sound (f\<lparr>fo_follow_symlinks := b\<rparr>)" "folder_sound f \<Longrightarrow> folder_sound (f\<lparr>fo_ignores := i\<rparr>)"
  "folder_sound f \<Longrightarrow> folder_sound (f\<lparr>fo_ignore_file := file\<rparr>)"
  "folder_sound f \<Longrightarrow> valid_folder_name n = None \<Longrightarrow> folder_sound (f\<lparr>fo_name := n\<rparr>)"
  by (simp_all add: folder_sound_def)

lemma sound_take:
  assumes "sound pg"
  shows "sound (snd (take_port v pg))" "sound (snd (take_interval v pg))" "sound (snd (take_allow v pg))"
    "sound (snd (take_name v pg))" "sound (snd (take_conflict v pg))"
proof -
  have "sound (on_options (\<lambda>q. q\<lparr>opt_port := p\<rparr>) pg)" "sound (on_options (\<lambda>q. q\<lparr>opt_interval := n\<rparr>) pg)"
    "is_peer_id v \<Longrightarrow> sound (on_options (\<lambda>q. q\<lparr>opt_allow := opt_allow q @ [v]\<rparr>) pg)" for p n
    using assms by (simp_all add: sound_def)
  then show "sound (snd (take_port v pg))" "sound (snd (take_interval v pg))" "sound (snd (take_allow v pg))"
    using assms by (simp_all add: take_port_def take_interval_def take_allow_def split: option.split)
  have "valid_folder_name v = None \<Longrightarrow> folders_of pg \<noteq> [] \<Longrightarrow> sound (on_current (\<lambda>f. f\<lparr>fo_name := v\<rparr>) pg)"
    by (rule sound_on_current [OF assms]) (simp_all add: folder_sound_update)
  then show "sound (snd (take_name v pg))"
    using assms by (simp add: take_name_def split: option.split)
  have "sound (on_current (\<lambda>f. f\<lparr>fo_conflict := c\<rparr>) pg)" for c
    by (rule sound_on_plain [OF assms]) (simp_all add: folder_sound_update)
  then show "sound (snd (take_conflict v pg))"
    using assms by (simp add: take_conflict_def)
qed

lemma sound_with_value:
  assumes "sound pg" "with_value op = Some use"
  shows "sound (snd (use v pg))"
proof -
  have "sound (on_current (\<lambda>f. f\<lparr>fo_ignores := fo_ignores f @ [v]\<rparr>) pg)"
    "sound (on_current (\<lambda>f. f\<lparr>fo_ignore_file := v\<rparr>) pg)"
    by (rule sound_on_plain [OF assms(1)]; simp add: folder_sound_update)+
  moreover have "sound (on_options (\<lambda>q. q\<lparr>opt_peers := opt_peers q @ [v]\<rparr>) pg)"
    "sound (on_options (\<lambda>q. q\<lparr>opt_data_dir := v\<rparr>) pg)"
    "sound (on_options (\<lambda>q. q\<lparr>opt_key := v, opt_discover := True\<rparr>) pg)"
    using assms(1) by (simp_all add: sound_def)
  ultimately show ?thesis
    using assms(2) sound_take [OF assms(1), of v] by (cases op) (auto simp: with_value_def)
qed

lemma sound_without_value:
  assumes "sound pg"
  shows "sound (snd (without_value op pg))"
proof -
  have "sound (on_current g pg)" if "g \<in> {fo_mode_update (\<lambda>_. Mirror), fo_source_update (\<lambda>_. True),
      fo_replica_update (\<lambda>_. True), fo_no_delete_update (\<lambda>_. True), fo_no_delta_update (\<lambda>_. True),
      fo_follow_symlinks_update (\<lambda>_. True)}" for g
    by (rule sound_on_plain [OF assms]) (use that in \<open>auto simp: folder_sound_update\<close>)
  moreover have "sound (on_options g pg)" if "g \<in> {\<lambda>q. q\<lparr>opt_discover := True\<rparr>,
      \<lambda>q. q\<lparr>opt_once := True\<rparr>,
      \<lambda>q. q\<lparr>opt_no_color := True\<rparr>, \<lambda>q. q\<lparr>opt_verbosity := 2\<rparr>, \<lambda>q. q\<lparr>opt_verbosity := 0\<rparr>}" for g
    using that assms by (elim insertE) (simp_all add: sound_def)
  moreover have "sound (on_options (\<lambda>q. q\<lparr>opt_lan_only := True, opt_discover := True\<rparr>) pg)"
    using assms by (simp add: sound_def)
  ultimately show ?thesis
    using assms by (cases op) (simp_all add: without_value_def)
qed

lemma sound_arg:
  assumes "sound pg" "parse_arg word rest pg = (returned, rest', pg')"
  shows "sound pg'"
proof -
  obtain arg inline where arg: "split_inline word = (arg, inline)" by force
  show ?thesis
  proof (cases "opt_of arg")
    case None
    have "sound (open_folder arg pg)" if "arg = [] \<or> hd arg \<noteq> 45"
      using assms(1) that by (simp add: open_folder_def sound_def folder_sound_def)
    with assms None arg show ?thesis
      by (auto simp: parse_arg_def split: if_splits)
  next
    case (Some op)
    show ?thesis
    proof (cases "with_value op")
      case None
      with assms Some arg sound_without_value [OF assms(1), of op] show ?thesis
        by (cases "without_value op pg") (simp add: parse_arg_def)
    next
      case use: (Some use)
      obtain v rest1 pg1 where v: "next_value arg inline rest pg = (v, rest1, pg1)" by (metis prod_cases3)
      from sound_with_value [OF sound_next [OF assms(1) v] use, of v] show ?thesis
        using assms(2) Some use arg v by (cases "use v pg1") (simp add: parse_arg_def)
    qed
  qed
qed

text \<open>The loop runs on exactly while the action is \<open>Run\<close>.\<close>

lemma action_frame [simp]: "pr_action (pg_res (on_current g pg)) = pr_action (pg_res pg)"
  "pr_action (pg_res (fail msg pg)) = Error" "pr_action (pg_res (open_folder arg pg)) = pr_action (pg_res pg)"
  by (simp_all add: on_current_def fail_def open_folder_def)

lemma take_action:
  "take_port v pg = (returned, pg') \<Longrightarrow> pr_action (pg_res pg') = (if returned then Error else pr_action (pg_res pg))"
  "take_allow v pg = (returned, pg') \<Longrightarrow> pr_action (pg_res pg') = (if returned then Error else pr_action (pg_res pg))"
  "take_name v pg = (returned, pg') \<Longrightarrow> pr_action (pg_res pg') = (if returned then Error else pr_action (pg_res pg))"
  "take_conflict v pg = (returned, pg') \<Longrightarrow> pr_action (pg_res pg') = (if returned then Error else pr_action (pg_res pg))"
  "take_interval v pg = (returned, pg') \<Longrightarrow> pr_action (pg_res pg') = (if returned then Error else pr_action (pg_res pg))"
  by (auto simp: take_port_def take_allow_def take_name_def take_conflict_def take_interval_def
      split: option.splits if_splits)

lemma with_value_action:
  assumes "with_value op = Some use" "use v pg = (returned, pg')"
  shows "pr_action (pg_res pg') = (if returned then Error else pr_action (pg_res pg))"
  using assms take_action [of v pg returned pg'] by (cases op; simp add: with_value_def) force+

lemma without_value_action:
  assumes "without_value op pg = (returned, pg')"
  shows "if returned then pr_action (pg_res pg') \<in> {Help, Version} else pr_action (pg_res pg') = pr_action (pg_res pg)"
  using assms by (cases op) (auto simp: without_value_def)

lemma next_action:
  "next_value name inline rest pg = (v, rest', pg') \<Longrightarrow> pg' = pg \<or> failed pg'"
  by (auto simp: next_value_def split: option.splits list.splits)

lemma parse_arg_action:
  assumes "parse_arg word rest pg = (returned, rest', pg')" "pr_action (pg_res pg) = Run"
  shows "pr_action (pg_res pg') = Run \<longleftrightarrow> \<not> (returned \<or> failed pg')"
proof -
  obtain arg inline where arg: "split_inline word = (arg, inline)" by force
  show ?thesis
  proof (cases "opt_of arg")
    case None
    with assms arg show ?thesis
      by (auto simp: parse_arg_def split: if_splits)
  next
    case (Some op)
    show ?thesis
    proof (cases "with_value op")
      case None
      with assms Some arg show ?thesis
        using without_value_action [of op pg] by (cases "without_value op pg") (auto simp: parse_arg_def split: if_splits)
    next
      case use: (Some use)
      obtain v rest1 pg1 where v: "next_value arg inline rest pg = (v, rest1, pg1)" by (metis prod_cases3)
      obtain r2 pg2 where u: "use v pg1 = (r2, pg2)" by force
      have "returned = r2" "pg' = pg2"
        using assms(1) Some use arg v u by (simp_all add: parse_arg_def)
      with next_action [OF v] with_value_action [OF use u] assms(2) show ?thesis
        by (cases r2) auto
    qed
  qed
qed

lemma parse_loop_sound:
  "parse_loop words pg = (returned, pg') \<Longrightarrow> sound pg \<Longrightarrow> pr_action (pg_res pg) = Run
   \<Longrightarrow> sound pg' \<and> (returned \<longleftrightarrow> pr_action (pg_res pg') \<noteq> Run)"
proof (induction words pg arbitrary: pg' returned rule: parse_loop.induct)
  case (2 word rest pg)
  obtain r rest1 pg1 where arg: "parse_arg word rest pg = (r, rest1, pg1)" by (metis prod_cases3)
  note s1 = sound_arg [OF 2(3) arg] and a1 = parse_arg_action [OF arg 2(4)]
  show ?case
  proof (cases "r \<or> failed pg1")
    case True
    with 2(2) arg s1 a1 show ?thesis by auto
  next
    case False
    with 2(2) arg s1 a1 2(1) [OF arg [symmetric] refl refl] show ?thesis by simp
  qed
qed simp

lemma check_names_None:
  "check_names named fs = None \<longleftrightarrow> distinct (filter (\<lambda>n. n \<noteq> []) (map fo_name fs))
     \<and> named \<inter> set (filter (\<lambda>n. n \<noteq> []) (map fo_name fs)) = {}"
  by (induction fs arbitrary: named) auto

lemma check_all_roles_None: "check_all_roles fs = None \<longleftrightarrow> (\<forall>f \<in> set fs. check_roles f = None)"
  by (induction fs) (auto split: option.splits)

section \<open>Reading what a user meant\<close>

text \<open>The folder options, each as the words that give it and as its effect on a folder.\<close>

datatype folder_flag = F_name bytes | F_mirror | F_source | F_replica | F_conflict conflict_policy
  | F_no_delete | F_no_delta | F_follow_symlinks | F_ignore bytes | F_ignore_file bytes

definition flag_words :: "folder_flag \<Rightarrow> bytes list" where
  "flag_words fl =
     (case fl of
        F_name n \<Rightarrow> [str ''--name'', n]
      | F_mirror \<Rightarrow> [str ''--mirror''] | F_source \<Rightarrow> [str ''--source''] | F_replica \<Rightarrow> [str ''--replica'']
      | F_conflict c \<Rightarrow> [str ''--conflict'', conflict_policy_name c]
      | F_no_delete \<Rightarrow> [str ''--no-delete''] | F_no_delta \<Rightarrow> [str ''--no-delta'']
      | F_follow_symlinks \<Rightarrow> [str ''--follow-symlinks'']
      | F_ignore p \<Rightarrow> [str ''--ignore'', p] | F_ignore_file p \<Rightarrow> [str ''--ignore-file'', p])"

definition effect :: "folder_flag \<Rightarrow> folder_options \<Rightarrow> folder_options" where
  "effect fl f =
     (case fl of
        F_name n \<Rightarrow> f\<lparr>fo_name := n\<rparr>
      | F_mirror \<Rightarrow> f\<lparr>fo_mode := Mirror\<rparr> | F_source \<Rightarrow> f\<lparr>fo_source := True\<rparr> | F_replica \<Rightarrow> f\<lparr>fo_replica := True\<rparr>
      | F_conflict c \<Rightarrow> f\<lparr>fo_conflict := c\<rparr>
      | F_no_delete \<Rightarrow> f\<lparr>fo_no_delete := True\<rparr> | F_no_delta \<Rightarrow> f\<lparr>fo_no_delta := True\<rparr>
      | F_follow_symlinks \<Rightarrow> f\<lparr>fo_follow_symlinks := True\<rparr>
      | F_ignore p \<Rightarrow> f\<lparr>fo_ignores := fo_ignores f @ [p]\<rparr> | F_ignore_file p \<Rightarrow> f\<lparr>fo_ignore_file := p\<rparr>)"

text \<open>A name is valid and names a folder; a directory does not look like an option.\<close>

definition flag_ok :: "bool \<Rightarrow> folder_flag \<Rightarrow> bool" where
  "flag_ok inside fl = (case fl of F_name n \<Rightarrow> inside \<and> valid_folder_name n = None | _ \<Rightarrow> True)"

definition directory_ok :: "bytes \<Rightarrow> bool" where
  "directory_ok d \<longleftrightarrow> d = [] \<or> hd d \<noteq> 45"

abbreviation segment_ok :: "bytes \<times> folder_flag list \<Rightarrow> bool" where
  "segment_ok seg \<equiv> directory_ok (fst seg) \<and> list_all (flag_ok True) (snd seg)"

definition segment_words :: "bytes \<times> folder_flag list \<Rightarrow> bytes list" where
  "segment_words seg = fst seg # concat (map flag_words (snd seg))"

definition line_words :: "folder_flag list \<Rightarrow> (bytes \<times> folder_flag list) list \<Rightarrow> bytes list" where
  "line_words pre segs = concat (map flag_words pre) @ concat (map segment_words segs)"

text \<open>The folders such a line means: each starts from the defaults and is changed by its own options only.\<close>

definition meant :: "folder_flag list \<Rightarrow> (bytes \<times> folder_flag list) list \<Rightarrow> folder_options list" where
  "meant pre segs = map (\<lambda>(d, fls). fold effect fls ((fold effect pre default_folder)\<lparr>fo_directory := d\<rparr>)) segs"

lemma meant_Nil: "meant pre segs = [] \<longleftrightarrow> segs = []"
  by (simp add: meant_def)

lemma opt_words [simp]:
  "opt_of (str ''--name'') = Some O_name" "opt_of (str ''--mirror'') = Some O_mirror"
  "opt_of (str ''--source'') = Some O_source" "opt_of (str ''--replica'') = Some O_replica"
  "opt_of (str ''--conflict'') = Some O_conflict" "opt_of (str ''--no-delete'') = Some O_no_delete"
  "opt_of (str ''--no-delta'') = Some O_no_delta" "opt_of (str ''--follow-symlinks'') = Some O_follow_symlinks"
  "opt_of (str ''--ignore'') = Some O_ignore" "opt_of (str ''--ignore-file'') = Some O_ignore_file"
  by code_simp+

lemma split_words [simp]:
  "split_inline (str ''--name'') = (str ''--name'', None)" "split_inline (str ''--mirror'') = (str ''--mirror'', None)"
  "split_inline (str ''--source'') = (str ''--source'', None)" "split_inline (str ''--replica'') = (str ''--replica'', None)"
  "split_inline (str ''--conflict'') = (str ''--conflict'', None)" "split_inline (str ''--no-delete'') = (str ''--no-delete'', None)"
  "split_inline (str ''--no-delta'') = (str ''--no-delta'', None)"
  "split_inline (str ''--follow-symlinks'') = (str ''--follow-symlinks'', None)"
  "split_inline (str ''--ignore'') = (str ''--ignore'', None)" "split_inline (str ''--ignore-file'') = (str ''--ignore-file'', None)"
  by code_simp+

lemma opt_of_dash: "c \<noteq> 45 \<Longrightarrow> opt_of (c # s) = None" "opt_of [] = None"
  by (simp_all add: opt_of_def str_def)

lemma parse_directory:
  assumes "directory_ok d" "pr_action (pg_res pg) = Run"
  shows "parse_loop (d # rest) pg = parse_loop rest (open_folder d pg)"
proof -
  have "split_inline d = (d, None)"
    using assms(1) by (cases d) (auto simp: split_inline_def directory_ok_def str_def)
  moreover have "opt_of d = None"
    using opt_of_dash assms(1) by (cases d) (simp_all add: directory_ok_def)
  ultimately show ?thesis
    using assms by (auto simp: parse_arg_def directory_ok_def)
qed

lemma policy_names: "take_conflict (conflict_policy_name c) pg = (False, on_current (\<lambda>f. f\<lparr>fo_conflict := c\<rparr>) pg)"
proof -
  have "str ''larger'' \<noteq> str ''newer''" "str ''local'' \<noteq> str ''newer''" "str ''local'' \<noteq> str ''larger''"
    "str ''remote'' \<noteq> str ''newer''" "str ''remote'' \<noteq> str ''larger''" "str ''remote'' \<noteq> str ''local''"
    by code_simp+
  then show ?thesis
    by (cases c) (simp_all add: take_conflict_def conflict_policy_name_def)
qed

lemma parse_flag:
  assumes "flag_ok (folders_of pg \<noteq> []) fl" "pr_action (pg_res pg) = Run"
  shows "parse_loop (flag_words fl @ rest) pg = parse_loop rest (on_current (effect fl) pg)"
  using assms
  by (cases fl) (simp_all add: flag_words_def parse_arg_def with_value_def without_value_def next_value_def
      effect_def [abs_def] take_name_def flag_ok_def policy_names)

lemma folders_on_current: "folders_of (on_current g pg) = [] \<longleftrightarrow> folders_of pg = []"
  by (simp add: on_current_def)

lemma parse_flags:
  assumes "list_all (flag_ok (folders_of pg \<noteq> [])) fls" "pr_action (pg_res pg) = Run"
  shows "parse_loop (concat (map flag_words fls) @ rest) pg = parse_loop rest (fold (\<lambda>fl. on_current (effect fl)) fls pg)
    \<and> pr_action (pg_res (fold (\<lambda>fl. on_current (effect fl)) fls pg)) = Run"
  using assms
  by (induction fls arbitrary: pg) (simp_all add: parse_flag folders_on_current)

lemma fold_on_current:
  "fold (\<lambda>fl. on_current (effect fl)) fls pg =
     (if folders_of pg = [] then pg\<lparr>pg_defaults := fold effect fls (pg_defaults pg)\<rparr>
      else on_options (\<lambda>q. q\<lparr>opt_folders := butlast (opt_folders q) @ [fold effect fls (last (opt_folders q))]\<rparr>) pg)"
  by (induction fls arbitrary: pg) (auto simp: on_current_def)

lemma parse_segments:
  assumes "\<forall>seg \<in> set segs. segment_ok seg" "pr_action (pg_res pg) = Run"
  shows "\<exists>pg'. parse_loop (concat (map segment_words segs) @ rest) pg = parse_loop rest pg'
    \<and> pr_action (pg_res pg') = Run \<and> pg_defaults pg' = pg_defaults pg
    \<and> folders_of pg' = folders_of pg @ map (\<lambda>(d, fls). fold effect fls ((pg_defaults pg)\<lparr>fo_directory := d\<rparr>)) segs"
  using assms
proof (induction segs arbitrary: pg)
  case (Cons seg segs)
  obtain d fls where seg: "seg = (d, fls)" by force
  let ?open = "open_folder d pg"
  let ?pg = "fold (\<lambda>fl. on_current (effect fl)) fls ?open"
  have ok: "directory_ok d" "list_all (flag_ok True) fls" "\<forall>seg \<in> set segs. segment_ok seg"
    using Cons.prems(1) seg by auto
  have open1: "folders_of ?open = folders_of pg @ [(pg_defaults pg)\<lparr>fo_directory := d\<rparr>]" "pg_defaults ?open = pg_defaults pg"
    "pr_action (pg_res ?open) = Run"
    using Cons.prems(2) by (simp_all add: open_folder_def)
  have flags: "parse_loop (concat (map flag_words fls) @ r) ?open = parse_loop r ?pg" "pr_action (pg_res ?pg) = Run" for r
    using parse_flags [of ?open fls r] ok(2) open1 by simp_all
  have pg: "folders_of ?pg = folders_of pg @ [fold effect fls ((pg_defaults pg)\<lparr>fo_directory := d\<rparr>)]"
    "pg_defaults ?pg = pg_defaults pg"
    using open1 by (simp_all add: fold_on_current)
  obtain pg' where pg': "parse_loop (concat (map segment_words segs) @ rest) ?pg = parse_loop rest pg'"
    "pr_action (pg_res pg') = Run" "pg_defaults pg' = pg_defaults ?pg"
    "folders_of pg' = folders_of ?pg @ map (\<lambda>(d, fls). fold effect fls ((pg_defaults ?pg)\<lparr>fo_directory := d\<rparr>)) segs"
    using Cons.IH [OF ok(3) flags(2)] by blast
  have "parse_loop (concat (map segment_words (seg # segs)) @ rest) pg = parse_loop rest pg'"
    using parse_directory [OF ok(1) Cons.prems(2)] flags(1) pg'(1) by (simp add: seg segment_words_def)
  with pg'(2-4) pg show ?case
    by (intro exI [of _ pg']) (simp add: seg)
next
  case Nil
  then show ?case
    by (intro exI [of _ pg]) simp
qed

lemma parse_line:
  assumes "list_all (flag_ok False) pre" "\<forall>seg \<in> set segs. segment_ok seg"
  shows "\<exists>pg. parse_loop (line_words pre segs @ rest) parse_start = parse_loop rest pg
    \<and> pr_action (pg_res pg) = Run \<and> folders_of pg = meant pre segs"
proof -
  let ?pg = "fold (\<lambda>fl. on_current (effect fl)) pre parse_start"
  have start: "folders_of parse_start = []" "pg_defaults parse_start = default_folder" "pr_action (pg_res parse_start) = Run"
    by (simp_all add: parse_start_def default_options_def)
  have "parse_loop (concat (map flag_words pre) @ r) parse_start = parse_loop r ?pg" "pr_action (pg_res ?pg) = Run"
    "folders_of ?pg = []" "pg_defaults ?pg = fold effect pre default_folder" for r
    using parse_flags [of parse_start pre r] assms(1) start by (simp_all add: fold_on_current)
  with parse_segments [OF assms(2), of ?pg rest] show ?thesis
    by (auto simp: line_words_def meant_def)
qed

lemma parse_args_stop:
  assumes "list_all (flag_ok False) pre" "\<forall>seg \<in> set segs. segment_ok seg"
    and "\<And>pg. \<exists>pg'. parse_loop words pg = (True, pg') \<and> P (pg_res pg')"
  shows "P (parse_args (prog # line_words pre segs @ words))"
proof -
  obtain pg where "parse_loop (line_words pre segs @ words) parse_start = parse_loop words pg"
    using parse_line [OF assms(1,2)] by blast
  with assms(3) [of pg] show ?thesis
    by (auto simp: parse_args_def)
qed

section \<open>Properties\<close>

text \<open>C34. A command line that is accepted describes a run: at least one folder; every folder is two-way without
  a role or a mirror with exactly one, its name is valid or left to the directory, no explicit name is
  given twice, no folder is an option in disguise; every allowed peer is a full id; and a key or the
  LAN restriction turns discovery on.\<close>

theorem parse_run_sound:
  assumes "pr_action (parse_args argv) = Run" "q = pr_options (parse_args argv)"
  shows "opt_folders q \<noteq> []
    \<and> (\<forall>f \<in> set (opt_folders q). (fo_mode f = Mirror \<longleftrightarrow> fo_source f \<noteq> fo_replica f) \<and> \<not> (fo_source f \<and> fo_replica f)
        \<and> (fo_name f = [] \<or> valid_folder_name (fo_name f) = None) \<and> (fo_directory f = [] \<or> hd (fo_directory f) \<noteq> 45))
    \<and> distinct (filter (\<lambda>n. n \<noteq> []) (map fo_name (opt_folders q)))
    \<and> (\<forall>p \<in> set (opt_allow q). length p = 64 \<and> (\<forall>c \<in> set p. is_xdigit c))
    \<and> (opt_key q \<noteq> [] \<or> opt_lan_only q \<longrightarrow> opt_discover q)"
proof -
  obtain returned pg where loop: "parse_loop (tl argv) parse_start = (returned, pg)" by force
  have "pr_action (pg_res parse_start) = Run"
    by (simp add: parse_start_def)
  note s = parse_loop_sound [OF loop sound_start this]
  have ok: "\<not> returned" "folders_of pg \<noteq> []" "check_all_roles (folders_of pg) = None"
    "check_names {} (folders_of pg) = None" "q = pr_options (pg_res pg)"
    using assms loop s by (auto simp: parse_args_def split: if_splits option.splits)
  have roles: "(fo_mode f = Mirror \<longleftrightarrow> fo_source f \<noteq> fo_replica f) \<and> \<not> (fo_source f \<and> fo_replica f)"
    if "check_roles f = None" for f
    using that by (cases "fo_mode f") (auto simp: check_roles_def split: if_splits)
  have snd: "list_all folder_sound (opt_folders q)" "list_all is_peer_id (opt_allow q)"
    "opt_key q \<noteq> [] \<or> opt_lan_only q \<longrightarrow> opt_discover q"
    using s ok(5) by (simp_all add: sound_def)
  have "\<forall>f \<in> set (opt_folders q). (fo_mode f = Mirror \<longleftrightarrow> fo_source f \<noteq> fo_replica f) \<and> \<not> (fo_source f \<and> fo_replica f)"
    using ok(3,5) roles by (simp add: check_all_roles_None)
  with snd(1) have "\<forall>f \<in> set (opt_folders q). (fo_mode f = Mirror \<longleftrightarrow> fo_source f \<noteq> fo_replica f) \<and> \<not> (fo_source f \<and> fo_replica f)
        \<and> (fo_name f = [] \<or> valid_folder_name (fo_name f) = None) \<and> (fo_directory f = [] \<or> hd (fo_directory f) \<noteq> 45)"
    unfolding list_all_iff folder_sound_def by simp
  moreover have "\<forall>p \<in> set (opt_allow q). length p = 64 \<and> (\<forall>c \<in> set p. is_xdigit c)"
    using snd(2) unfolding list_all_iff is_peer_id_iff by blast
  moreover have "distinct (filter (\<lambda>n. n \<noteq> []) (map fo_name (opt_folders q)))"
    using ok(4,5) by (simp add: check_names_None)
  ultimately show ?thesis
    using snd(3) ok(2,5) by blast
qed

theorem parse_run_sound_witness:
  "pr_action (parse_args [[114], [97]]) = Run \<and> opt_folders (pr_options (parse_args [[114], [97]])) \<noteq> []
    \<and> \<not> (fo_source (hd (opt_folders (pr_options (parse_args [[114], [97]]))))
        \<and> fo_replica (hd (opt_folders (pr_options (parse_args [[114], [97]])))))"
proof -
  have run: "pr_action (parse_args [[114], [97]]) = Run"
    by code_simp
  from parse_run_sound [OF run refl] have "opt_folders (pr_options (parse_args [[114], [97]])) \<noteq> []"
    "\<forall>f \<in> set (opt_folders (pr_options (parse_args [[114], [97]]))). \<not> (fo_source f \<and> fo_replica f)"
    by blast+
  with run show ?thesis by simp
qed

text \<open>C18. The line is read left to right: options before the first directory are every folder's defaults, each
  option after a directory changes that folder alone, and nothing of one folder reaches the next. The line
  is accepted exactly when there is a folder, every folder has a consistent role and no explicit name is
  given twice.\<close>

theorem parse_positional:
  assumes "list_all (flag_ok False) pre" "\<forall>seg \<in> set segs. segment_ok seg"
  shows "opt_folders (pr_options (parse_args (prog # line_words pre segs))) = meant pre segs
    \<and> (pr_action (parse_args (prog # line_words pre segs)) = Run \<longleftrightarrow>
        segs \<noteq> [] \<and> (\<forall>f \<in> set (meant pre segs). check_roles f = None)
        \<and> distinct (filter (\<lambda>n. n \<noteq> []) (map fo_name (meant pre segs))))"
proof -
  obtain pg where pg: "parse_loop (line_words pre segs) parse_start = (False, pg)"
    "pr_action (pg_res pg) = Run" "folders_of pg = meant pre segs"
    using parse_line [OF assms, of "[]"] by auto
  have "opt_folders (pr_options (pg_res (fail msg pg))) = meant pre segs" for msg
    using pg(3) by (simp add: fail_def)
  with pg show ?thesis
    using check_names_None [of "{}" "meant pre segs"] check_all_roles_None [of "meant pre segs"]
    by (auto simp: parse_args_def meant_Nil split: option.split)
qed

theorem parse_positional_witness:
  "map fo_no_delete (opt_folders (pr_options (parse_args (str ''rasync'' #
      line_words [F_conflict Larger] [(str ''a'', [F_no_delete]), (str ''b'', [F_mirror, F_source])])))) = [True, False]
    \<and> map fo_conflict (opt_folders (pr_options (parse_args (str ''rasync'' #
      line_words [F_conflict Larger] [(str ''a'', [F_no_delete]), (str ''b'', [F_mirror, F_source])])))) = [Larger, Larger]"
proof -
  have "list_all (flag_ok False) [F_conflict Larger]"
    "\<forall>seg \<in> set [(str ''a'', [F_no_delete]), (str ''b'', [F_mirror, F_source])]. segment_ok seg"
    by (simp_all add: flag_ok_def directory_ok_def str_def)
  from parse_positional [OF this, of "str ''rasync''"] show ?thesis
    by (simp add: meant_def effect_def default_folder_def)
qed

text \<open>The first word that ends the parse decides, whatever follows it: an unknown option and a missing
  value are errors that name the option, and a request for help is honoured even on a line whose folders
  would be refused.\<close>

theorem parse_stops:
  assumes "list_all (flag_ok False) pre" "\<forall>seg \<in> set segs. segment_ok seg"
    and "bad \<noteq> []" "hd bad = 45" "opt_of (fst (split_inline bad)) = None"
  shows "pr_action (parse_args (prog # line_words pre segs @ bad # rest)) = Error
    \<and> pr_error (parse_args (prog # line_words pre segs @ bad # rest)) = str ''unknown option: '' @ fst (split_inline bad)
    \<and> pr_action (parse_args (prog # line_words pre segs @ [str ''--ignore''])) = Error
    \<and> pr_error (parse_args (prog # line_words pre segs @ [str ''--ignore''])) = str ''option --ignore needs a value''
    \<and> pr_action (parse_args (prog # line_words pre segs @ str ''--help'' # rest)) = Help"
proof -
  have bad: "fst (split_inline bad) \<noteq> []" "hd (fst (split_inline bad)) = 45"
    using assms(3,4) by (cases bad; auto simp: split_inline_def)+
  have unknown: "parse_loop (bad # rest) pg = (True, fail (str ''unknown option: '' @ fst (split_inline bad)) pg)" for pg
    using assms(5) bad by (cases "split_inline bad") (simp add: parse_arg_def)
  have msg: "str ''option '' @ str ''--ignore'' @ str '' needs a value'' = str ''option --ignore needs a value''"
    by (simp add: str_def)
  have missing: "\<exists>pg'. parse_loop [str ''--ignore''] pg = (True, pg') \<and> failed pg'
      \<and> pr_error (pg_res pg') = str ''option --ignore needs a value''" for pg
    by (simp add: parse_arg_def with_value_def next_value_def msg)
      (simp add: on_current_def fail_def)
  have dash_help: "opt_of (str ''--help'') = Some O_help" "split_inline (str ''--help'') = (str ''--help'', None)"
    by code_simp+
  then have helped: "parse_loop (str ''--help'' # rest) pg = (True, set_action Help pg)" for pg
    by (simp add: parse_arg_def with_value_def without_value_def)
  note stop = parse_args_stop [OF assms(1,2), of _ _ prog]
  have "pr_action (parse_args (prog # line_words pre segs @ bad # rest)) = Error
    \<and> pr_error (parse_args (prog # line_words pre segs @ bad # rest)) = str ''unknown option: '' @ fst (split_inline bad)"
    by (rule stop, subst unknown) (simp add: fail_def)
  moreover have "pr_action (parse_args (prog # line_words pre segs @ [str ''--ignore''])) = Error
    \<and> pr_error (parse_args (prog # line_words pre segs @ [str ''--ignore''])) = str ''option --ignore needs a value''"
    by (rule stop, rule missing)
  moreover have "pr_action (parse_args (prog # line_words pre segs @ str ''--help'' # rest)) = Help"
    by (rule stop, subst helped) simp
  ultimately show ?thesis by blast
qed

theorem parse_stops_witness:
  "pr_action (parse_args ([114] # line_words [F_mirror] [([97], [])] @ [45, 120] # [[98]])) = Error"
proof -
  have "list_all (flag_ok False) [F_mirror]" "\<forall>seg \<in> set [([97], [])]. segment_ok seg"
    by (simp_all add: flag_ok_def directory_ok_def)
  moreover have "opt_of (fst (split_inline [45, 120])) = None"
    by code_simp
  ultimately show ?thesis
    using parse_stops [of "[F_mirror]" "[([97], [])]" "[45, 120]" "[114]" "[[98]]"] by simp
qed

section \<open>An interval that is cut\<close>

lemma interval_cut:
  "pr_action (parse_args [[114], str ''--interval=4294967296'', [97]]) = Run
    \<and> sint (opt_interval (pr_options (parse_args [[114], str ''--interval=4294967296'', [97]]))) = 0
    \<and> \<not> opt_once (pr_options (parse_args [[114], str ''--interval=4294967296'', [97]]))
    \<and> pr_action (parse_args [[114], str ''--interval'', str ''-5'', [97]]) = Run
    \<and> sint (opt_interval (pr_options (parse_args [[114], str ''--interval'', str ''-5'', [97]]))) = - 5
    \<and> \<not> opt_once (pr_options (parse_args [[114], str ''--interval'', str ''-5'', [97]]))"
  by code_simp

end
