(* ===== verification/Hash.thy ===== *)
theory Hash
  imports Serialize
begin

text \<open>
  \<open>core/hash.h\<close>, \<open>core/hash.cpp\<close> and the derivations over user input that hash a labelled string:
  \<open>net/auth.cpp\<close>, and \<open>folder_tag\<close> of \<open>net/protocol.h\<close>. SHA-256 itself is librats' and the parameter
  \<open>sha\<close>; an incremental context is the bytes fed to it so far.
\<close>

unbundle bit_operations_syntax

section \<open>Hex and file hashes\<close>

definition hex_digit :: "u8 \<Rightarrow> u8" where
  "hex_digit n = str ''0123456789abcdef'' ! unat n"

definition to_hex :: "bytes \<Rightarrow> bytes" where
  "to_hex h = concat (map (\<lambda>x. [hex_digit (drop_bit 4 x), hex_digit (x AND 0x0f)]) h)"

definition kBuf :: nat where
  "kBuf = 256 * 1024"

text \<open>What \<open>FileStream::read\<close> promises: up to \<open>n\<close> of the bytes ahead, and fewer only at the end.\<close>

definition reads_ahead :: "('s \<Rightarrow> nat \<Rightarrow> bytes \<times> 's) \<Rightarrow> ('s \<Rightarrow> bytes) \<Rightarrow> bool" where
  "reads_ahead read ahead \<longleftrightarrow>
     (\<forall>s n. fst (read s n) = take n (ahead s) \<and> ahead (snd (read s n)) = drop n (ahead s))"

partial_function (option) hash_loop :: "('s \<Rightarrow> nat \<Rightarrow> bytes \<times> 's) \<Rightarrow> 's \<Rightarrow> bytes \<Rightarrow> bytes option" where
  "hash_loop read s ctx =
     (let (buf, s1) = read s kBuf; n = length buf
      in if n = 0 then Some ctx
         else if n < kBuf then Some (ctx @ buf)
         else hash_loop read s1 (ctx @ buf))"

definition sha256_file ::
  "('s \<Rightarrow> nat \<Rightarrow> bytes \<times> 's) \<Rightarrow> (bytes \<Rightarrow> bytes) \<Rightarrow> 's option \<Rightarrow> bytes option option" where
  "sha256_file read sha opened =
     (case opened of None \<Rightarrow> Some None | Some s \<Rightarrow> map_option (\<lambda>ctx. Some (sha ctx)) (hash_loop read s []))"

section \<open>Labelled derivations\<close>

text \<open>\<open>label\<close>, a NUL, then the user's string: the input of every derivation.\<close>

definition labelled :: "bytes \<Rightarrow> bytes \<Rightarrow> bytes" where
  "labelled label key = label @ [0] @ key"

definition tag :: "(bytes \<Rightarrow> bytes) \<Rightarrow> bytes \<Rightarrow> bytes \<Rightarrow> bytes" where
  "tag sha label key = take 32 (to_hex (sha (labelled label key)))"

definition kProtocolName :: bytes where
  "kProtocolName = str ''rasync/1''"

definition protocol_id :: "(bytes \<Rightarrow> bytes) \<Rightarrow> bytes \<Rightarrow> bytes" where
  "protocol_id sha key =
     (if key = [] then kProtocolName else kProtocolName @ str ''+'' @ tag sha (str ''rasync-psk'') key)"

definition discovery_id :: "(bytes \<Rightarrow> bytes) \<Rightarrow> bytes \<Rightarrow> bytes" where
  "discovery_id sha key =
     (if key = [] then kProtocolName else str ''rasync:'' @ tag sha (str ''rasync-discovery'') key)"

definition kControlTag :: u32 where
  "kControlTag = 0"

definition folder_tag :: "(bytes \<Rightarrow> bytes) \<Rightarrow> bytes \<Rightarrow> u32" where
  "folder_tag sha name =
     (let h = sha (labelled (str ''rasync-folder'') name);
          tag = push_bit 24 (ucast (h ! 0)) OR push_bit 16 (ucast (h ! 1)) OR
                push_bit 8 (ucast (h ! 2)) OR ucast (h ! 3)
      in if tag = kControlTag then 1 else tag)"

section \<open>Lemmas\<close>

lemma until_nul: "0 \<notin> set l \<Longrightarrow> takeWhile (\<lambda>c. c \<noteq> 0) (l @ 0 # k) = (l :: bytes)"
  by (induction l) auto

lemma labelled_inject:
  assumes "0 \<notin> set l" "0 \<notin> set m" "labelled l k = labelled m j"
  shows "l = m \<and> k = j"
  using until_nul [OF assms(1), of k] until_nul [OF assms(2), of j] assms(3)
  by (auto simp: labelled_def)

lemma hash_loop_reads:
  assumes "reads_ahead read ahead"
  shows "hash_loop read s ctx = Some (ctx @ ahead s)"
proof (induction "length (ahead s)" arbitrary: s ctx rule: less_induct)
  case less
  obtain buf s1 where rd: "read s kBuf = (buf, s1)" by force
  then have buf: "buf = take kBuf (ahead s)" and s1: "ahead s1 = drop kBuf (ahead s)"
    using assms by (metis fst_conv reads_ahead_def, metis snd_conv reads_ahead_def)
  have pos: "0 < kBuf"
    by (simp add: kBuf_def)
  show ?case
  proof (cases "kBuf \<le> length (ahead s)")
    case True
    then have "length (ahead s1) < length (ahead s)" "ahead s \<noteq> []"
      using pos by (auto simp: s1)
    then show ?thesis
      using True less.hyps [of s1]
      by (subst hash_loop.simps) (simp add: rd buf s1 min_def pos)
  next
    case False
    then show ?thesis
      by (subst hash_loop.simps) (simp add: rd buf min_def)
  qed
qed

lemma length_to_hex [simp]: "length (to_hex h) = 2 * length h"
  by (induction h) (simp_all add: to_hex_def)

section \<open>Properties\<close>

text \<open>Hashing a file ends and gives the hash of its whole contents, block by block, for a stream that
  returns short reads only at the end of the file.\<close>

theorem sha256_file_streams:
  assumes "reads_ahead read ahead"
  shows "sha256_file read sha (Some s) = Some (Some (sha (ahead s)))"
  using hash_loop_reads [OF assms] by (simp add: sha256_file_def)

theorem sha256_file_streams_witness:
  "sha256_file (\<lambda>s n. (take n s, drop n s)) (\<lambda>x. x) (Some [1, 2]) = Some (Some [1, 2])"
  using sha256_file_streams [of "\<lambda>s n. (take n s, drop n s)" "\<lambda>s. s"] by (simp add: reads_ahead_def)

text \<open>The derivations are separated: no two of the labels \<open>rasync-psk\<close>, \<open>rasync-discovery\<close> and
  \<open>rasync-folder\<close> give the hash the same input whatever the strings behind them, one label never
  does for two different strings, the protocol id is never the public discovery label, and a
  folder's routing tag is never the reserved control tag.\<close>

theorem derivations_separated:
  "(\<forall>l \<in> {str ''rasync-psk'', str ''rasync-discovery'', str ''rasync-folder''}.
     \<forall>m \<in> {str ''rasync-psk'', str ''rasync-discovery'', str ''rasync-folder''}.
       labelled l k = labelled m j \<longrightarrow> l = m \<and> k = j)
   \<and> (k \<noteq> [] \<longrightarrow> protocol_id sha k \<noteq> discovery_id sha k)
   \<and> folder_tag sha k \<noteq> kControlTag"
proof -
  have "0 \<notin> set l" if "l \<in> {str ''rasync-psk'', str ''rasync-discovery'', str ''rasync-folder''}" for l
    using that by (auto simp: str_def)
  moreover have "protocol_id sha k \<noteq> discovery_id sha k" if "k \<noteq> []"
    using that by (simp add: protocol_id_def discovery_id_def kProtocolName_def str_def)
  moreover have "folder_tag sha k \<noteq> kControlTag"
    by (simp add: folder_tag_def kControlTag_def Let_def)
  ultimately show ?thesis
    using labelled_inject by meson
qed

theorem derivations_separated_witness:
  "labelled (str ''rasync-psk'') [1] \<noteq> labelled (str ''rasync-discovery'') [1]
   \<and> protocol_id (\<lambda>x. x) [1] \<noteq> discovery_id (\<lambda>x. x) [1]"
  using derivations_separated [of "[1]" "[1]" "\<lambda>x. x"] by (simp add: str_def)

end
