(* ===== verification/Path.thy ===== *)
theory Path
  imports Prelude
begin

text \<open>
  \<open>core/path.h\<close>: the one predicate that decides whether a peer-supplied path may be joined onto
  the sync root, against a model of how a path resolves.
\<close>

section \<open>The predicate\<close>

text \<open>
  The segment loop of \<open>is_safe_relpath\<close>, from one \<open>start\<close> on: \<open>seg\<close> runs up to the next slash;
  without one it is the last.
\<close>

function safe_segments :: "bytes \<Rightarrow> bool" where
  "safe_segments p =
     (let seg = takeWhile (\<lambda>c. c \<noteq> slash) p
      in if seg = [dot] \<or> seg = [dot, dot] then False
         else case dropWhile (\<lambda>c. c \<noteq> slash) p of
           [] \<Rightarrow> True
         | _ # rest \<Rightarrow> safe_segments rest)"
  by pat_completeness auto
termination
proof (relation "measure length")
  fix p seg :: bytes and c :: u8 and rest :: bytes
  assume "dropWhile (\<lambda>c. c \<noteq> slash) p = c # rest"
  then show "(rest, p) \<in> measure length"
    using length_dropWhile_le [of "\<lambda>c. c \<noteq> slash" p] by simp
qed simp

declare safe_segments.simps [simp del]

definition is_safe_relpath :: "bytes \<Rightarrow> bool" where
  "is_safe_relpath p =
     (if p = [] \<or> hd p = slash \<or> hd p = backslash then False
      else if backslash \<in> set p then False
      else if length p \<ge> 2 \<and> p ! 1 = colon then False
      else safe_segments p)"

section \<open>How a path resolves\<close>

text \<open>
  Walking a path from a directory, given by the names above it (outermost first): an empty segment
  and a dot stay, two dots go up, any other name goes down.
\<close>

fun resolve :: "bytes list \<Rightarrow> bytes list \<Rightarrow> bytes list" where
  "resolve at [] = at"
| "resolve at (seg # segs) =
     (if seg = [] \<or> seg = [dot] then resolve at segs
      else if seg = [dot, dot] then resolve (butlast at) segs
      else resolve (at @ [seg]) segs)"

text \<open>What the operating system sees of a \<open>std::string\<close> passed as \<open>c_str()\<close>.\<close>

definition c_str :: "bytes \<Rightarrow> bytes" where
  "c_str p = takeWhile (\<lambda>c. c \<noteq> 0) p"

section \<open>Lemmas\<close>

lemma safe_segments_pieces:
  "safe_segments p \<longleftrightarrow> [dot] \<notin> set (pieces slash p) \<and> [dot, dot] \<notin> set (pieces slash p)"
proof (induction p rule: safe_segments.induct)
  case (1 p)
  show ?case
  proof (cases "dropWhile (\<lambda>c. c \<noteq> slash) p")
    case Nil
    then have "safe_segments p \<longleftrightarrow> p \<noteq> [dot] \<and> p \<noteq> [dot, dot]"
      using pieces_last [OF Nil] by (subst safe_segments.simps) (simp only: Let_def list.case, auto)
    then show ?thesis
      using pieces_last [OF Nil] by auto
  next
    case (Cons c rest)
    show ?thesis
      unfolding safe_segments.simps [of p] Let_def
      using 1 [OF refl _ Cons] Cons pieces_next [OF Cons] by auto
  qed
qed

lemma resolve_plain:
  "[dot] \<notin> set segs \<Longrightarrow> [dot, dot] \<notin> set segs \<Longrightarrow>
   resolve at segs = at @ filter (\<lambda>seg. seg \<noteq> []) segs"
  by (induction at segs rule: resolve.induct) auto

lemma safe_relpath_iff:
  "is_safe_relpath p \<longleftrightarrow>
     p \<noteq> [] \<and> hd p \<noteq> slash \<and> hd p \<noteq> backslash \<and> backslash \<notin> set p \<and> \<not> (2 \<le> length p \<and> p ! 1 = colon) \<and>
     [dot] \<notin> set (pieces slash p) \<and> [dot, dot] \<notin> set (pieces slash p)"
  by (auto simp: is_safe_relpath_def safe_segments_pieces)

section \<open>Properties\<close>

text \<open>C30. An accepted path cannot leave the sync root: walked from any directory, it ends below that
  directory, at exactly its non-empty segments; and it is relative, holds no backslash and no drive
  letter.\<close>

theorem safe_relpath_stays_inside:
  assumes "is_safe_relpath p"
  shows "resolve root (pieces slash p) = root @ filter (\<lambda>seg. seg \<noteq> []) (pieces slash p)
    \<and> p \<noteq> [] \<and> hd p \<noteq> slash \<and> backslash \<notin> set p \<and> \<not> (2 \<le> length p \<and> p ! 1 = colon)"
  using assms resolve_plain [of "pieces slash p" root]
  by (auto simp: is_safe_relpath_def safe_segments_pieces split: if_splits)

theorem safe_relpath_stays_inside_witness:
  "is_safe_relpath (str ''a/b.c'') \<and>
   resolve [[120]] (pieces slash (str ''a/b.c'')) = [[120], [97], [98, 46, 99]]"
proof -
  have s: "str ''a/b.c'' = [97, 47, 98, 46, 99]"
    by (simp add: str_def)
  have safe: "is_safe_relpath (str ''a/b.c'')"
    by (simp add: s is_safe_relpath_def safe_segments_pieces)
  with safe_relpath_stays_inside [OF safe, of "[[120]]"] show ?thesis
    by (simp add: s)
qed

text \<open>The predicate refuses nothing else: every path that is non-empty, does not start with a
  separator, holds no backslash, has no colon in second place and no segment that is one or two dots
  is accepted.\<close>

theorem safe_relpath_complete:
  "is_safe_relpath p \<longleftrightarrow>
     p \<noteq> [] \<and> hd p \<noteq> slash \<and> backslash \<notin> set p \<and> \<not> (2 \<le> length p \<and> p ! 1 = colon) \<and>
     set (pieces slash p) \<inter> {[dot], [dot, dot]} = {}"
  by (cases p) (auto simp: is_safe_relpath_def safe_segments_pieces)

text \<open>It does not look for NUL bytes, which a length-prefixed path from the wire may hold: an
  accepted path can, as the operating system reads it, be the parent of the sync root.\<close>

theorem safe_relpath_nul_escapes:
  "\<exists>p. is_safe_relpath p \<and> resolve (root @ [leaf]) (pieces slash (c_str p)) = root"
proof (intro exI conjI)
  show "is_safe_relpath [dot, dot, 0]"
    by (simp add: is_safe_relpath_def safe_segments_pieces)
  show "resolve (root @ [leaf]) (pieces slash (c_str [dot, dot, 0])) = root"
    by (simp add: c_str_def)
qed

end
