(* ===== verification/Fs_Path.thy ===== *)
theory Fs_Path
  imports Path
begin

text \<open>
  What the program uses of \<open>std::filesystem::path\<close> on POSIX, as the C++ standard defines it, and what it
  means for directories: two spellings of one directory, and one directory inside another.
\<close>

section \<open>Parts and joins\<close>

text \<open>The part behind the last slash, and the path before it.\<close>

definition fs_filename :: "bytes \<Rightarrow> bytes" where
  "fs_filename p = rev (takeWhile (\<lambda>c. c \<noteq> slash) (rev p))"

definition fs_parent_path :: "bytes \<Rightarrow> bytes" where
  "fs_parent_path p =
     (let d = dropWhile (\<lambda>c. c \<noteq> slash) (rev p); s = rev (dropWhile (\<lambda>c. c = slash) d)
      in if s = [] \<and> d \<noteq> [] then [slash] else s)"

text \<open>\<open>fs::path(base) / leaf\<close>.\<close>

definition fs_join :: "bytes \<Rightarrow> bytes \<Rightarrow> bytes" where
  "fs_join base leaf =
     (if leaf \<noteq> [] \<and> hd leaf = slash then leaf
      else if base = [] \<or> last base = slash then base @ leaf else base @ [slash] @ leaf)"

definition is_absolute :: "bytes \<Rightarrow> bool" where
  "is_absolute p \<longleftrightarrow> p \<noteq> [] \<and> hd p = slash"

text \<open>\<open>fs::absolute\<close> with the current directory, if there is one to read.\<close>

definition fs_absolute :: "bytes option \<Rightarrow> bytes \<Rightarrow> bytes option" where
  "fs_absolute cwd p =
     (if p = [] then None else if is_absolute p then Some p else map_option (\<lambda>d. fs_join d p) cwd)"

section \<open>Normal form\<close>

fun join_slash :: "bytes list \<Rightarrow> bytes" where
  "join_slash [] = []"
| "join_slash [s] = s"
| "join_slash (s # t # ts) = s @ slash # join_slash (t # ts)"

definition normal_step :: "bool \<Rightarrow> bytes \<Rightarrow> bytes list \<Rightarrow> bytes list" where
  "normal_step rooted s kept =
     (if s = [dot] then kept
      else if s = [dot, dot] then
        (if kept \<noteq> [] \<and> last kept \<noteq> [dot, dot] then butlast kept else if rooted then kept else kept @ [s])
      else kept @ [s])"

text \<open>\<open>lexically_normal\<close>: no empty names, no dots, two dots only where nothing is left to go up from; a path
  that named a directory by its form keeps a trailing slash, and an empty one becomes a dot.\<close>

definition lexically_normal :: "bytes \<Rightarrow> bytes" where
  "lexically_normal p =
     (if p = [] then []
      else
        let rooted = (hd p = slash);
            names = filter (\<lambda>s. s \<noteq> []) (pieces slash p);
            kept = fold (normal_step rooted) names [];
            dir = (last p = slash \<or> last names = [dot] \<or> last names = [dot, dot]);
            tail = (if kept \<noteq> [] \<and> dir \<and> last kept \<noteq> [dot, dot] then [slash] else [])
        in if rooted then slash # join_slash kept @ tail
           else if kept = [] then [dot] else join_slash kept @ tail)"

function strip_slashes :: "bytes \<Rightarrow> bytes" where
  "strip_slashes s = (if length s > 1 \<and> last s = slash then strip_slashes (butlast s) else s)"
  by pat_completeness auto
termination by (relation "measure length") auto

declare strip_slashes.simps [simp del]

section \<open>Which directory a path names\<close>

abbreviation names_of :: "bytes \<Rightarrow> bytes list" where
  "names_of p \<equiv> resolve [] (pieces slash p)"

definition plain_name :: "bytes \<Rightarrow> bool" where
  "plain_name s \<longleftrightarrow> s \<noteq> [] \<and> slash \<notin> set s \<and> s \<noteq> [dot] \<and> s \<noteq> [dot, dot]"

lemma pieces_sep_free: "\<forall>s \<in> set (pieces sep p). sep \<notin> set s"
proof (induction p)
  case (Cons c p)
  then show ?case by (cases "pieces sep p") auto
qed simp

lemma plain_butlast: "list_all plain_name at \<Longrightarrow> list_all plain_name (butlast at)"
  by (auto simp: list_all_iff dest: in_set_butlastD)

lemma resolve_plain_names:
  assumes "list_all plain_name at" "\<forall>s \<in> set segs. slash \<notin> set s"
  shows "list_all plain_name (resolve at segs)"
  using assms
proof (induction at segs rule: resolve.induct)
  case (2 at seg segs)
  have rest: "\<forall>s \<in> set segs. slash \<notin> set s" and seg: "slash \<notin> set seg" using 2(5) by auto
  consider "seg = [] \<or> seg = [dot]" | "seg = [dot, dot]" | "seg \<noteq> []" "seg \<noteq> [dot]" "seg \<noteq> [dot, dot]" by blast
  then show ?case
  proof cases
    case 2
    then show ?thesis
      using "2.IH"(2) [OF _ _ plain_butlast [OF "2.prems"(1)] rest] by simp
  next
    case 3
    then have "list_all plain_name (at @ [seg])"
      using "2.prems"(1) seg by (auto simp: plain_name_def [of seg])
    with 3 "2.IH"(3) [OF _ _ _ rest] show ?thesis by simp
  qed (use "2.IH"(1) "2.prems"(1) rest in auto)
qed simp

lemma names_plain: "list_all plain_name (names_of p)"
  by (rule resolve_plain_names) (use pieces_sep_free [of slash p] in simp_all)

lemma normal_resolve:
  assumes "[dot, dot] \<notin> set kept"
  shows "fold (normal_step True) (filter (\<lambda>s. s \<noteq> []) segs) kept = resolve kept segs"
  using assms
proof (induction segs arbitrary: kept)
  case (Cons s segs)
  have "kept = [] \<or> last kept \<noteq> [dot, dot]"
    using Cons.prems by (cases kept rule: rev_cases) auto
  moreover have "[dot, dot] \<notin> set (butlast kept)"
    using Cons.prems by (auto dest: in_set_butlastD)
  ultimately show ?case
    using Cons by (auto simp: normal_step_def)
qed simp

lemma join_slash_Cons: "join_slash (s # ts) = (if ts = [] then s else s @ slash # join_slash ts)"
  by (cases ts) auto

lemma pieces_join:
  assumes "list_all plain_name xs" "xs \<noteq> []"
  shows "pieces slash (join_slash xs) = xs"
  using assms
proof (induction xs rule: join_slash.induct)
  case (3 s t ts)
  then show ?case by (simp add: pieces_append_sep plain_name_def)
qed (simp_all add: pieces_no_sep plain_name_def)

lemma join_slash_inject:
  assumes "list_all plain_name xs" "list_all plain_name ys"
  shows "join_slash xs = join_slash ys \<longleftrightarrow> xs = ys"
proof -
  have "join_slash zs = [] \<longleftrightarrow> zs = []" if "list_all plain_name zs" for zs
    using that by (cases zs) (auto simp: join_slash_Cons plain_name_def)
  then show ?thesis
    using pieces_join [OF assms(1)] pieces_join [OF assms(2)] assms by metis
qed

lemma join_slash_last:
  assumes "list_all plain_name xs" "xs \<noteq> []"
  shows "join_slash xs \<noteq> []" "last (join_slash xs) \<noteq> slash"
proof -
  have "join_slash xs \<noteq> [] \<and> last (join_slash xs) \<noteq> slash"
    using assms by (induction xs rule: join_slash.induct) (auto simp: plain_name_def dest: last_in_set)
  then show "join_slash xs \<noteq> []" "last (join_slash xs) \<noteq> slash" by simp_all
qed

text \<open>The normal form of an absolute path, without a trailing slash: the names it resolves to.\<close>

definition path_of :: "bytes list \<Rightarrow> bytes" where
  "path_of names = slash # join_slash names"

lemma strip_slashes_plain: "\<not> (length s > 1 \<and> last s = slash) \<Longrightarrow> strip_slashes s = s"
  by (subst strip_slashes.simps) (simp only: if_False)

lemma strip_normal:
  assumes "is_absolute p"
  shows "strip_slashes (lexically_normal p) = path_of (names_of p)"
proof -
  have kept: "fold (normal_step True) (filter (\<lambda>s. s \<noteq> []) (pieces slash p)) [] = names_of p"
    by (rule normal_resolve) simp
  obtain tail where tail: "lexically_normal p = path_of (names_of p) @ tail" "tail = [] \<or> tail = [slash] \<and> names_of p \<noteq> []"
    using assms by (auto simp: lexically_normal_def is_absolute_def kept Let_def path_of_def)
  have plain: "strip_slashes (path_of (names_of p)) = path_of (names_of p)"
  proof (cases "names_of p = []")
    case False
    with join_slash_last [OF names_plain False] show ?thesis
      by (intro strip_slashes_plain) (simp add: path_of_def)
  qed (simp add: strip_slashes_plain path_of_def)
  moreover have "strip_slashes (q @ [slash]) = strip_slashes q" if "q \<noteq> []" for q
    using that by (subst strip_slashes.simps) simp
  ultimately show ?thesis
    using tail by (auto simp: path_of_def simp flip: append_Cons)
qed

lemma path_of_inject:
  "list_all plain_name xs \<Longrightarrow> list_all plain_name ys \<Longrightarrow> path_of xs = path_of ys \<longleftrightarrow> xs = ys"
  by (simp add: path_of_def join_slash_inject)

text \<open>A name list extends another just if its path continues the other's behind a slash.\<close>

lemma join_slash_append:
  "xs \<noteq> [] \<Longrightarrow> ys \<noteq> [] \<Longrightarrow> join_slash (xs @ ys) = join_slash xs @ slash # join_slash ys"
  by (induction xs rule: join_slash.induct) (auto simp: join_slash_Cons)

lemma path_of_prefix:
  assumes "list_all plain_name xs" "list_all plain_name ys" "ys \<noteq> []"
  shows "(\<exists>rest. path_of xs = path_of ys @ slash # rest) \<longleftrightarrow> (\<exists>zs. zs \<noteq> [] \<and> xs = ys @ zs)"
proof
  assume "\<exists>rest. path_of xs = path_of ys @ slash # rest"
  then obtain rest where "join_slash xs = join_slash ys @ slash # rest"
    by (auto simp: path_of_def)
  moreover have "pieces slash (s @ slash # t) = pieces slash s @ pieces slash t" for s t :: bytes
  proof (induction s)
    case (Cons c s)
    then show ?case by (cases "pieces slash s") auto
  qed simp
  moreover have "xs \<noteq> []"
    using calculation(1) by auto
  ultimately have "xs = ys @ pieces slash rest"
    using pieces_join [OF assms(1)] pieces_join [OF assms(2,3)] by metis
  then show "\<exists>zs. zs \<noteq> [] \<and> xs = ys @ zs"
    by (intro exI [of _ "pieces slash rest"]) simp
next
  assume "\<exists>zs. zs \<noteq> [] \<and> xs = ys @ zs"
  then show "\<exists>rest. path_of xs = path_of ys @ slash # rest"
    using join_slash_append [OF assms(3)] by (auto simp: path_of_def)
qed

end
