(* ===== verification/State_Dir.thy ===== *)
theory State_Dir
  imports Hash Fs_Path Ordered_Map
begin

text \<open>
  \<open>core/state_dir.h\<close> / \<open>.cpp\<close>, the Linux build: where the state of a synced tree lives, and the move of an
  older version's state out of the tree. The environment, the current directory and SHA-256 are
  parameters; so is what the operating system answers to each rename, copy and removal.
\<close>

section \<open>Locations\<close>

text \<open>\<open>env\<close> gives an empty string for a variable that is not set.\<close>

definition canonical_key :: "bytes option \<Rightarrow> bytes \<Rightarrow> bytes" where
  "canonical_key cwd sync_root =
     (let p = sync_root;
          p = (if \<not> is_absolute p then (case fs_absolute cwd p of Some full \<Rightarrow> full | None \<Rightarrow> p) else p)
      in strip_slashes (lexically_normal p))"

definition leaf_char :: "u8 \<Rightarrow> bool" where
  "leaf_char c \<longleftrightarrow> 97 \<le> c \<and> c \<le> 122 \<or> 65 \<le> c \<and> c \<le> 90 \<or> 48 \<le> c \<and> c \<le> 57 \<or> c = dot \<or> c = 45 \<or> c = 95"

definition readable_leaf :: "bytes \<Rightarrow> bytes" where
  "readable_leaf key =
     (let leaf = fs_filename key;
          leaf = (if leaf = [] then fs_filename (fs_parent_path key) else leaf);
          out = map (\<lambda>c. if leaf_char c then c else 95) (take 40 leaf);
          out = dropWhile (\<lambda>c. c = dot \<or> c = 95) out
      in if out = [] then str ''dir'' else out)"

definition user_state_root :: "(bytes \<Rightarrow> bytes) \<Rightarrow> bytes" where
  "user_state_root env =
     (let override = env (str ''RASYNC_HOME'')
      in if override \<noteq> [] then override
         else
           let home = env (str ''HOME''); xdg = env (str ''XDG_DATA_HOME'')
           in if xdg \<noteq> [] then fs_join xdg (str ''rasync'')
              else if home = [] then [] else fs_join home (str ''.local/share/rasync''))"

definition state_dir_name :: "(bytes \<Rightarrow> bytes) \<Rightarrow> bytes option \<Rightarrow> bytes \<Rightarrow> bytes" where
  "state_dir_name sha cwd sync_root =
     (let key = canonical_key cwd sync_root
      in readable_leaf key @ str ''-'' @ take 16 (to_hex (sha key)))"

definition state_dir_for :: "(bytes \<Rightarrow> bytes) \<Rightarrow> (bytes \<Rightarrow> bytes) \<Rightarrow> bytes option \<Rightarrow> bytes \<Rightarrow> bytes" where
  "state_dir_for sha env cwd sync_root =
     (let root = user_state_root env
      in if root = [] then fs_join sync_root (str ''.rasync'')
         else fs_join (fs_join root (str ''dirs'')) (state_dir_name sha cwd sync_root))"

definition node_state_dir :: "(bytes \<Rightarrow> bytes) \<Rightarrow> bytes" where
  "node_state_dir env =
     (let root = user_state_root env in if root = [] then [] else fs_join root (str ''node''))"

text \<open>The file that names the owner: where it is and what it holds.\<close>

definition record_state_owner :: "bytes \<Rightarrow> bytes \<Rightarrow> bytes \<times> bytes" where
  "record_state_owner state_dir sync_root = (fs_join state_dir (str ''directory.txt''), sync_root @ [10])"

section \<open>Moving an older version's state\<close>

text \<open>A directory is its entries by name; what an entry holds, a file, a link or a tree, is \<open>'e\<close>. A copy or a
  removal that fails may leave something behind. Two calls of the code throw instead of reporting, and nothing
  catches what they throw: reading on in the listing, and \<open>fs::exists\<close>, when the status of a name in the target
  cannot be had. That call follows links, so it does not see a link in the target that points at nothing:
  \<open>mv_sees\<close> says of which contents of the target it is true.\<close>

type_synonym 'e entries = "(bytes, 'e) omap"

datatype 'e copied = Copied | Copy_failed "'e option"
datatype 'e removed = Removed | Remove_failed "'e option"
datatype listing = Listed "bytes list" | Not_opened | Read_throws

record 'e move_outcomes =
  mv_equivalent :: bool
  mv_created :: bool
  mv_listing :: listing
  mv_stat_throws :: "bytes \<Rightarrow> bool"
  mv_sees :: "'e \<Rightarrow> bool"
  mv_rename :: "bytes \<Rightarrow> bool"
  mv_copy :: "bytes \<Rightarrow> 'e copied"
  mv_remove :: "bytes \<Rightarrow> 'e removed"
  mv_rmdir :: bool

definition put_back :: "bytes \<Rightarrow> 'e option \<Rightarrow> 'e entries \<Rightarrow> 'e entries" where
  "put_back n left d = (case left of None \<Rightarrow> om_erase n d | Some e \<Rightarrow> om_assign n e d)"

text \<open>The count is None once an exception has ended the program; then nothing moves any more.\<close>

definition migrate_entry ::
  "'e move_outcomes \<Rightarrow> bytes \<Rightarrow> nat option \<times> 'e entries \<times> 'e entries \<Rightarrow> nat option \<times> 'e entries \<times> 'e entries" where
  "migrate_entry os n s =
     (case s of
        (None, src, dst) \<Rightarrow> s
      | (Some moved, src, dst) \<Rightarrow>
       (case om_find src n of
          None \<Rightarrow> s
        | Some e \<Rightarrow>
            if mv_stat_throws os n then (None, src, dst)
            else if (case om_find dst n of None \<Rightarrow> False | Some d \<Rightarrow> mv_sees os d) then s
            else if mv_rename os n then (Some (moved + 1), om_erase n src, om_assign n e dst)
            else (case mv_copy os n of
                Copy_failed left \<Rightarrow> (Some moved, src, put_back n left dst)
              | Copied \<Rightarrow>
                  (case mv_remove os n of
                     Remove_failed left \<Rightarrow> (Some moved, put_back n left src, om_assign n e dst)
                   | Removed \<Rightarrow> (Some (moved + 1), om_erase n src, om_assign n e dst)))))"

text \<open>The legacy directory is None when it is not a directory; the result is the count, what is left of it,
  and the target.\<close>

definition migrate_state_dir ::
  "'e move_outcomes \<Rightarrow> bytes \<Rightarrow> bytes \<Rightarrow> 'e entries option \<Rightarrow> 'e entries \<Rightarrow> nat option \<times> 'e entries option \<times> 'e entries" where
  "migrate_state_dir os legacy target from_dir to_dir =
     (if legacy = [] \<or> target = [] then (Some 0, from_dir, to_dir)
      else if mv_equivalent os then (Some 0, from_dir, to_dir)
      else case from_dir of
          None \<Rightarrow> (Some 0, from_dir, to_dir)
        | Some src \<Rightarrow>
            if \<not> mv_created os then (Some 0, from_dir, to_dir)
            else (case mv_listing os of
                Not_opened \<Rightarrow> (Some 0, from_dir, to_dir)
              | Read_throws \<Rightarrow> (None, from_dir, to_dir)
              | Listed names \<Rightarrow>
                  (case fold (migrate_entry os) names (Some 0, src, to_dir) of
                     (None, src, dst) \<Rightarrow> (None, Some src, dst)
                   | (Some moved, src, dst) \<Rightarrow> (Some moved, if src = [] \<and> mv_rmdir os then None else Some src, dst))))"

section \<open>Lemmas\<close>

lemma canonical_key_absolute: "is_absolute p \<Longrightarrow> canonical_key cwd p = path_of (names_of p)"
  by (simp add: canonical_key_def strip_normal)

lemma canonical_key_relative:
  assumes "\<not> is_absolute p" "p \<noteq> []" "is_absolute cwd"
  shows "canonical_key (Some cwd) p = path_of (names_of (fs_join cwd p))"
proof -
  have "is_absolute (fs_join cwd p)"
    using assms by (cases cwd) (auto simp: fs_join_def is_absolute_def)
  with assms show ?thesis
    by (simp add: canonical_key_def fs_absolute_def strip_normal)
qed

lemma leaf_char_plain: "leaf_char c \<Longrightarrow> c \<noteq> slash \<and> c \<noteq> backslash \<and> c \<noteq> colon"
  by (auto simp: leaf_char_def)

lemma readable_leaf_chars:
  "readable_leaf key \<noteq> []" "\<forall>c \<in> set (readable_leaf key). leaf_char c" "hd (readable_leaf key) \<noteq> dot"
proof -
  define out where "out = dropWhile (\<lambda>c. c = dot \<or> c = 95) (map (\<lambda>c. if leaf_char c then c else 95)
      (take 40 (if fs_filename key = [] then fs_filename (fs_parent_path key) else fs_filename key)))"
  have r: "readable_leaf key = (if out = [] then str ''dir'' else out)"
    unfolding readable_leaf_def out_def Let_def by (rule refl)
  have "\<forall>c \<in> set out. leaf_char c"
    unfolding out_def by (auto dest!: set_dropWhileD simp: leaf_char_def)
  moreover have "hd out \<noteq> dot" if "out \<noteq> []"
    using hd_dropWhile [of "\<lambda>c. c = dot \<or> c = 95"] that unfolding out_def by blast
  ultimately show "readable_leaf key \<noteq> []" "\<forall>c \<in> set (readable_leaf key). leaf_char c" "hd (readable_leaf key) \<noteq> dot"
    unfolding r by (simp_all add: str_def leaf_char_def)
qed

lemma to_hex_chars: "c \<in> set (to_hex h) \<Longrightarrow> leaf_char c"
proof -
  have "leaf_char (hex_digit n)" if "unat n < 16" for n
  proof -
    have "list_all leaf_char (str ''0123456789abcdef'')" "length (str ''0123456789abcdef'') = 16"
      by code_simp+
    with that show ?thesis
      by (simp add: hex_digit_def list_all_length)
  qed
  moreover have "unat (drop_bit 4 (x :: u8)) < 16" "unat (x AND 0x0f) < 16" for x
  proof -
    have "unat (drop_bit 4 x) = unat x div 16"
      by (simp add: drop_bit_eq_div unat_div_distrib)
    then show "unat (drop_bit 4 (x :: u8)) < 16"
      using unsigned_less [of x, where 'a = nat] by simp
    have "x AND 0x0f = take_bit 4 x"
      by (simp add: take_bit_eq_mask mask_eq_decr_exp)
    then have "x AND 0x0f = x mod 16"
      by (simp add: take_bit_eq_mod)
    then show "unat (x AND 0x0f) < 16"
      by (simp add: unat_mod_distrib)
  qed
  ultimately show "c \<in> set (to_hex h) \<Longrightarrow> leaf_char c"
    by (auto simp: to_hex_def)
qed

lemma state_dir_name_chars:
  assumes "c \<in> set (state_dir_name sha cwd p)"
  shows "leaf_char c"
proof -
  have "leaf_char 45" by (simp add: leaf_char_def)
  then show ?thesis
    using assms readable_leaf_chars(2) to_hex_chars [OF in_set_takeD]
    by (auto simp: state_dir_name_def Let_def str_def)
qed

text \<open>One entry: what the code sees in the target stays, what was in the source is in one of the two, whole.\<close>

definition kept_whole ::
  "('e \<Rightarrow> bool) \<Rightarrow> 'e entries \<Rightarrow> 'e entries \<Rightarrow> nat option \<times> 'e entries \<times> 'e entries \<Rightarrow> bool" where
  "kept_whole sees src0 dst0 s \<longleftrightarrow>
     (case s of (moved, src, dst) \<Rightarrow> om_inv src \<and> om_inv dst
       \<and> (\<forall>n e. om_find dst0 n = Some e \<and> sees e \<longrightarrow> om_find dst n = Some e)
       \<and> (\<forall>n e. om_find src0 n = Some e \<and> sees e \<longrightarrow> om_find src n = Some e \<or> om_find dst n = Some e))"

lemma find_put_back: "om_inv d \<Longrightarrow> om_find (put_back n left d) = (om_find d)(n := left)"
  "om_inv d \<Longrightarrow> om_inv (put_back n left d)"
  using om.find_assign [of d n] om.find_erase [of d n] om.inv_assign [of d n] om.inv_erase [of d n]
  by (auto simp: put_back_def split: option.split)

lemma migrate_entry_finds:
  assumes "om_inv src" "om_inv dst" "migrate_entry os n (moved, src, dst) = (moved', src', dst')"
  shows "om_inv src' \<and> om_inv dst' \<and> (\<forall>m. m \<noteq> n \<longrightarrow> om_find src' m = om_find src m \<and> om_find dst' m = om_find dst m)
    \<and> (\<forall>d. om_find dst n = Some d \<and> mv_sees os d \<longrightarrow> om_find src' n = om_find src n \<and> om_find dst' n = Some d)
    \<and> (\<forall>e. om_find src n = Some e \<longrightarrow> om_find src' n = Some e \<or> om_find dst' n = Some e)
    \<and> (om_find src n = None \<longrightarrow> om_find src' n = None \<and> om_find dst' n = om_find dst n)"
proof -
  note find = om.find_assign [OF assms(2), of n] om.find_erase [OF assms(1), of n] find_put_back [OF assms(1), of n]
    find_put_back [OF assms(2), of n] om.inv_assign [OF assms(2), of n] om.inv_erase [OF assms(1), of n]
  show ?thesis
    using assms
    by (auto simp: migrate_entry_def find split: option.splits if_splits copied.splits removed.splits)
qed

lemma migrate_entry_keeps:
  assumes "kept_whole (mv_sees os) src0 dst0 s"
  shows "kept_whole (mv_sees os) src0 dst0 (migrate_entry os n s)"
proof -
  obtain moved src dst where s: "s = (moved, src, dst)" by (metis prod_cases3)
  obtain moved' src' dst' where s': "migrate_entry os n (moved, src, dst) = (moved', src', dst')" by (metis prod_cases3)
  have inv: "om_inv src" "om_inv dst" using assms by (auto simp: kept_whole_def s)
  note f = migrate_entry_finds [OF inv s']
  have "om_find dst' m = Some e" if "om_find dst0 m = Some e" "mv_sees os e" for m e
  proof -
    have "om_find dst m = Some e"
      using assms that by (simp add: kept_whole_def s)
    with f that(2) show ?thesis by (cases "m = n") simp_all
  qed
  moreover have "om_find src' m = Some e \<or> om_find dst' m = Some e" if "om_find src0 m = Some e" "mv_sees os e" for m e
  proof -
    have "om_find src m = Some e \<or> om_find dst m = Some e"
      using assms that by (simp add: kept_whole_def s)
    with f that(2) show ?thesis by (cases "m = n") auto
  qed
  ultimately show ?thesis
    using f by (simp add: kept_whole_def s s')
qed

lemma migrate_fold_keeps:
  "kept_whole (mv_sees os) src0 dst0 s \<Longrightarrow> kept_whole (mv_sees os) src0 dst0 (fold (migrate_entry os) names s)"
  by (induction names arbitrary: s) (simp_all add: migrate_entry_keeps)

text \<open>In a listing without repetitions each name is visited once, so what it holds does not matter.\<close>

lemma migrate_fold_distinct:
  assumes "distinct names" "om_inv src" "om_inv dst" "fold (migrate_entry os) names (moved, src, dst) = (moved', src', dst')"
  shows "(\<forall>n e. om_find src n = Some e \<longrightarrow> om_find src' n = Some e \<or> om_find dst' n = Some e)
    \<and> (\<forall>n. n \<notin> set names \<longrightarrow> om_find src' n = om_find src n \<and> om_find dst' n = om_find dst n)"
  using assms
proof (induction names arbitrary: moved src dst)
  case (Cons n names)
  obtain m1 s1 d1 where one: "migrate_entry os n (moved, src, dst) = (m1, s1, d1)" by (metis prod_cases3)
  note f = migrate_entry_finds [OF Cons.prems(2,3) one]
  have rest: "fold (migrate_entry os) names (m1, s1, d1) = (moved', src', dst')" "distinct names" "n \<notin> set names"
    using Cons.prems(1,4) one by simp_all
  note IH = Cons.IH [OF rest(2) f [THEN conjunct1] f [THEN conjunct2, THEN conjunct1] rest(1)]
  show ?case
  proof (intro conjI allI impI)
    fix m e
    assume "om_find src m = Some e"
    then show "om_find src' m = Some e \<or> om_find dst' m = Some e"
      using f IH rest(3) by (cases "m = n") auto
  qed (use f IH in auto)
qed simp_all

lemma migrate_keeps:
  assumes "om_inv src" "om_inv dst" "migrate_state_dir os legacy target (Some src) dst = (moved, left, dst')"
  shows "(\<forall>n e. om_find dst n = Some e \<and> mv_sees os e \<longrightarrow> om_find dst' n = Some e)
    \<and> (\<forall>n e. om_find src n = Some e \<and> (mv_sees os e \<or> (\<forall>names. mv_listing os = Listed names \<longrightarrow> distinct names)) \<longrightarrow>
        (\<exists>src'. left = Some src' \<and> om_find src' n = Some e) \<or> om_find dst' n = Some e)"
proof -
  have start: "kept_whole (mv_sees os) src dst (Some 0, src, dst)"
    using assms(1,2) by (simp add: kept_whole_def)
  show ?thesis
  proof (cases "\<exists>names. mv_listing os = Listed names \<and> legacy \<noteq> [] \<and> target \<noteq> [] \<and> \<not> mv_equivalent os \<and> mv_created os")
    case True
    then obtain names where names: "mv_listing os = Listed names" "legacy \<noteq> []" "target \<noteq> []" "\<not> mv_equivalent os" "mv_created os"
      by blast
    obtain m s1 d1 where run: "fold (migrate_entry os) names (Some 0, src, dst) = (m, s1, d1)" by (metis prod_cases3)
    have whole: "kept_whole (mv_sees os) src dst (m, s1, d1)"
      using migrate_fold_keeps [OF start, of names] run by simp
    moreover have left: "left = (if m \<noteq> None \<and> s1 = [] \<and> mv_rmdir os then None else Some s1)" "dst' = d1"
      using assms(3) names run by (auto simp: migrate_state_dir_def split: option.splits)
    moreover have "om_find s1 n = Some e \<or> om_find d1 n = Some e" if "om_find src n = Some e" "distinct names" for n e
      using migrate_fold_distinct [OF that(2) assms(1,2) run] that(1) by blast
    ultimately have "om_find s1 n = Some e \<or> om_find d1 n = Some e"
      if "om_find src n = Some e" "mv_sees os e \<or> (\<forall>names. mv_listing os = Listed names \<longrightarrow> distinct names)" for n e
      using that names(1) unfolding kept_whole_def by auto
    then show ?thesis
      using whole unfolding left by (auto simp: kept_whole_def)
  next
    case False
    with assms(3) show ?thesis
      by (auto simp: migrate_state_dir_def split: if_splits listing.splits)
  qed
qed

section \<open>Properties\<close>

text \<open>A tree keeps its state however its path is typed, and no other tree gets it: two absolute paths that
  resolve to the same directory have the same state directory whatever the current directory, two that do
  not are kept apart by the hash alone, and the directory's name is a single plain path component.\<close>

theorem state_dir_name_by_directory:
  assumes "is_absolute p" "is_absolute q" "\<forall>x. length (sha x) = 32"
  shows "(names_of p = names_of q \<longrightarrow> state_dir_name sha cwd p = state_dir_name sha cwd' q)
    \<and> (names_of p \<noteq> names_of q \<longrightarrow> canonical_key cwd p \<noteq> canonical_key cwd' q)
    \<and> (state_dir_name sha cwd p = state_dir_name sha cwd' q \<longrightarrow>
        take 16 (to_hex (sha (canonical_key cwd p))) = take 16 (to_hex (sha (canonical_key cwd' q))))
    \<and> plain_name (state_dir_name sha cwd p)"
proof (intro conjI impI)
  assume "state_dir_name sha cwd p = state_dir_name sha cwd' q"
  moreover have "length (take 16 (to_hex (sha (canonical_key cwd p)))) = length (take 16 (to_hex (sha (canonical_key cwd' q))))"
    using assms(3) by (simp add: length_to_hex)
  ultimately show "take 16 (to_hex (sha (canonical_key cwd p))) = take 16 (to_hex (sha (canonical_key cwd' q)))"
    by (auto simp: state_dir_name_def Let_def simp flip: append_assoc)
next
  have "slash \<notin> set (state_dir_name sha cwd p)"
    using state_dir_name_chars leaf_char_plain by blast
  moreover have "state_dir_name sha cwd p \<noteq> []" "hd (state_dir_name sha cwd p) \<noteq> dot"
    using readable_leaf_chars by (simp_all add: state_dir_name_def Let_def)
  ultimately show "plain_name (state_dir_name sha cwd p)"
    by (auto simp: plain_name_def)
qed (use assms canonical_key_absolute path_of_inject [OF names_plain names_plain] in \<open>simp_all add: state_dir_name_def\<close>)

theorem state_dir_name_by_directory_witness:
  "state_dir_name (\<lambda>x. replicate 32 0) None (str ''/home/u/data/'') =
   state_dir_name (\<lambda>x. replicate 32 0) (Some (str ''/tmp'')) (str ''/home/u/./x/../data'')"
proof -
  have "names_of (str ''/home/u/data/'') = names_of (str ''/home/u/./x/../data'')"
    by (simp add: str_def)
  moreover have "is_absolute (str ''/home/u/data/'')" "is_absolute (str ''/home/u/./x/../data'')"
    by (simp_all add: is_absolute_def str_def)
  ultimately show ?thesis
    using state_dir_name_by_directory [of "str ''/home/u/data/''" "str ''/home/u/./x/../data''" "\<lambda>x. replicate 32 0"
        None "Some (str ''/tmp'')"] by simp
qed

text \<open>C21. Migration overwrites and loses nothing, whatever fails on the way, an exception that ends the program
  included: every entry of the target that \<open>fs::exists\<close> sees, so everything but a link to nothing, stays as it
  was, and every entry of the old directory is afterwards whole in one of the two places (one that
  \<open>fs::exists\<close> would not see as long as the listing names no entry twice).\<close>

theorem migrate_keeps_everything:
  assumes "om_inv src" "om_inv dst" "migrate_state_dir os legacy target (Some src) dst = (moved, left, dst')"
  shows "(\<forall>n e. om_find dst n = Some e \<and> mv_sees os e \<longrightarrow> om_find dst' n = Some e)
    \<and> (\<forall>n e. om_find src n = Some e \<and> (mv_sees os e \<or> (\<forall>names. mv_listing os = Listed names \<longrightarrow> distinct names)) \<longrightarrow>
        (\<exists>src'. left = Some src' \<and> om_find src' n = Some e) \<or> om_find dst' n = Some e)"
  using migrate_keeps [OF assms] .

definition stuck_copy :: "nat move_outcomes" where
  "stuck_copy = \<lparr>mv_equivalent = False, mv_created = True, mv_listing = Listed [[98]], mv_stat_throws = (\<lambda>n. False),
     mv_sees = (\<lambda>e. True), mv_rename = (\<lambda>n. False),
     mv_copy = (\<lambda>n. Copy_failed (Some 0)), mv_remove = (\<lambda>n. Removed), mv_rmdir = True\<rparr>"

theorem migrate_keeps_everything_witness:
  "om_find [([98], 7 :: nat)] [98] = Some 7 \<and> migrate_state_dir stuck_copy [1] [2] (Some [([98], 7)]) [] = (Some 0, Some [([98], 7)], [([98], 0)])
   \<and> (\<exists>src'. Some [([98], 7 :: nat)] = Some src' \<and> om_find src' [98] = Some 7)"
proof -
  have run: "migrate_state_dir stuck_copy [1] [2] (Some [([98], 7)]) [] = (Some 0, Some [([98], 7)], [([98], 0)])"
    by (simp add: migrate_state_dir_def stuck_copy_def migrate_entry_def put_back_def)
  have "om_inv [([98], 7 :: nat)]" "om_inv ([] :: nat entries)"
    by (simp_all add: om_inv_iff)
  from migrate_keeps_everything [OF this run] run show ?thesis
    by (auto simp: stuck_copy_def)
qed

text \<open>A failed copy is not repaired: what it leaves in the target makes every later migration skip the
  entry, even when nothing fails any more, so the whole copy in the old directory is never used.\<close>

theorem failed_copy_shadows:
  "migrate_state_dir stuck_copy [1] [2] (Some [([98], 7)]) [] = (Some 0, Some [([98], 7)], [([98], 0)])
   \<and> (mv_sees os 0 \<longrightarrow>
      om_find (snd (snd (migrate_state_dir os [1] [2] (Some [([98], 7)]) [([98], 0)]))) [98] = Some (0 :: nat))"
proof -
  have inv: "om_inv [([98], 7 :: nat)]" "om_inv [([98], 0 :: nat)]"
    by (simp_all add: om_inv_iff)
  obtain moved left dst' where run: "migrate_state_dir os [1] [2] (Some [([98], 7)]) [([98], 0)] = (moved, left, dst')"
    by (metis prod_cases3)
  from migrate_keeps [OF inv run] show ?thesis
    by (simp add: run) (simp add: migrate_state_dir_def stuck_copy_def migrate_entry_def put_back_def)
qed

text \<open>A link to nothing in the target is taken for a free name, and the rename replaces it.\<close>

theorem dangling_link_replaced:
  assumes "\<not> mv_sees os 0" "mv_rename os [98]" "\<not> mv_stat_throws os [98]"
  shows "migrate_entry os [98] (Some 0, [([98], 7)], [([98], 0)]) = (Some 1, [], [([98], 7 :: nat)])"
  using assms by (simp add: migrate_entry_def om_erase_def)

end
