(* ===== verification/Delta.thy ===== *)
theory Delta
  imports Hash
begin

text \<open>
  \<open>core/delta.h\<close> and \<open>core/delta.cpp\<close>: block signatures, the rolling-checksum scan that turns a
  target into copy and literal instructions, and their application. SHA-256 is the parameter
  \<open>sha\<close>; the order in which an unordered multimap lists the blocks of one weak checksum, which the
  standard leaves open, is the parameter \<open>bucket\<close>.
\<close>

unbundle bit_operations_syntax

section \<open>Checksums and signatures\<close>

definition kDefaultBlockSize :: u32 where
  "kDefaultBlockSize = 2048"

definition strong16 :: "(bytes \<Rightarrow> bytes) \<Rightarrow> bytes \<Rightarrow> bytes" where
  "strong16 sha data = take 16 (sha data)"

text \<open>The two running sums over a buffer: the weight of a byte is the number of bytes from it to
  the end.\<close>

primrec sums :: "bytes \<Rightarrow> u32 \<Rightarrow> u32 \<Rightarrow> u32 \<times> u32" where
  "sums [] a b = (a, b)"
| "sums (x # xs) a b = sums xs (a + ucast x) (b + of_nat (Suc (length xs)) * ucast x)"

definition pack :: "u32 \<times> u32 \<Rightarrow> u32" where
  "pack s = (push_bit 16 (snd s AND 0xffff)) OR (fst s AND 0xffff)"

definition weak_checksum :: "bytes \<Rightarrow> u32" where
  "weak_checksum data = pack (sums data 0 0)"

record block_sig =
  bs_weak :: u32
  bs_strong :: bytes

record signature =
  sg_block_size :: u32
  sg_file_size :: u64
  sg_blocks :: "block_sig list"

definition block_sig_of :: "(bytes \<Rightarrow> bytes) \<Rightarrow> bytes \<Rightarrow> block_sig" where
  "block_sig_of sha data = \<lparr>bs_weak = weak_checksum data, bs_strong = strong16 sha data\<rparr>"

function sig_loop :: "(bytes \<Rightarrow> bytes) \<Rightarrow> nat \<Rightarrow> bytes \<Rightarrow> block_sig list" where
  "sig_loop sha n data =
     (if data = [] \<or> n = 0 then []
      else block_sig_of sha (take n data) # sig_loop sha n (drop n data))"
  by pat_completeness auto
termination
  by (relation "measure (\<lambda>(sha, n, data). length data)") auto

declare sig_loop.simps [simp del]

definition or_default :: "u32 \<Rightarrow> u32" where
  "or_default block_size = (if block_size \<noteq> 0 then block_size else kDefaultBlockSize)"

definition signature_of :: "(bytes \<Rightarrow> bytes) \<Rightarrow> bytes \<Rightarrow> u32 \<Rightarrow> signature" where
  "signature_of sha data block_size =
     \<lparr>sg_block_size = or_default block_size, sg_file_size = of_nat (length data),
      sg_blocks = sig_loop sha (unat (or_default block_size)) data\<rparr>"

text \<open>The streamed form. \<open>read\<close> is \<open>FileStream::read\<close> on a stream state; the loop may not end for a
  stream that keeps returning full blocks, hence the option.\<close>

partial_function (option) sig_file_loop ::
  "('s \<Rightarrow> nat \<Rightarrow> bytes \<times> 's) \<Rightarrow> (bytes \<Rightarrow> bytes) \<Rightarrow> 's \<Rightarrow> signature \<Rightarrow> signature option" where
  "sig_file_loop read sha s sig =
     (let L = unat (sg_block_size sig); (data, s1) = read s L; n = length data
      in if n = 0 then Some sig
         else let sig1 = sig\<lparr>sg_blocks := sg_blocks sig @ [block_sig_of sha data],
                             sg_file_size := sg_file_size sig + of_nat n\<rparr>
              in if n < L then Some sig1 else sig_file_loop read sha s1 sig1)"

definition signature_of_file ::
  "('s \<Rightarrow> nat \<Rightarrow> bytes \<times> 's) \<Rightarrow> (bytes \<Rightarrow> bytes) \<Rightarrow> 's option \<Rightarrow> u32 \<Rightarrow> signature option option" where
  "signature_of_file read sha opened block_size =
     (case opened of
        None \<Rightarrow> Some None
      | Some s \<Rightarrow> map_option Some (sig_file_loop read sha s
          \<lparr>sg_block_size = or_default block_size, sg_file_size = 0, sg_blocks = []\<rparr>))"

section \<open>The signature on the wire\<close>

definition write_block_sig :: "block_sig \<Rightarrow> writer \<Rightarrow> writer" where
  "write_block_sig b w = w_bytes (bs_strong b) (w_u32 (bs_weak b) w)"

definition read_block_sig :: "reader \<Rightarrow> (block_sig \<times> reader) option" where
  "read_block_sig r =
     (let (weak, r) = r_u32 r; (strong, r) = r_bytes 16 r
      in Some (\<lparr>bs_weak = weak, bs_strong = strong\<rparr>, r))"

definition sig_encode :: "signature \<Rightarrow> writer \<Rightarrow> writer" where
  "sig_encode s w =
     put_each write_block_sig (sg_blocks s)
       (w_u32 (of_nat (length (sg_blocks s))) (w_u64 (sg_file_size s) (w_u32 (sg_block_size s) w)))"

definition sig_decode :: "reader \<Rightarrow> (signature \<times> reader) option" where
  "sig_decode r =
     (let (block_size, r) = r_u32 r; (file_size, r) = r_u64 r; (n, r) = r_u32 r
      in if \<not> rd_ok r \<or> remaining r < unat n * 20 then None
         else case read_each read_block_sig (unat n) r of
             None \<Rightarrow> None
           | Some (blocks, r) \<Rightarrow>
               if rd_ok r then Some (\<lparr>sg_block_size = block_size, sg_file_size = file_size,
                 sg_blocks = blocks\<rparr>, r) else None)"

section \<open>Deltas\<close>

record delta_op =
  op_copy :: bool
  op_offset :: u64
  op_len :: u32
  op_literal :: bytes

record delta =
  dl_out_size :: u64
  dl_ops :: "delta_op list"

definition copy_op :: "u64 \<Rightarrow> u32 \<Rightarrow> delta_op" where
  "copy_op offset len = \<lparr>op_copy = True, op_offset = offset, op_len = len, op_literal = []\<rparr>"

definition literal_op :: "bytes \<Rightarrow> delta_op" where
  "literal_op data = \<lparr>op_copy = False, op_offset = 0, op_len = 0, op_literal = data\<rparr>"

definition literal_bytes :: "delta \<Rightarrow> u64" where
  "literal_bytes d = fold (\<lambda>op t. if \<not> op_copy op then t + of_nat (length (op_literal op)) else t) (dl_ops d) 0"

definition copied_bytes :: "delta \<Rightarrow> u64" where
  "copied_bytes d = fold (\<lambda>op t. if op_copy op then t + ucast (op_len op) else t) (dl_ops d) 0"

definition emit_copy :: "u64 \<Rightarrow> u32 \<Rightarrow> delta_op list \<Rightarrow> delta_op list" where
  "emit_copy offset len ops =
     (if ops \<noteq> [] \<and> op_copy (last ops) \<and> op_offset (last ops) + ucast (op_len (last ops)) = offset
      then butlast ops @ [(last ops)\<lparr>op_len := op_len (last ops) + len\<rparr>]
      else ops @ [copy_op offset len])"

definition slice :: "nat \<Rightarrow> nat \<Rightarrow> 'a list \<Rightarrow> 'a list" where
  "slice from to xs = drop from (take to xs)"

definition emit_literal :: "bytes \<Rightarrow> nat \<Rightarrow> nat \<Rightarrow> delta_op list \<Rightarrow> delta_op list" where
  "emit_literal target from to ops = (if to > from then ops @ [literal_op (slice from to target)] else ops)"

text \<open>The window's sums: computed afresh, or slid by one byte.\<close>

definition init_window :: "u32 \<Rightarrow> bytes \<Rightarrow> nat \<Rightarrow> u32 \<times> u32" where
  "init_window L target at = sums (slice at (at + unat L) target) 0 0"

definition roll :: "u32 \<Rightarrow> u8 \<Rightarrow> u8 \<Rightarrow> u32 \<times> u32 \<Rightarrow> u32 \<times> u32" where
  "roll L out inn s =
     (let a = (fst s - ucast out + ucast inn) AND 0xffff
      in (a, (snd s - L * ucast out + a) AND 0xffff))"

text \<open>The first block of the bucket with the window's strong hash that is a whole block of the base.\<close>

definition find_hit ::
  "(bytes \<Rightarrow> bytes) \<Rightarrow> (block_sig list \<Rightarrow> u32 \<Rightarrow> nat list) \<Rightarrow> signature \<Rightarrow> bytes \<Rightarrow> u32 \<Rightarrow> nat option" where
  "find_hit sha bucket sig window weak =
     (let s = strong16 sha window; L = ucast (sg_block_size sig) :: u64
      in find (\<lambda>i. bs_strong (sg_blocks sig ! i) = s \<and> of_nat i * L + L \<le> sg_file_size sig)
           (bucket (sg_blocks sig) weak))"

text \<open>One turn of the scan, and the scan. A block size of zero does not get here.\<close>

record scan =
  sc_pos :: nat
  sc_literal_start :: nat
  sc_sums :: "u32 \<times> u32"
  sc_ops :: "delta_op list"

definition scan_step ::
  "(bytes \<Rightarrow> bytes) \<Rightarrow> (block_sig list \<Rightarrow> u32 \<Rightarrow> nat list) \<Rightarrow> signature \<Rightarrow> bytes \<Rightarrow> scan \<Rightarrow> scan" where
  "scan_step sha bucket sig target st =
     (let L = sg_block_size sig; n = unat L; pos = sc_pos st
      in case find_hit sha bucket sig (slice pos (pos + n) target) (pack (sc_sums st)) of
          Some i \<Rightarrow>
            \<lparr>sc_pos = pos + n, sc_literal_start = pos + n,
             sc_sums = (if pos + n + n \<le> length target then init_window L target (pos + n) else sc_sums st),
             sc_ops = emit_copy (of_nat i * ucast L) L (emit_literal target (sc_literal_start st) pos (sc_ops st))\<rparr>
        | None \<Rightarrow>
            st\<lparr>sc_sums := (if pos + n < length target
                           then roll L (target ! pos) (target ! (pos + n)) (sc_sums st) else sc_sums st),
               sc_pos := pos + 1\<rparr>)"

lemma scan_step_advances:
  assumes "sg_block_size sig \<noteq> 0"
  shows "sc_pos st < sc_pos (scan_step sha bucket sig target st)"
proof -
  have "0 < unat (sg_block_size sig)"
    using assms by (simp add: unat_gt_0)
  then show ?thesis
    by (auto simp: scan_step_def Let_def split: option.splits)
qed

function scan_loop ::
  "(bytes \<Rightarrow> bytes) \<Rightarrow> (block_sig list \<Rightarrow> u32 \<Rightarrow> nat list) \<Rightarrow> signature \<Rightarrow> bytes \<Rightarrow> scan \<Rightarrow> scan" where
  "scan_loop sha bucket sig target st =
     (if sg_block_size sig \<noteq> 0 \<and> sc_pos st + unat (sg_block_size sig) \<le> length target
      then scan_loop sha bucket sig target (scan_step sha bucket sig target st)
      else st)"
  by pat_completeness auto
termination
proof (relation "measure (\<lambda>(sha, bucket, sig, target, st). length target - sc_pos st)")
  fix sha bucket and target :: bytes and sig :: signature and st :: scan
  assume run: "sg_block_size sig \<noteq> 0 \<and> sc_pos st + unat (sg_block_size sig) \<le> length target"
  then have "0 < unat (sg_block_size sig)"
    by (simp add: unat_gt_0)
  with run have "sc_pos st < length target" by simp
  then show "((sha, bucket, sig, target, scan_step sha bucket sig target st), sha, bucket, sig, target, st)
      \<in> measure (\<lambda>(sha, bucket, sig, target, st). length target - sc_pos st)"
    using scan_step_advances [of sig st sha bucket target] run by simp
qed simp

declare scan_loop.simps [simp del]

definition compute_delta ::
  "(bytes \<Rightarrow> bytes) \<Rightarrow> (block_sig list \<Rightarrow> u32 \<Rightarrow> nat list) \<Rightarrow> signature \<Rightarrow> bytes \<Rightarrow> delta" where
  "compute_delta sha bucket sig target =
     (let L = sg_block_size sig
      in if L = 0 \<or> sg_blocks sig = [] \<or> length target < unat L
         then \<lparr>dl_out_size = of_nat (length target), dl_ops = emit_literal target 0 (length target) []\<rparr>
         else
           let st = scan_loop sha bucket sig target
                 \<lparr>sc_pos = 0, sc_literal_start = 0, sc_sums = init_window L target 0, sc_ops = []\<rparr>
           in \<lparr>dl_out_size = of_nat (length target),
               dl_ops = emit_literal target (sc_literal_start st) (length target) (sc_ops st)\<rparr>)"

text \<open>Application. \<open>Some []\<close> on a malformed copy, as the code returns an empty buffer; \<open>None\<close> is
  undefined behaviour: the 64-bit sum wrapped past the check and the copy reads outside the base.\<close>

primrec apply_ops :: "bytes \<Rightarrow> delta_op list \<Rightarrow> bytes \<Rightarrow> bytes option" where
  "apply_ops base [] out = Some out"
| "apply_ops base (op # ops) out =
     (if op_copy op then
        (if op_offset op + ucast (op_len op) > of_nat (length base) then Some []
         else if unat (op_offset op) + unat (op_len op) \<le> length base
         then apply_ops base ops
           (out @ slice (unat (op_offset op)) (unat (op_offset op) + unat (op_len op)) base)
         else None)
      else apply_ops base ops (out @ op_literal op))"

definition apply_delta :: "bytes \<Rightarrow> delta \<Rightarrow> bytes option" where
  "apply_delta base d = apply_ops base (dl_ops d) []"

section \<open>The rolling checksum\<close>

text \<open>What a scan relies on when it slides a window instead of summing it again.\<close>

locale rolling_checksum =
  fixes fresh :: "'b list \<Rightarrow> 's"
    and slide :: "nat \<Rightarrow> 'b \<Rightarrow> 'b \<Rightarrow> 's \<Rightarrow> 's"
    and represents :: "'s \<Rightarrow> 'b list \<Rightarrow> bool"
    and digest :: "'s \<Rightarrow> 'd"
  assumes fresh_represents: "represents (fresh xs) xs"
    and slide_represents: "represents s (x # xs) \<Longrightarrow> represents (slide (Suc (length xs)) x y s) (xs @ [y])"
    and represents_digest: "represents s xs \<Longrightarrow> digest s = digest (fresh xs)"
begin

text \<open>Along a buffer: the slid state at a position digests as the window there.\<close>

lemma slide_window:
  assumes "represents s (slice at (at + n) xs)" "0 < n" "at + n < length xs"
  shows "represents (slide n (xs ! at) (xs ! (at + n)) s) (slice (at + 1) (at + 1 + n) xs)"
proof -
  obtain m where n: "n = Suc m" using assms(2) by (cases n) auto
  let ?ys = "slice (at + 1) (at + n) xs"
  have "slice at (at + n) xs = xs ! at # ?ys"
    using assms by (simp add: slice_def Cons_nth_drop_Suc [symmetric] n)
  moreover have "slice (at + 1) (at + 1 + n) xs = ?ys @ [xs ! (at + n)]"
    using assms by (simp add: slice_def take_Suc_conv_app_nth)
  moreover have "length ?ys = m"
    using assms by (simp add: slice_def n)
  ultimately show ?thesis
    using slide_represents assms(1) n by metis
qed

end

text \<open>Sums are kept modulo \<open>2^16\<close>, the part the checksum uses.\<close>

definition low16 :: "u32 \<Rightarrow> u32 \<Rightarrow> bool" where
  "low16 x y \<longleftrightarrow> take_bit 16 x = take_bit 16 y"

lemma low16_refl [simp]: "low16 x x"
  by (simp add: low16_def)

lemma low16_add: "low16 x x' \<Longrightarrow> low16 y y' \<Longrightarrow> low16 (x + y) (x' + y')"
  unfolding low16_def by transfer (simp add: take_bit_take_bit, metis take_bit_add)

lemma low16_diff: "low16 x x' \<Longrightarrow> low16 y y' \<Longrightarrow> low16 (x - y) (x' - y')"
  unfolding low16_def by transfer (simp add: take_bit_take_bit, metis take_bit_diff)

lemma and_ffff: "x AND 0xffff = take_bit 16 (x :: u32)"
  by (simp add: take_bit_eq_mask mask_eq_exp_minus_1)

lemma low16_mask: "low16 x y \<Longrightarrow> low16 (x AND 0xffff) y"
  by (simp add: low16_def and_ffff)

lemma pack_low16: "low16 a a' \<Longrightarrow> low16 b b' \<Longrightarrow> pack (a, b) = pack (a', b')"
  by (simp add: pack_def low16_def and_ffff)

text \<open>Closed forms of the two sums.\<close>

definition plain_sum :: "bytes \<Rightarrow> u32" where
  "plain_sum xs = sum_list (map ucast xs)"

primrec weighted_sum :: "bytes \<Rightarrow> u32" where
  "weighted_sum [] = 0"
| "weighted_sum (x # xs) = of_nat (Suc (length xs)) * ucast x + weighted_sum xs"

lemma sums_closed: "sums xs a b = (a + plain_sum xs, b + weighted_sum xs)"
  by (induction xs arbitrary: a b) (simp_all add: plain_sum_def add.assoc)

lemma weighted_sum_snoc: "weighted_sum (xs @ [y]) = weighted_sum xs + plain_sum xs + ucast y"
  by (induction xs) (simp_all add: plain_sum_def algebra_simps)

definition sums_of :: "u32 \<times> u32 \<Rightarrow> bytes \<Rightarrow> bool" where
  "sums_of s xs \<longleftrightarrow> low16 (fst s) (plain_sum xs) \<and> low16 (snd s) (weighted_sum xs)"

lemma sums_of_roll:
  assumes "sums_of s (x # xs)"
  shows "sums_of (roll (of_nat (Suc (length xs))) x y s) (xs @ [y])"
proof -
  let ?L = "of_nat (Suc (length xs)) :: u32"
  let ?a = "(fst s - ucast x + ucast y) AND 0xffff :: u32"
  have "low16 (fst s - ucast x + ucast y) (plain_sum (x # xs) - ucast x + ucast y)"
    using assms by (intro low16_add low16_diff) (simp_all add: sums_of_def)
  then have a: "low16 ?a (plain_sum (xs @ [y]))"
    by (intro low16_mask) (simp add: plain_sum_def)
  have "low16 (snd s - ?L * ucast x + ?a) (weighted_sum (x # xs) - ?L * ucast x + plain_sum (xs @ [y]))"
    using assms a by (intro low16_add low16_diff) (simp_all add: sums_of_def)
  moreover have "weighted_sum (x # xs) - ?L * ucast x + plain_sum (xs @ [y]) = weighted_sum (xs @ [y])"
    by (simp add: weighted_sum_snoc plain_sum_def)
  ultimately have "low16 ((snd s - ?L * ucast x + ?a) AND 0xffff) (weighted_sum (xs @ [y]))"
    by (intro low16_mask) simp
  with a show ?thesis
    by (simp add: sums_of_def roll_def Let_def)
qed

interpretation adler: rolling_checksum "\<lambda>xs. sums xs 0 0" "\<lambda>n. roll (of_nat n)" sums_of pack
proof unfold_locales
  fix xs :: bytes and s x y
  show "sums_of (sums xs 0 0) xs"
    by (simp add: sums_of_def sums_closed)
  show "sums_of s (x # xs) \<Longrightarrow> sums_of (roll (of_nat (Suc (length xs))) x y s) (xs @ [y])"
    by (rule sums_of_roll)
  show "sums_of s xs \<Longrightarrow> pack s = pack (sums xs 0 0)"
    by (cases s) (simp add: sums_of_def sums_closed pack_low16)
qed

section \<open>Slices and blocks\<close>

lemma length_slice [simp]: "length (slice i j xs) = min j (length xs) - i"
  by (simp add: slice_def)

lemma slice_append:
  assumes "i \<le> j" "j \<le> k"
  shows "slice i j xs @ slice j k xs = slice i k xs"
proof -
  have "take (k - i) (drop i xs) = take (j - i) (drop i xs) @ take (k - j) (drop (j - i) (drop i xs))"
    using assms take_add [of "j - i" "k - j" "drop i xs"] by simp
  then show ?thesis
    using assms by (simp add: slice_def drop_take)
qed

lemma take_slice_append: "i \<le> j \<Longrightarrow> take i xs @ slice i j xs = take j xs"
  using slice_append [of 0 i j xs] by (simp add: slice_def)

lemma sig_loop_nth:
  assumes "0 < n"
  shows "(i < length (sig_loop sha n data) \<longleftrightarrow> i * n < length data)
    \<and> (i * n < length data \<longrightarrow> sig_loop sha n data ! i = block_sig_of sha (take n (drop (i * n) data)))"
  using assms
proof (induction sha n data arbitrary: i rule: sig_loop.induct)
  case (1 sha n data)
  show ?case
  proof (cases "data = []")
    case True
    then show ?thesis by (simp add: sig_loop.simps)
  next
    case False
    then have rec: "sig_loop sha n data = block_sig_of sha (take n data) # sig_loop sha n (drop n data)"
      using 1 by (subst sig_loop.simps) simp
    show ?thesis
    proof (cases i)
      case 0
      then show ?thesis using False by (simp add: rec)
    next
      case (Suc k)
      have "k * n < length (drop n data) \<longleftrightarrow> i * n < length data"
        using Suc by auto
      moreover have "drop (k * n) (drop n data) = drop (i * n) data"
        using Suc by (simp add: add.commute)
      ultimately show ?thesis
        using 1(1) [of k] False 1(2) Suc by (simp add: rec)
    qed
  qed
qed

lemma whole_block:
  assumes "0 < n" "i * n + n \<le> length data"
  shows "i < length (sig_loop sha n data)
    \<and> sig_loop sha n data ! i = block_sig_of sha (slice (i * n) (i * n + n) data)"
  using assms sig_loop_nth [OF assms(1), of i sha data]
  by (simp add: slice_def take_drop add.commute)

section \<open>Scanning\<close>

lemma scan_loop_invariant:
  assumes "I st"
    and "\<And>st. I st \<Longrightarrow> sg_block_size sig \<noteq> 0 \<Longrightarrow> sc_pos st + unat (sg_block_size sig) \<le> length target \<Longrightarrow>
      I (scan_step sha bucket sig target st)"
  shows "I (scan_loop sha bucket sig target st) \<and>
    (sg_block_size sig \<noteq> 0 \<longrightarrow>
      length target < sc_pos (scan_loop sha bucket sig target st) + unat (sg_block_size sig))"
  using assms(1)
proof (induction "length target - sc_pos st" arbitrary: st rule: less_induct)
  case less
  show ?case
  proof (cases "sg_block_size sig \<noteq> 0 \<and> sc_pos st + unat (sg_block_size sig) \<le> length target")
    case True
    then have "0 < unat (sg_block_size sig)"
      by (simp add: unat_gt_0)
    then have "sc_pos st < length target" using True by linarith
    then have "length target - sc_pos (scan_step sha bucket sig target st) < length target - sc_pos st"
      using True scan_step_advances [of sig st sha bucket target] by simp
    then show ?thesis
      using less True assms(2) [OF less(2)] by (subst (1 2) scan_loop.simps) simp
  next
    case False
    then show ?thesis
      using less by (subst (1 2) scan_loop.simps) auto
  qed
qed

text \<open>A bucket lists exactly the blocks with that weak checksum, in some order.\<close>

definition bucket_of :: "(block_sig list \<Rightarrow> u32 \<Rightarrow> nat list) \<Rightarrow> block_sig list \<Rightarrow> bool" where
  "bucket_of bucket bs \<longleftrightarrow> (\<forall>w. set (bucket bs w) = {i. i < length bs \<and> bs_weak (bs ! i) = w})"

definition ascending_bucket :: "block_sig list \<Rightarrow> u32 \<Rightarrow> nat list" where
  "ascending_bucket bs w = filter (\<lambda>i. bs_weak (bs ! i) = w) [0..<length bs]"

lemma ascending_bucket [simp]: "bucket_of ascending_bucket bs"
  by (auto simp: bucket_of_def ascending_bucket_def)

text \<open>The sums stay those of the window as long as there is one.\<close>

definition window_ok :: "signature \<Rightarrow> bytes \<Rightarrow> scan \<Rightarrow> bool" where
  "window_ok sig target st \<longleftrightarrow>
     (sc_pos st + unat (sg_block_size sig) \<le> length target \<longrightarrow>
       sums_of (sc_sums st) (slice (sc_pos st) (sc_pos st + unat (sg_block_size sig)) target))"

lemma window_ok_digest:
  assumes "window_ok sig target st" "sc_pos st + unat (sg_block_size sig) \<le> length target"
  shows "pack (sc_sums st) = weak_checksum (slice (sc_pos st) (sc_pos st + unat (sg_block_size sig)) target)"
  using assms adler.represents_digest by (simp add: window_ok_def weak_checksum_def)

lemma window_ok_step:
  assumes "window_ok sig target st" "sg_block_size sig \<noteq> 0"
    and "sc_pos st + unat (sg_block_size sig) \<le> length target"
  shows "window_ok sig target (scan_step sha bucket sig target st)"
proof -
  let ?n = "unat (sg_block_size sig)"
  have pos: "0 < ?n" using assms(2) by (simp add: unat_gt_0)
  have "sums_of (roll (sg_block_size sig) (target ! sc_pos st) (target ! (sc_pos st + ?n)) (sc_sums st))
      (slice (sc_pos st + 1) (sc_pos st + 1 + ?n) target)" if "sc_pos st + ?n < length target"
    using adler.slide_window [OF _ pos that] assms(1) that by (simp add: window_ok_def)
  then show ?thesis
    using adler.fresh_represents
    by (auto simp: window_ok_def scan_step_def Let_def init_window_def split: option.splits)
qed

lemma window_ok_init:
  "window_ok sig target \<lparr>sc_pos = 0, sc_literal_start = l, sc_sums = init_window (sg_block_size sig) target 0, sc_ops = ops\<rparr>"
  using adler.fresh_represents by (simp add: window_ok_def init_window_def)

section \<open>What instructions rebuild\<close>

definition op_ok :: "bytes \<Rightarrow> delta_op \<Rightarrow> bool" where
  "op_ok base op \<longleftrightarrow> op_copy op \<longrightarrow> unat (op_offset op) + unat (op_len op) \<le> length base"

definition op_data :: "bytes \<Rightarrow> delta_op \<Rightarrow> bytes" where
  "op_data base op =
     (if op_copy op then slice (unat (op_offset op)) (unat (op_offset op) + unat (op_len op)) base
      else op_literal op)"

definition rebuilds :: "bytes \<Rightarrow> delta_op list \<Rightarrow> bytes \<Rightarrow> bool" where
  "rebuilds base ops out \<longleftrightarrow> list_all (op_ok base) ops \<and> concat (map (op_data base) ops) = out"

lemma op_data_op_literal [simp]: "op_ok base (literal_op d)" "op_data base (literal_op d) = d"
  by (simp_all add: op_ok_def op_data_def literal_op_def)

lemma unat_u64_of_nat: "n < 2 ^ 64 \<Longrightarrow> unat (of_nat n :: u64) = n"
  by (simp add: unsigned_of_nat take_bit_nat_eq_self)

lemma of_nat_u64_mono:
  "m \<le> n \<Longrightarrow> n < 2 ^ 64 \<Longrightarrow> (of_nat m :: u64) \<le> of_nat n"
  by (simp add: word_le_nat_alt unat_u64_of_nat)

lemma rest_mod:
  fixes p l n :: nat
  assumes "p \<le> l" "p mod n = 0" "l < p + n"
  shows "l - p = l mod n"
proof -
  have "l mod n = (p div n * n + (l - p)) mod n"
    using assms(1,2) div_mult_mod_eq [of p n] by simp
  also have "\<dots> = (l - p) mod n"
    by (simp only: mod_mult_self3)
  also have "\<dots> = l - p"
    using assms by simp
  finally show ?thesis ..
qed

lemma unat_u32_lt: "unat (x :: u32) < 2 ^ 32"
  using unsigned_less [of x] by simp

lemma unat_ucast_64 [simp]: "unat (ucast (x :: u32) :: u64) = unat x"
  using unat_u32_lt [of x] by (simp add: unsigned_ucast_eq take_bit_nat_eq_self)

lemma unat_offset_len:
  fixes o' :: u64 and l :: u32
  assumes "unat o' + unat l < 2 ^ 64"
  shows "unat (o' + ucast l) = unat o' + unat l"
proof -
  show ?thesis
    using assms unat_add_lem [of o' "ucast l"] by simp
qed

lemma apply_ops_rebuilds:
  assumes "list_all (op_ok base) ops" "length base < 2 ^ 64"
  shows "apply_ops base ops out = Some (out @ concat (map (op_data base) ops))"
  using assms(1)
proof (induction ops arbitrary: out)
  case (Cons op ops)
  show ?case
  proof (cases "op_copy op")
    case True
    then have le: "unat (op_offset op) + unat (op_len op) \<le> length base"
      using Cons.prems by (simp add: op_ok_def)
    then have "\<not> op_offset op + ucast (op_len op) > of_nat (length base)"
      using assms(2) unat_offset_len [of "op_offset op" "op_len op"] unat_u64_of_nat [of "length base"]
      by (simp add: word_less_nat_alt)
    then show ?thesis
      using True le Cons by (simp add: op_data_def)
  qed (use Cons in \<open>simp add: op_data_def\<close>)
qed simp

lemma rebuilds_literal:
  assumes "rebuilds base ops (take from target)" "from \<le> to" "to \<le> length target"
  shows "rebuilds base (emit_literal target from to ops) (take to target)"
  using assms take_slice_append [of "from" to target] by (cases "from = to") (auto simp: rebuilds_def emit_literal_def)

lemma rebuilds_copy:
  assumes "rebuilds base ops out" "unat off + unat L \<le> length base" "length base < 2 ^ 64"
    and "length out + unat L < 2 ^ 32"
  shows "rebuilds base (emit_copy off L ops) (out @ slice (unat off) (unat off + unat L) base)"
proof (cases "ops \<noteq> [] \<and> op_copy (last ops) \<and> op_offset (last ops) + ucast (op_len (last ops)) = off")
  case True
  then obtain pre op where ops: "ops = pre @ [op]"
    by (metis append_butlast_last_id)
  have op: "op_copy op" "op_offset op + ucast (op_len op) = off"
    using True ops by simp_all
  have le: "unat (op_offset op) + unat (op_len op) \<le> length base"
    using assms(1) op by (simp add: ops rebuilds_def op_ok_def)
  then have off: "unat off = unat (op_offset op) + unat (op_len op)"
    using op(2) unat_offset_len [of "op_offset op" "op_len op"] assms(3) by simp
  have "unat (op_len op) \<le> length out"
    using assms(1) op le by (auto simp: ops rebuilds_def op_data_def)
  then have len: "unat (op_len op + L) = unat (op_len op) + unat L"
    using assms(4) by (intro unat_add_lem [THEN iffD1]) simp
  have "slice (unat (op_offset op)) (unat off) base @ slice (unat off) (unat off + unat L) base =
      slice (unat (op_offset op)) (unat off + unat L) base"
    by (rule slice_append) (simp_all add: off)
  then show ?thesis
    using True assms(1,2) op off len by (auto simp: ops emit_copy_def rebuilds_def op_ok_def op_data_def add.assoc)
next
  case False
  then show ?thesis
    using assms by (auto simp: emit_copy_def rebuilds_def op_ok_def op_data_def copy_op_def)
qed

text \<open>A find in the bucket names a whole block of the base with the window's strong hash.\<close>

lemma find_hit_block:
  assumes "find_hit sha bucket (signature_of sha base bs) window weak = Some i"
    and "bucket_of bucket (sg_blocks (signature_of sha base bs))" "length base < 2 ^ 63"
    and "n = unat (or_default bs)"
  shows "i * n + n \<le> length base \<and> strong16 sha (slice (i * n) (i * n + n) base) = strong16 sha window
    \<and> unat (of_nat i * ucast (or_default bs) :: u64) = i * n"
proof -
  let ?L = "ucast (or_default bs) :: u64"
  let ?blocks = "sig_loop sha n base"
  have n: "0 < n" "n < 2 ^ 32"
    using assms(4) unat_u32_lt [of "or_default bs"]
    by (simp_all add: or_default_def kDefaultBlockSize_def unat_gt_0)
  from assms(1) have hit: "bs_strong (?blocks ! i) = strong16 sha window"
      "of_nat i * ?L + ?L \<le> of_nat (length base)"
      "i \<in> set (bucket ?blocks weak)"
    using assms(4)
    by (auto simp: find_hit_def signature_of_def find_Some_iff Let_def)
  then have i: "i < length ?blocks"
    using assms(2,4) by (auto simp: bucket_of_def signature_of_def)
  then have le: "i * n < length base"
    using sig_loop_nth [OF n(1)] by blast
  have L: "unat ?L = n"
    using assms(4) by simp
  have off: "unat (of_nat i * ?L) = i * n"
  proof -
    have "of_nat i * ?L = (of_nat (i * n) :: u64)"
      using assms(4) by simp
    moreover have "i * n < 2 ^ 64"
      using le assms(3) by simp
    ultimately show ?thesis
      using unat_u64_of_nat [of "i * n"] by argo
  qed
  have "unat (of_nat i * ?L + ?L) = i * n + n"
    using off L le assms(3) n(2) by (intro unat_add_lem [THEN iffD1, of "of_nat i * ?L" ?L, unfolded off L]) simp
  then have whole: "i * n + n \<le> length base"
    using hit(2) assms(3) by (simp add: word_le_nat_alt unat_u64_of_nat)
  then show ?thesis
    using hit(1) whole_block [OF n(1) whole, of sha] off by (simp add: block_sig_of_def)
qed

text \<open>SHA-256, truncated, tells the base's blocks from the target's windows.\<close>

definition separates :: "(bytes \<Rightarrow> bytes) \<Rightarrow> nat \<Rightarrow> bytes \<Rightarrow> bytes \<Rightarrow> bool" where
  "separates sha n base target \<longleftrightarrow>
     (\<forall>i \<in> {..length base}. \<forall>pos \<in> {..length target}. i + n \<le> length base \<longrightarrow> pos + n \<le> length target \<longrightarrow>
       strong16 sha (slice i (i + n) base) = strong16 sha (slice pos (pos + n) target) \<longrightarrow>
       slice i (i + n) base = slice pos (pos + n) target)"

definition progress :: "signature \<Rightarrow> bytes \<Rightarrow> bytes \<Rightarrow> scan \<Rightarrow> bool" where
  "progress sig base target st \<longleftrightarrow>
     sc_literal_start st \<le> sc_pos st \<and> sc_literal_start st \<le> length target
     \<and> rebuilds base (sc_ops st) (take (sc_literal_start st) target)"

lemma progress_step:
  assumes "progress (signature_of sha base bs) base target st"
    and "bucket_of bucket (sg_blocks (signature_of sha base bs))"
    and "separates sha (unat (or_default bs)) base target"
    and "length base < 2 ^ 63" "length target < 2 ^ 32"
    and "sc_pos st + unat (or_default bs) \<le> length target"
  shows "progress (signature_of sha base bs) base target (scan_step sha bucket (signature_of sha base bs) target st)"
proof -
  let ?sig = "signature_of sha base bs" and ?L = "or_default bs" and ?n = "unat (or_default bs)"
  let ?pos = "sc_pos st"
  let ?w = "slice ?pos (?pos + ?n) target"
  have sig: "sg_block_size ?sig = ?L" by (simp add: signature_of_def)
  show ?thesis
  proof (cases "find_hit sha bucket ?sig ?w (pack (sc_sums st))")
    case None
    then show ?thesis
      using assms(1) by (simp add: progress_def scan_step_def sig Let_def)
  next
    case (Some i)
    from find_hit_block [OF this assms(2,4) refl]
    have whole: "i * ?n + ?n \<le> length base" "strong16 sha (slice (i * ?n) (i * ?n + ?n) base) = strong16 sha ?w"
      "unat (of_nat i * ucast ?L :: u64) = i * ?n"
      by simp_all
    have same: "slice (i * ?n) (i * ?n + ?n) base = ?w"
      using assms(3) [unfolded separates_def, rule_format, of "i * ?n" ?pos] whole assms(6) by simp
    have "rebuilds base (emit_literal target (sc_literal_start st) ?pos (sc_ops st)) (take ?pos target)"
      using assms(1,6) by (intro rebuilds_literal) (simp_all add: progress_def)
    then have "rebuilds base
        (emit_copy (of_nat i * ucast ?L) ?L (emit_literal target (sc_literal_start st) ?pos (sc_ops st)))
        (take ?pos target @ slice (i * ?n) (i * ?n + ?n) base)"
      using rebuilds_copy [of base _ "take ?pos target" "of_nat i * ucast ?L" ?L] whole assms(4,5,6)
      by simp
    then show ?thesis
      using Some assms(6) take_slice_append [of ?pos "?pos + ?n" target]
      by (simp add: progress_def scan_step_def sig Let_def same)
  qed
qed

lemma or_default_pos [simp]: "or_default bs \<noteq> 0"
  by (simp add: or_default_def kDefaultBlockSize_def)

section \<open>The reference scan\<close>

function reference_loop ::
  "(bytes \<Rightarrow> bytes) \<Rightarrow> (block_sig list \<Rightarrow> u32 \<Rightarrow> nat list) \<Rightarrow> signature \<Rightarrow> bytes \<Rightarrow> nat \<Rightarrow> nat \<Rightarrow>
   delta_op list \<Rightarrow> nat \<times> delta_op list" where
  "reference_loop sha bucket sig target pos lit ops =
     (let L = sg_block_size sig; n = unat L; w = slice pos (pos + n) target
      in if L = 0 \<or> pos + n > length target then (lit, ops)
         else case find_hit sha bucket sig w (weak_checksum w) of
           Some i \<Rightarrow> reference_loop sha bucket sig target (pos + n) (pos + n)
             (emit_copy (of_nat i * ucast L) L (emit_literal target lit pos ops))
         | None \<Rightarrow> reference_loop sha bucket sig target (pos + 1) lit ops)"
  by pat_completeness auto
termination
proof (relation "measure (\<lambda>(sha, bucket, sig, target, pos, lit, ops). length target - pos)")
  fix L n and target :: bytes and pos :: nat
  assume nL: "n = unat (L :: u32)" "\<not> (L = 0 \<or> length target < pos + n)"
  then have "0 < n" by (simp add: unat_gt_0)
  with nL have "length target - (pos + n) < length target - pos" "length target - (pos + 1) < length target - pos"
    by linarith+
  then show "((sha, bucket, sig, target, pos + n, p, q), sha, bucket, sig, target, pos, lit, ops)
      \<in> measure (\<lambda>(sha, bucket, sig, target, pos, lit, ops). length target - pos)"
    and "((sha, bucket, sig, target, pos + 1, lit, ops), sha, bucket, sig, target, pos, lit, ops)
      \<in> measure (\<lambda>(sha, bucket, sig, target, pos, lit, ops). length target - pos)"
    for sha bucket sig lit ops p q
    by simp_all
qed simp_all

declare reference_loop.simps [simp del]

definition reference_delta ::
  "(bytes \<Rightarrow> bytes) \<Rightarrow> (block_sig list \<Rightarrow> u32 \<Rightarrow> nat list) \<Rightarrow> signature \<Rightarrow> bytes \<Rightarrow> delta" where
  "reference_delta sha bucket sig target =
     \<lparr>dl_out_size = of_nat (length target),
      dl_ops = (if sg_block_size sig = 0 \<or> sg_blocks sig = [] \<or> length target < unat (sg_block_size sig)
        then emit_literal target 0 (length target) []
        else let (lit, ops) = reference_loop sha bucket sig target 0 0 []
          in emit_literal target lit (length target) ops)\<rparr>"

lemma scan_loop_reference:
  "window_ok sig target st \<Longrightarrow>
   (sc_literal_start (scan_loop sha bucket sig target st), sc_ops (scan_loop sha bucket sig target st)) =
     reference_loop sha bucket sig target (sc_pos st) (sc_literal_start st) (sc_ops st)"
proof (induction sha bucket sig target st rule: scan_loop.induct)
  case (1 sha bucket sig target st)
  show ?case
  proof (cases "sg_block_size sig \<noteq> 0 \<and> sc_pos st + unat (sg_block_size sig) \<le> length target")
    case True
    have "window_ok sig target (scan_step sha bucket sig target st)"
      using 1(2) True window_ok_step by blast
    from 1(1) [OF True this] show ?thesis
      using True window_ok_digest [OF 1(2)]
      by (subst reference_loop.simps, subst (1 2) scan_loop.simps)
        (simp add: scan_step_def Let_def split: option.splits)
  next
    case False
    then show ?thesis
      by (subst reference_loop.simps, subst (1 2) scan_loop.simps) auto
  qed
qed

section \<open>A target that is the base\<close>

definition all_copies :: "delta_op list \<Rightarrow> bool" where
  "all_copies ops \<longleftrightarrow> list_all op_copy ops"

definition aligned :: "signature \<Rightarrow> bytes \<Rightarrow> scan \<Rightarrow> bool" where
  "aligned sig target st \<longleftrightarrow>
     window_ok sig target st \<and> sc_literal_start st = sc_pos st \<and> sc_pos st \<le> length target
     \<and> sc_pos st mod unat (sg_block_size sig) = 0 \<and> all_copies (sc_ops st)"

lemma fold_literals_copies:
  "all_copies ops \<Longrightarrow>
   fold (\<lambda>op t. if \<not> op_copy op then t + of_nat (length (op_literal op)) else t) ops t = (t :: u64)"
  by (induction ops) (simp_all add: all_copies_def)

lemma literal_bytes_emit:
  "all_copies ops \<Longrightarrow>
   literal_bytes \<lparr>dl_out_size = n, dl_ops = emit_literal target pos (length target) ops\<rparr> =
     of_nat (length target - pos)"
  by (auto simp: literal_bytes_def emit_literal_def fold_literals_copies literal_op_def)

lemma literal_bytes_nil [simp]: "all_copies []"
  by (simp add: all_copies_def)

lemma all_copies_emit_copy: "all_copies ops \<Longrightarrow> all_copies (emit_copy off L ops)"
  by (cases ops rule: rev_cases) (auto simp: all_copies_def emit_copy_def copy_op_def)

lemma aligned_step:
  assumes "aligned (signature_of sha base bs) base st"
    and "bucket_of bucket (sg_blocks (signature_of sha base bs))" "length base < 2 ^ 63"
    and "sc_pos st + unat (or_default bs) \<le> length base"
  shows "aligned (signature_of sha base bs) base (scan_step sha bucket (signature_of sha base bs) base st)"
proof -
  let ?sig = "signature_of sha base bs" and ?n = "unat (or_default bs)"
  let ?w = "slice (sc_pos st) (sc_pos st + ?n) base"
  have sig: "sg_block_size ?sig = or_default bs" by (simp add: signature_of_def)
  obtain k where k: "sc_pos st = k * ?n"
    using assms(1) div_mult_mod_eq [of "sc_pos st" ?n] by (simp add: aligned_def sig) metis
  have n: "0 < ?n" by (simp add: unat_gt_0)
  have digest: "pack (sc_sums st) = weak_checksum ?w"
    using window_ok_digest [of ?sig base st] assms(1,4) by (simp add: aligned_def sig)
  have blk: "k < length (sig_loop sha ?n base)" "sig_loop sha ?n base ! k = block_sig_of sha ?w"
    using whole_block [OF n, of k base sha] assms(4) by (simp_all add: k)
  have "of_nat k * ucast (or_default bs) + ucast (or_default bs) \<le> (of_nat (length base) :: u64)"
  proof -
    have "of_nat k * ucast (or_default bs) + ucast (or_default bs) = (of_nat (k * ?n + ?n) :: u64)"
      by simp
    then show ?thesis
      using of_nat_u64_mono [of "k * ?n + ?n" "length base"] assms(3,4) by (simp add: k)
  qed
  then have "find_hit sha bucket ?sig ?w (pack (sc_sums st)) \<noteq> None"
    using blk assms(2) unfolding find_hit_def Let_def digest
    by (auto simp: find_None_iff bucket_of_def signature_of_def block_sig_of_def intro!: exI [of _ k])
  then obtain i where i: "find_hit sha bucket ?sig ?w (pack (sc_sums st)) = Some i" by blast
  have "window_ok ?sig base (scan_step sha bucket ?sig base st)"
    using assms(1,4) by (intro window_ok_step) (simp_all add: aligned_def sig)
  then show ?thesis
    using i assms(1,4)
    by (simp add: aligned_def scan_step_def sig Let_def emit_literal_def all_copies_emit_copy)
qed

section \<open>The signature codec\<close>

definition valid_block_sig :: "block_sig \<Rightarrow> bool" where
  "valid_block_sig b \<longleftrightarrow> length (bs_strong b) = 16"

definition valid_signature :: "signature \<Rightarrow> bool" where
  "valid_signature s \<longleftrightarrow> list_all valid_block_sig (sg_blocks s) \<and> length (sg_blocks s) < 2 ^ 32"

lemma write_block_sig_bytes [codec_simps]:
  "write_block_sig b w = w @ be32 (bs_weak b) @ bs_strong b"
  by (simp add: write_block_sig_def codec_simps)

interpretation block_sig_codec: item_codec write_block_sig read_block_sig valid_block_sig 20
proof
  fix b :: block_sig and w rest :: bytes and r r1 :: reader
  show "write_block_sig b w = w @ write_block_sig b []"
    by (simp add: codec_simps)
  show "valid_block_sig b \<Longrightarrow> 20 \<le> length (write_block_sig b [])"
    by (simp add: codec_simps valid_block_sig_def)
  show "valid_block_sig b \<Longrightarrow> read_block_sig (rd (write_block_sig b [] @ rest)) = Some (b, rd rest)"
    by (cases b) (simp add: codec_simps valid_block_sig_def read_block_sig_def)
  assume "read_block_sig r = Some (b, r1)" "rd_ok r1"
  moreover obtain weak ra where w: "r_u32 r = (weak, ra)" by force
  moreover obtain strong rb where st: "r_bytes 16 ra = (strong, rb)" by force
  ultimately have b: "b = \<lparr>bs_weak = weak, bs_strong = strong\<rparr>" "r1 = rb" "rd_ok rb"
    by (simp_all add: read_block_sig_def)
  note strong = reads_consumes [OF reads_bytes st b(3)]
  note weak = reads_consumes [OF reads_u32 w strong [THEN conjunct1]]
  show "rd_ok r \<and> valid_block_sig b \<and> rd_data r = write_block_sig b [] @ rd_data r1"
    using strong weak b r_bytes_length [OF st] by (simp add: valid_block_sig_def codec_simps)
qed

lemma sig_encode_bytes:
  "sig_encode s w = w @ be32 (sg_block_size s) @ be64 (sg_file_size s) @
     be32 (of_nat (length (sg_blocks s))) @ put_each write_block_sig (sg_blocks s) []"
  by (simp add: sig_encode_def codec_simps block_sig_codec.put_each_appends [of _ "_ @ _"])

lemma sig_decode_encode:
  assumes "valid_signature s"
  shows "sig_decode (rd (sig_encode s [] @ rest)) = Some (s, rd rest)"
proof -
  have n: "unat (of_nat (length (sg_blocks s)) :: u32) = length (sg_blocks s)"
    using assms by (simp add: valid_signature_def unsigned_of_nat take_bit_nat_eq_self)
  show ?thesis
    using assms block_sig_codec.put_each_width [of "sg_blocks s"]
      block_sig_codec.read_each_put_each [of "sg_blocks s" rest]
    by (cases s) (simp add: sig_decode_def sig_encode_bytes codec_simps n [simplified] remaining_def
        valid_signature_def not_less mult.commute unsigned_of_nat take_bit_nat_eq_self)
qed

lemma valid_block_sig_of: "16 \<le> length (sha x) \<Longrightarrow> valid_block_sig (block_sig_of sha x)"
  by (simp add: valid_block_sig_def block_sig_of_def strong16_def)

lemma sig_loop_valid:
  "(\<And>x. 16 \<le> length (sha x)) \<Longrightarrow> list_all valid_block_sig (sig_loop sha n data)"
proof (induction sha n data rule: sig_loop.induct)
  case (1 sha n data)
  then show ?case
    by (subst sig_loop.simps) (simp add: valid_block_sig_of)
qed

section \<open>The streamed signature\<close>

lemma sig_file_loop_blocks:
  assumes "reads_ahead read ahead" "sg_block_size sig \<noteq> 0"
  shows "sig_file_loop read sha s sig =
    Some (sig\<lparr>sg_blocks := sg_blocks sig @ sig_loop sha (unat (sg_block_size sig)) (ahead s),
      sg_file_size := sg_file_size sig + of_nat (length (ahead s))\<rparr>)"
  using assms(2)
proof (induction "length (ahead s)" arbitrary: s sig rule: less_induct)
  case less
  let ?n = "unat (sg_block_size sig)"
  have n: "0 < ?n" using less.prems by (simp add: unat_gt_0)
  obtain data s1 where rd: "read s ?n = (data, s1)" by force
  then have data: "data = take ?n (ahead s)" and s1: "ahead s1 = drop ?n (ahead s)"
    using assms(1) by (metis fst_conv reads_ahead_def, metis snd_conv reads_ahead_def)
  consider (eof) "ahead s = []" | (last) "ahead s \<noteq> []" "length (ahead s) < ?n" | (more) "?n \<le> length (ahead s)"
    by linarith
  then show ?case
  proof cases
    case eof
    then show ?thesis
      by (subst sig_file_loop.simps) (simp add: rd data sig_loop.simps)
  next
    case last
    then show ?thesis
      using n by (subst sig_file_loop.simps, subst sig_loop.simps)
        (simp add: rd data Let_def sig_loop.simps [of _ _ "[]"] min_def)
  next
    case more
    then have "length (ahead s1) < length (ahead s)" "ahead s \<noteq> []"
      using n by (auto simp: s1)
    then show ?thesis
      using n more less.hyps [of s1] less.prems
      by (subst sig_file_loop.simps, subst sig_loop.simps)
        (simp add: rd data s1 Let_def min_def flip: of_nat_add)
  qed
qed

lemma compute_delta_rebuilds:
  assumes "bucket_of bucket (sg_blocks (signature_of sha base bs))"
    and "separates sha (unat (or_default bs)) base target"
    and "length base < 2 ^ 63" "length target < 2 ^ 32"
  shows "rebuilds base (dl_ops (compute_delta sha bucket (signature_of sha base bs) target)) target"
proof -
  let ?sig = "signature_of sha base bs" and ?L = "or_default bs"
  have sig: "sg_block_size ?sig = ?L" by (simp add: signature_of_def)
  show ?thesis
  proof (cases "sg_blocks ?sig = [] \<or> length target < unat ?L")
    case True
    then show ?thesis
      using rebuilds_literal [of base "[]" 0 target "length target"]
      by (simp add: compute_delta_def sig rebuilds_def)
  next
    case False
    let ?init = "\<lparr>sc_pos = 0, sc_literal_start = 0, sc_sums = init_window ?L target 0, sc_ops = []\<rparr>"
    let ?st = "scan_loop sha bucket ?sig target ?init"
    have "progress ?sig base target ?init"
      by (simp add: progress_def rebuilds_def)
    then have "progress ?sig base target ?st"
      using progress_step [OF _ assms] sig
      by (intro scan_loop_invariant [where I = "progress ?sig base target", THEN conjunct1]) auto
    then have "rebuilds base (emit_literal target (sc_literal_start ?st) (length target) (sc_ops ?st)) target"
      using rebuilds_literal [of base "sc_ops ?st" "sc_literal_start ?st" target "length target"]
      by (simp add: progress_def)
    then show ?thesis
      using False by (simp add: compute_delta_def sig Let_def)
  qed
qed

lemma signature_valid:
  assumes "\<And>x. length (sha x) = 32" "length data < 2 ^ 32"
  shows "valid_signature (signature_of sha data bs)"
proof -
  have "length (sig_loop sha n data) \<le> length data" for n
  proof (cases "n = 0")
    case False
    then show ?thesis
      using sig_loop_nth [of n "length data" sha data] by (metis le_cases less_irrefl less_le_trans
        linorder_not_less mult_le_mono2 mult.right_neutral not_gr_zero One_nat_def Suc_leI)
  qed (simp add: sig_loop.simps)
  then have "length (sig_loop sha n data) < 2 ^ 32" for n
    using assms(2) le_less_trans by blast
  then show ?thesis
    using sig_loop_valid [of sha] assms(1) by (simp add: valid_signature_def signature_of_def)
qed

section \<open>Properties\<close>

text \<open>C13. Reconstruction: applying the delta computed from a base's signature and a target to that base
  gives back the target, for every block size and every order in which the hash table lists equal
  checksums, as long as the truncated hash tells the blocks and windows apart and the target is
  below 4 GiB (a coalesced copy's 32-bit length).\<close>

theorem delta_reconstructs:
  assumes "bucket_of bucket (sg_blocks (signature_of sha base bs))"
    and "separates sha (unat (or_default bs)) base target"
    and "length base < 2 ^ 63" "length target < 2 ^ 32"
  shows "apply_delta base (compute_delta sha bucket (signature_of sha base bs) target) = Some target"
  using compute_delta_rebuilds [OF assms] apply_ops_rebuilds [of base _ "[]"] assms(3)
  by (simp add: apply_delta_def rebuilds_def)

theorem delta_reconstructs_witness:
  "apply_delta [1, 2, 3, 4, 5] (compute_delta (\<lambda>x. x) ascending_bucket (signature_of (\<lambda>x. x) [1, 2, 3, 4, 5] 2) [9, 3, 4, 7])
     = Some [9, 3, 4, 7]"
proof (rule delta_reconstructs)
  show "separates (\<lambda>x. x) (unat (or_default 2)) [1, 2, 3, 4, 5] [9, 3, 4, 7]"
    by (auto simp: separates_def strong16_def or_default_def)
qed simp_all

text \<open>C20. The rolling checksum is only an optimisation: for every signature, honest or not, every
  target and every table order, the scan emits exactly the instructions of the reference scan that
  sums each window afresh.\<close>

theorem compute_delta_reference:
  "compute_delta sha bucket sig target = reference_delta sha bucket sig target"
proof -
  note ref = scan_loop_reference [OF window_ok_init [of sig target 0 "[]"], of sha bucket, symmetric]
  show ?thesis
    using ref by (simp add: compute_delta_def reference_delta_def Let_def)
qed

text \<open>A file synced onto itself costs almost nothing: against its own signature the delta's
  literal bytes are exactly the short tail block, for every hash function and table order.\<close>

theorem delta_identical_cheap:
  assumes "bucket_of bucket (sg_blocks (signature_of sha base bs))" "length base < 2 ^ 63"
  shows "literal_bytes (compute_delta sha bucket (signature_of sha base bs) base)
    = of_nat (length base mod unat (or_default bs))"
proof -
  let ?sig = "signature_of sha base bs" and ?n = "unat (or_default bs)"
  have sig: "sg_block_size ?sig = or_default bs" by (simp add: signature_of_def)
  show ?thesis
  proof (cases "sg_blocks ?sig = [] \<or> length base < ?n")
    case True
    then have "length base < ?n"
      using sig_loop_nth [of ?n 0 sha base] by (auto simp: signature_of_def unat_gt_0)
    then show ?thesis
      by (simp add: compute_delta_def sig literal_bytes_emit)
  next
    case False
    let ?init = "\<lparr>sc_pos = 0, sc_literal_start = 0, sc_sums = init_window (or_default bs) base 0, sc_ops = []\<rparr>"
    let ?st = "scan_loop sha bucket ?sig base ?init"
    have "aligned ?sig base ?init"
      using window_ok_init [of ?sig base 0 "[]"] by (simp add: aligned_def sig)
    then have inv: "aligned ?sig base ?st \<and> length base < sc_pos ?st + ?n"
      using scan_loop_invariant [where I = "aligned ?sig base" and st = ?init and sig = ?sig
          and target = base and sha = sha and bucket = bucket] aligned_step [OF _ assms] sig
      by auto
    then have "sc_pos ?st \<le> length base" "sc_pos ?st mod ?n = 0"
      by (simp_all add: aligned_def sig)
    then have "length base - sc_pos ?st = length base mod ?n"
      using inv by (intro rest_mod) simp_all
    then show ?thesis
      using inv False by (simp add: compute_delta_def sig Let_def literal_bytes_emit aligned_def)
  qed
qed

theorem delta_identical_cheap_witness:
  "literal_bytes (compute_delta (\<lambda>x. x) ascending_bucket (signature_of (\<lambda>x. x) [1, 1, 1, 1, 5] 2) [1, 1, 1, 1, 5]) = 1"
  using delta_identical_cheap [of ascending_bucket "\<lambda>x. x" "[1, 1, 1, 1, 5]" 2] by (simp add: or_default_def)

text \<open>A signature survives the trip inside a request: whatever follows it, decoding its bytes gives
  it back. In particular the signature of any buffer does, while its blocks can be counted.\<close>

theorem signature_roundtrip:
  assumes "\<And>x. length (sha x) = 32" "length data < 2 ^ 32"
  shows "sig_decode (rd (sig_encode (signature_of sha data bs) [] @ rest)) =
    Some (signature_of sha data bs, rd rest)"
  using signature_valid [OF assms] by (rule sig_decode_encode)

theorem signature_roundtrip_witness:
  "sig_decode (rd (sig_encode (signature_of (\<lambda>x. replicate 32 0) [1, 2, 3] 2) [] @ [])) =
    Some (signature_of (\<lambda>x. replicate 32 0) [1, 2, 3] 2, rd [])"
  using signature_roundtrip [of "\<lambda>x. replicate 32 0" "[1, 2, 3]" 2 "[]"] by simp

text \<open>The streamed signature ends and is the signature of the file's bytes, for a stream that
  returns short reads only at the end of the file.\<close>

theorem signature_of_file_streams:
  assumes "reads_ahead read ahead"
  shows "signature_of_file read sha (Some s) bs = Some (Some (signature_of sha (ahead s) bs))"
  using sig_file_loop_blocks [OF assms]
  by (simp add: signature_of_file_def signature_of_def)

theorem signature_of_file_streams_witness:
  "signature_of_file (\<lambda>s n. (take n s, drop n s)) (\<lambda>x. x) (Some [1, 2, 3]) 2 =
    Some (Some (signature_of (\<lambda>x. x) [1, 2, 3] 2))"
  using signature_of_file_streams [of "\<lambda>s n. (take n s, drop n s)" "\<lambda>s. s"] by (simp add: reads_ahead_def)

text \<open>The 64-bit sum of the bounds check wraps: a copy at the last offset passes it on any base.\<close>

lemma apply_delta_wraps:
  "apply_delta [7] \<lparr>dl_out_size = 1, dl_ops = [copy_op (- 1) 1]\<rparr> = None"
  by (simp add: apply_delta_def copy_op_def unat_gt_0)

end
