(* ===== verification/Protocol.thy ===== *)
theory Protocol
  imports Delta Diff Fs_Path
begin

text \<open>
  \<open>net/protocol.h\<close>: the folder envelope, the opcodes and the body layouts, as the writers that build
  them; and \<open>SyncConfig\<close> and the per-folder state of \<open>net/sync_service.h\<close> / \<open>.cpp\<close> that a session reads
  and changes. Peers are identified by the bytes of librats' peer ids.
\<close>

unbundle bit_operations_syntax

section \<open>The envelope\<close>

definition kVersion :: u8 where
  "kVersion = 4"

definition kHeaderBytes :: nat where
  "kHeaderBytes = 4 + 1"

definition kUpdateReset :: u8 where
  "kUpdateReset = 1"

definition kUpdateMore :: u8 where
  "kUpdateMore = 2"

definition kMaxUpdateBytes :: nat where
  "kMaxUpdateBytes = 2 ^ 20"

datatype opcode = Hello | ManifestUpdate | Request | FileStart | FileLiteral | FileCopy | FileEnd
  | FileAck | NotFound | Bye

definition op_code :: "opcode \<Rightarrow> u8" where
  "op_code op = (case op of Hello \<Rightarrow> 1 | ManifestUpdate \<Rightarrow> 2 | Request \<Rightarrow> 3 | FileStart \<Rightarrow> 4
     | FileLiteral \<Rightarrow> 5 | FileCopy \<Rightarrow> 6 | FileEnd \<Rightarrow> 7 | FileAck \<Rightarrow> 8 | NotFound \<Rightarrow> 9 | Bye \<Rightarrow> 10)"

text \<open>A byte that is no opcode is cast into the enum and then matches no case of the dispatch.\<close>

definition op_of :: "u8 \<Rightarrow> opcode option" where
  "op_of b = find (\<lambda>op. op_code op = b)
     [Hello, ManifestUpdate, Request, FileStart, FileLiteral, FileCopy, FileEnd, FileAck, NotFound, Bye]"

definition message :: "u32 \<Rightarrow> opcode \<Rightarrow> writer" where
  "message folder op = w_u8 (op_code op) (w_u32 folder [])"

lemma op_of_code [simp]: "op_of (op_code op) = Some op"
  by (cases op) (simp_all add: op_of_def op_code_def)

lemma message_bytes [codec_simps]: "message folder op = be32 folder @ [op_code op]"
  by (simp add: message_def codec_simps)

section \<open>Configuration\<close>

type_synonym peer_id = bytes

definition sync_mode_code :: "sync_mode \<Rightarrow> u8" where
  "sync_mode_code m = (case m of TwoWay \<Rightarrow> 0 | Mirror \<Rightarrow> 1)"

definition conflict_policy_code :: "conflict_policy \<Rightarrow> u8" where
  "conflict_policy_code p = (case p of Newer \<Rightarrow> 0 | Larger \<Rightarrow> 1 | PreferLocal \<Rightarrow> 2 | PreferRemote \<Rightarrow> 3)"

record sync_config =
  cf_root :: bytes
  cf_data_dir :: bytes
  cf_folder :: bytes
  cf_mode :: sync_mode
  cf_conflict :: conflict_policy
  cf_source :: bool
  cf_propagate_deletes :: bool
  cf_follow_symlinks :: bool
  cf_allowed_peers :: "peer_id list"
  cf_use_delta :: bool
  cf_block_size :: u32
  cf_chunk_size :: u32
  cf_window_bytes :: u64
  cf_delta_max_bytes :: u64
  cf_max_pending_pulls :: u32
  cf_max_update_bytes :: nat
  cf_send_stall_timeout_ms :: u32

definition default_config :: sync_config where
  "default_config = \<lparr>cf_root = [], cf_data_dir = [], cf_folder = [], cf_mode = TwoWay, cf_conflict = Newer,
     cf_source = False, cf_propagate_deletes = True, cf_follow_symlinks = False, cf_allowed_peers = [],
     cf_use_delta = True, cf_block_size = kDefaultBlockSize, cf_chunk_size = 64 * 1024,
     cf_window_bytes = 4 * 1024 * 1024, cf_delta_max_bytes = 256 * 1024 * 1024,
     cf_max_pending_pulls = 8, cf_max_update_bytes = kMaxUpdateBytes, cf_send_stall_timeout_ms = 30000\<rparr>"

text \<open>The options both rounds of a session build from the configuration.\<close>

definition opts_of :: "sync_config \<Rightarrow> reconcile_options" where
  "opts_of c = \<lparr>ro_mode = cf_mode c, ro_conflict = cf_conflict c, ro_source = cf_source c,
     ro_propagate_deletes = cf_propagate_deletes c\<rparr>"

definition default_folder_name :: "bytes \<Rightarrow> bytes" where
  "default_folder_name root =
     (let leaf = fs_filename root;
          leaf = (if leaf = [] then fs_filename (fs_parent_path root) else leaf)
      in if leaf = [] then str ''rasync'' else leaf)"

definition with_defaults :: "(bytes \<Rightarrow> bytes) \<Rightarrow> sync_config \<Rightarrow> sync_config" where
  "with_defaults state_dir_for c =
     (let c = (if cf_data_dir c = [] then c\<lparr>cf_data_dir := state_dir_for (cf_root c)\<rparr> else c)
      in if cf_folder c = [] then c\<lparr>cf_folder := default_folder_name (cf_root c)\<rparr> else c)"

section \<open>The folder a session works on\<close>

record disk_file =
  df_data :: bytes
  df_mtime :: i64

text \<open>\<open>sv_disk\<close> is the synced tree by relative path, \<open>sv_temp\<close> the scratch directory by transfer id,
  \<open>sv_baseline_file\<close> the contents of \<open>baseline.man\<close>.\<close>

record service =
  sv_config :: sync_config
  sv_tag :: u32
  sv_local :: manifest
  sv_base :: manifest
  sv_version :: u64
  sv_advert_messages :: u64
  sv_advert_bytes :: u64
  sv_disk :: "path \<Rightarrow> disk_file option"
  sv_temp :: "u64 \<Rightarrow> bytes option"
  sv_baseline_file :: "bytes option"

text \<open>A service on a tree, before the first scan.\<close>

definition new_service ::
  "(bytes \<Rightarrow> bytes) \<Rightarrow> (bytes \<Rightarrow> bytes) \<Rightarrow> sync_config \<Rightarrow> (path \<Rightarrow> disk_file option) \<Rightarrow> bytes option \<Rightarrow> service" where
  "new_service sha state_dir_for c disk baseline =
     (let c = with_defaults state_dir_for c
      in \<lparr>sv_config = c, sv_tag = folder_tag sha (cf_folder c), sv_local = [], sv_base = [], sv_version = 0,
          sv_advert_messages = 0, sv_advert_bytes = 0, sv_disk = disk, sv_temp = Map.empty,
          sv_baseline_file = baseline\<rparr>)"

definition bump :: "service \<Rightarrow> service" where
  "bump sv = sv\<lparr>sv_version := sv_version sv + 1\<rparr>"

definition load_baseline :: "service \<Rightarrow> service" where
  "load_baseline sv =
     (case man_load (sv_baseline_file sv) of None \<Rightarrow> sv | Some m \<Rightarrow> bump (sv\<lparr>sv_base := m\<rparr>))"

definition set_base_manifest :: "manifest \<Rightarrow> service \<Rightarrow> service" where
  "set_base_manifest m sv = (bump (sv\<lparr>sv_base := m\<rparr>))\<lparr>sv_baseline_file := Some (man_save m)\<rparr>"

definition note_local_set :: "path \<Rightarrow> file_meta \<Rightarrow> service \<Rightarrow> service" where
  "note_local_set p m sv = bump (sv\<lparr>sv_local := man_set p m (sv_local sv)\<rparr>)"

definition note_local_removed :: "path \<Rightarrow> service \<Rightarrow> service" where
  "note_local_removed p sv = bump (sv\<lparr>sv_local := man_remove p (sv_local sv)\<rparr>)"

text \<open>A finished scan, and the patch of a partial one; both are followed by \<open>local_changed\<close> in every
  session, a patch only when it says something.\<close>

definition set_local_manifest :: "manifest \<Rightarrow> service \<Rightarrow> service" where
  "set_local_manifest m sv = bump (sv\<lparr>sv_local := m\<rparr>)"

definition apply_local_patch :: "manifest_patch \<Rightarrow> service \<Rightarrow> service" where
  "apply_local_patch patch sv =
     (if patch_empty patch then sv else bump (sv\<lparr>sv_local := man_apply patch (sv_local sv)\<rparr>))"

definition note_advert_sent :: "nat \<Rightarrow> service \<Rightarrow> service" where
  "note_advert_sent n sv = sv\<lparr>sv_advert_messages := sv_advert_messages sv + 1,
     sv_advert_bytes := sv_advert_bytes sv + of_nat n\<rparr>"

definition peer_allowed :: "service \<Rightarrow> peer_id \<Rightarrow> bool" where
  "peer_allowed sv peer \<longleftrightarrow>
     cf_allowed_peers (sv_config sv) = [] \<or> peer \<in> set (cf_allowed_peers (sv_config sv))"

definition hello_message :: "service \<Rightarrow> bytes" where
  "hello_message sv =
     (let w = message (sv_tag sv) Hello;
          w = w_u8 kVersion w;
          w = w_u8 (sync_mode_code (cf_mode (sv_config sv))) w;
          w = w_u8 (conflict_policy_code (cf_conflict (sv_config sv))) w
      in w_str16 (cf_folder (sv_config sv)) w)"

text \<open>What a connecting peer is sent: a Hello, and nothing when it is not in the allow-list.\<close>

definition peer_connected :: "service \<Rightarrow> bool \<Rightarrow> peer_id \<Rightarrow> bytes list" where
  "peer_connected sv stopped peer =
     (if stopped then [] else if \<not> peer_allowed sv peer then [] else [hello_message sv])"

end
