(* ===== verification/Session.thy ===== *)
theory Session
  imports Protocol Path Delta
begin

text \<open>
  \<open>net/sync_session.h\<close> / \<open>.cpp\<close>: one peer's session for one folder, every handler as a function on the
  session's state. What leaves the session (messages, UI events) is appended to two lists; what the
  platform decides (whether a rename, an open or a write succeeds) comes from the record \<open>platform\<close>.
  The threads appear as the steps they take between locks: \<open>requester_step\<close> and \<open>sender_step\<close>.
\<close>

unbundle bit_operations_syntax

section \<open>State\<close>

record incoming =
  in_xid :: u64
  in_rel_path :: path
  in_size :: u64
  in_mtime :: i64
  in_mode :: u32
  in_is_delta :: bool
  in_base :: "bytes option"
  in_written :: u64
  in_on_wire :: u64
  in_last_ack :: u64
  in_hash :: bytes

record serve =
  sj_rel_path :: path
  sj_sig :: "signature option"
  sj_xid :: u64

datatype event =
    Round sync_plan
  | FileDone bool path u64 bool u64
  | Synced nat u64

record session =
  ss_service :: service
  ss_incompatible :: bool
  ss_remote :: manifest
  ss_have_remote :: bool
  ss_remote_version :: u64
  ss_staging :: manifest
  ss_staging_active :: bool
  ss_last_sent :: manifest
  ss_last_sent_valid :: bool
  ss_last_sent_version :: u64
  ss_advertise_pending :: bool
  ss_last_synced :: "hash option"
  ss_last_eval :: "(u64 \<times> u64) option"
  ss_pulling :: "path list"
  ss_pull_queue :: "path list"
  ss_incoming :: "(u64, incoming) omap"
  ss_serve_q :: "serve list"
  ss_outstanding_serves :: nat
  ss_running :: bool
  ss_cur_xid :: u64
  ss_cur_sent :: u64
  ss_cur_acked :: u64
  ss_next_xid :: u64
  ss_out :: "bytes list"
  ss_events :: "event list"

text \<open>A session as its constructor and \<open>start\<close> leave it.\<close>

definition new_session :: "service \<Rightarrow> session" where
  "new_session sv = \<lparr>ss_service = sv, ss_incompatible = False, ss_remote = [], ss_have_remote = False,
     ss_remote_version = 0, ss_staging = [], ss_staging_active = False, ss_last_sent = [],
     ss_last_sent_valid = False, ss_last_sent_version = 0, ss_advertise_pending = False,
     ss_last_synced = None, ss_last_eval = None, ss_pulling = [], ss_pull_queue = [], ss_incoming = [],
     ss_serve_q = [], ss_outstanding_serves = 0, ss_running = True, ss_cur_xid = 0, ss_cur_sent = 0,
     ss_cur_acked = 0, ss_next_xid = 1, ss_out = [], ss_events = []\<rparr>"

text \<open>A session for the witnesses: no files on disk, the given local manifest.\<close>

definition sample_session :: "manifest \<Rightarrow> session" where
  "sample_session local = new_session ((new_service (\<lambda>x. replicate 32 0) (\<lambda>x. x) default_config Map.empty None)
     \<lparr>sv_local := local\<rparr>)"

datatype rename_result = Renamed | CrossDevice | Refused

text \<open>What the system answers to the calls of one step; the next step may get other answers.\<close>

record platform =
  pf_sha :: "bytes \<Rightarrow> bytes"
  pf_bucket :: "block_sig list \<Rightarrow> u32 \<Rightarrow> nat list"
  pf_remove :: "path \<Rightarrow> bool"
  pf_clear_temp :: "u64 \<Rightarrow> bool"
  pf_open_temp :: "u64 \<Rightarrow> bool"
  pf_open_read :: "path \<Rightarrow> bool"
  pf_write :: "u64 \<Rightarrow> u64 \<Rightarrow> bool"
  pf_seek :: "u64 \<Rightarrow> u64 \<Rightarrow> bool"
  pf_rename :: "path \<Rightarrow> rename_result"
  pf_copy :: "path \<Rightarrow> bool"
  pf_swap :: "path \<Rightarrow> bool"
  pf_swap_again :: "path \<Rightarrow> bool"
  pf_rename_again :: "path \<Rightarrow> bool"

definition kAckInterval :: u64 where
  "kAckInterval = 256 * 1024"

section \<open>Sending\<close>

definition send_msg :: "bytes \<Rightarrow> session \<Rightarrow> session" where
  "send_msg w st = st\<lparr>ss_out := ss_out st @ [w]\<rparr>"

definition emit :: "event \<Rightarrow> session \<Rightarrow> session" where
  "emit ev st = st\<lparr>ss_events := ss_events st @ [ev]\<rparr>"

definition msg :: "session \<Rightarrow> opcode \<Rightarrow> writer" where
  "msg st op = message (sv_tag (ss_service st)) op"

abbreviation config :: "session \<Rightarrow> sync_config" where
  "config st \<equiv> sv_config (ss_service st)"

abbreviation on_service :: "(service \<Rightarrow> service) \<Rightarrow> session \<Rightarrow> session" where
  "on_service f st \<equiv> st\<lparr>ss_service := f (ss_service st)\<rparr>"

section \<open>Advertising the local tree\<close>

text \<open>The chunk being filled: its patch, its estimated size, and whether it is the update's first.\<close>

record chunking =
  ck_chunk :: manifest_patch
  ck_est :: nat
  ck_first :: bool

definition update_flags :: "bool \<Rightarrow> bool \<Rightarrow> u8" where
  "update_flags reset follows = (if reset then kUpdateReset else 0) OR (if follows then kUpdateMore else 0)"

definition flush :: "bool \<Rightarrow> bool \<Rightarrow> chunking \<times> session \<Rightarrow> chunking \<times> session" where
  "flush reset follows cs =
     (let (ck, st) = cs;
          w = w_u8 (update_flags (ck_first ck \<and> reset) follows) (msg st ManifestUpdate);
          w = patch_encode (ck_chunk ck) w
      in (\<lparr>ck_chunk = empty_patch, ck_est = 0, ck_first = False\<rparr>,
          send_msg w (on_service (note_advert_sent (length w)) st)))"

definition kFixedEntryBytes :: nat where
  "kFixedEntryBytes = 54"

definition push_set ::
  "bool \<Rightarrow> path \<times> file_meta \<Rightarrow> chunking \<times> session \<Rightarrow> chunking \<times> session" where
  "push_set reset e cs =
     (let (ck, st) = cs;
          est = ck_est ck + kFixedEntryBytes + length (fst e);
          ck = ck\<lparr>ck_chunk := (ck_chunk ck)\<lparr>mp_set := mp_set (ck_chunk ck) @ [e]\<rparr>, ck_est := est\<rparr>
      in if est \<ge> cf_max_update_bytes (config st) then flush reset True (ck, st) else (ck, st))"

definition push_removed :: "bool \<Rightarrow> path \<Rightarrow> chunking \<times> session \<Rightarrow> chunking \<times> session" where
  "push_removed reset p cs =
     (let (ck, st) = cs;
          est = ck_est ck + 2 + length p;
          ck = ck\<lparr>ck_chunk := (ck_chunk ck)\<lparr>mp_removed := mp_removed (ck_chunk ck) @ [p]\<rparr>, ck_est := est\<rparr>
      in if est \<ge> cf_max_update_bytes (config st) then flush reset True (ck, st) else (ck, st))"

definition send_update :: "manifest_patch \<Rightarrow> bool \<Rightarrow> session \<Rightarrow> session" where
  "send_update patch reset st =
     (let cs = (\<lparr>ck_chunk = empty_patch, ck_est = 0, ck_first = True\<rparr>, st);
          cs = fold (push_set reset) (mp_set patch) cs;
          cs = fold (push_removed reset) (mp_removed patch) cs
      in snd (flush reset False cs))"

definition advertise :: "session \<Rightarrow> session" where
  "advertise st =
     (let version = sv_version (ss_service st)
      in if ss_last_sent_valid st \<and> version = ss_last_sent_version st
         then st\<lparr>ss_advertise_pending := False\<rparr>
         else
           let st = st\<lparr>ss_last_sent_version := version\<rparr>;
               local = sv_local (ss_service st);
               reset = (\<not> ss_last_sent_valid st);
               patch = (if reset then \<lparr>mp_set = local, mp_removed = []\<rparr>
                        else diff_manifests (ss_last_sent st) local)
           in if \<not> reset \<and> patch_empty patch then st\<lparr>ss_advertise_pending := False\<rparr>
              else (send_update patch reset st)
                \<lparr>ss_last_sent := local, ss_last_sent_valid := True, ss_advertise_pending := False\<rparr>)"

section \<open>Quiescence\<close>

text \<open>The trees agree: announce it once per fingerprint, and make the local tree the baseline.\<close>

definition announce_synced :: "platform \<Rightarrow> session \<Rightarrow> session" where
  "announce_synced pf st =
     (let local = sv_local (ss_service st); fp = fingerprint (pf_sha pf) local
      in if ss_last_synced st = Some fp then st
         else
           let st = st\<lparr>ss_last_synced := Some fp\<rparr>;
               st = (if cf_mode (config st) = TwoWay then on_service (set_base_manifest local) st else st)
           in emit (Synced (length local) (total_bytes local)) st)"

text \<open>The convergence check, skipped while neither tree has moved since the last one.\<close>

definition evaluate :: "platform \<Rightarrow> session \<Rightarrow> session" where
  "evaluate pf st =
     (if \<not> ss_have_remote st then st
      else
        let versions = (sv_version (ss_service st), ss_remote_version st)
        in if ss_last_eval st = Some versions then st
           else
             let st = st\<lparr>ss_last_eval := Some versions\<rparr>;
                 sv = ss_service st
             in if \<not> plan_empty (reconcile (sv_base sv) (sv_local sv) (ss_remote st) (opts_of (config st)))
                then st else announce_synced pf st)"

definition maybe_synced :: "platform \<Rightarrow> session \<Rightarrow> session" where
  "maybe_synced pf st =
     (if ss_pulling st \<noteq> [] \<or> ss_incoming st \<noteq> [] \<or> ss_outstanding_serves st \<noteq> 0
      then st\<lparr>ss_last_eval := None\<rparr>
      else evaluate pf (if ss_advertise_pending st then advertise st else st))"

section \<open>Pulling\<close>

definition release_pull :: "path \<Rightarrow> session \<Rightarrow> session" where
  "release_pull p st = st\<lparr>ss_pulling := removeAll p (ss_pulling st)\<rparr>"

definition abandon_pull :: "platform \<Rightarrow> path \<Rightarrow> session \<Rightarrow> session" where
  "abandon_pull pf p st = maybe_synced pf (release_pull p st)"

definition may_request :: "session \<Rightarrow> bool" where
  "may_request st \<longleftrightarrow> ss_pull_queue st \<noteq> [] \<and>
     (let in_flight = (if length (ss_pulling st) > length (ss_pull_queue st)
                       then length (ss_pulling st) - length (ss_pull_queue st) else 0)
      in in_flight < unat (cf_max_pending_pulls (config st)))"

definition send_request :: "platform \<Rightarrow> path \<Rightarrow> session \<Rightarrow> session" where
  "send_request pf p st =
     (let cfg = config st;
          w = w_str16 p (msg st Request);
          sig = (if cf_use_delta cfg then
                   (case sv_disk (ss_service st) p of
                      Some f \<Rightarrow>
                        if of_nat (length (df_data f)) \<le> cf_delta_max_bytes cfg \<and> pf_open_read pf p
                        then Some (signature_of (pf_sha pf) (df_data f) (cf_block_size cfg)) else None
                    | None \<Rightarrow> None)
                 else None);
          w = (case sig of Some s \<Rightarrow> sig_encode s (w_u8 1 w) | None \<Rightarrow> w_u8 0 w)
      in send_msg w st)"

definition requester_step :: "platform \<Rightarrow> session \<Rightarrow> session" where
  "requester_step pf st =
     (if ss_running st \<and> may_request st
      then send_request pf (hd (ss_pull_queue st)) (st\<lparr>ss_pull_queue := tl (ss_pull_queue st)\<rparr>)
      else st)"

definition queue_pull :: "path \<Rightarrow> session \<Rightarrow> session" where
  "queue_pull p st =
     (if p \<in> set (ss_pulling st) then st
      else st\<lparr>ss_pulling := ss_pulling st @ [p], ss_pull_queue := ss_pull_queue st @ [p]\<rparr>)"

section \<open>The round\<close>

text \<open>One local deletion: a file that cannot be removed stays in the manifest.\<close>

definition delete_local :: "platform \<Rightarrow> path \<Rightarrow> session \<times> bool \<Rightarrow> session \<times> bool" where
  "delete_local pf p sm =
     (if pf_remove pf p
      then (on_service (\<lambda>sv. note_local_removed p (sv\<lparr>sv_disk := (sv_disk sv)(p := None)\<rparr>)) (fst sm), True)
      else sm)"

definition reconcile_and_act :: "platform \<Rightarrow> session \<Rightarrow> session" where
  "reconcile_and_act pf st =
     (if \<not> ss_have_remote st then st
      else
        let plan = reconcile (sv_base (ss_service st)) (sv_local (ss_service st)) (ss_remote st)
              (opts_of (config st));
            st = emit (Round plan) st;
            (st, mutated) = fold (delete_local pf) (pl_delete_local plan) (st, False);
            st = fold queue_pull (pl_pull plan) st;
            st = (if mutated then advertise st else st)
        in maybe_synced pf st)"

definition local_changed :: "platform \<Rightarrow> session \<Rightarrow> session" where
  "local_changed pf st = (if ss_incompatible st then st else reconcile_and_act pf (advertise st))"

section \<open>Inbound: the handshake and the peer's tree\<close>

definition refuse :: "session \<Rightarrow> session" where
  "refuse st = send_msg (msg st Bye) (st\<lparr>ss_incompatible := True\<rparr>)"

definition handle_hello :: "reader \<Rightarrow> session \<Rightarrow> session" where
  "handle_hello r st =
     (let (version, r) = r_u8 r; (peer_mode, r) = r_u8 r; (peer_conflict, r) = r_u8 r;
          (peer_folder, r) = r_str16 r
      in if \<not> rd_ok r then st
         else if version \<noteq> kVersion then refuse st
         else if peer_folder \<noteq> cf_folder (config st) then refuse st
         else if peer_mode = sync_mode_code (cf_mode (config st)) \<and> cf_mode (config st) = TwoWay
           \<and> peer_conflict \<noteq> conflict_policy_code (complement (cf_conflict (config st)))
         then refuse st
         else advertise st)"

definition sanitize :: "manifest_patch \<Rightarrow> manifest_patch" where
  "sanitize p = p\<lparr>mp_set := filter (\<lambda>e. is_safe_relpath (fst e)) (mp_set p)\<rparr>"

text \<open>The staging discipline; the flag says whether \<open>remote_\<close> was committed.\<close>

definition stage_update :: "u8 \<Rightarrow> manifest_patch \<Rightarrow> session \<Rightarrow> session \<times> bool" where
  "stage_update flags patch st =
     (let st = (if flags AND kUpdateReset \<noteq> 0
                then st\<lparr>ss_staging := [], ss_staging_active := True\<rparr> else st);
          follows = (flags AND kUpdateMore \<noteq> 0)
      in if ss_staging_active st then
           (let st = st\<lparr>ss_staging := man_apply patch (ss_staging st)\<rparr>
            in if follows then (st, False)
               else (st\<lparr>ss_remote := ss_staging st, ss_staging := [], ss_staging_active := False,
                       ss_have_remote := True, ss_remote_version := ss_remote_version st + 1\<rparr>, True))
         else if follows then
           (st\<lparr>ss_staging := man_apply patch (ss_remote st), ss_staging_active := True\<rparr>, False)
         else
           (st\<lparr>ss_remote := man_apply patch (ss_remote st), ss_have_remote := True,
               ss_remote_version := ss_remote_version st + 1\<rparr>, True))"

definition handle_manifest_update :: "platform \<Rightarrow> reader \<Rightarrow> session \<Rightarrow> session" where
  "handle_manifest_update pf r st =
     (let (flags, r) = r_u8 r
      in case patch_decode r of
           None \<Rightarrow> st
         | Some (patch, r) \<Rightarrow>
             if \<not> rd_ok r then st
             else
               let (st, committed) = stage_update flags (sanitize patch) st
               in if committed then reconcile_and_act pf st else st)"

section \<open>Serving the peer's requests\<close>

definition decline :: "path \<Rightarrow> session \<Rightarrow> session" where
  "decline p st = send_msg (w_str16 p (msg st NotFound)) st"

definition handle_request :: "reader \<Rightarrow> session \<Rightarrow> session" where
  "handle_request r st =
     (let (p, r) = r_str16 r
      in if \<not> rd_ok r then st
         else if \<not> is_safe_relpath p then decline p st
         else
           let (has_sig, r) = r_u8 r;
               enqueue = (\<lambda>sig st. st\<lparr>ss_outstanding_serves := ss_outstanding_serves st + 1,
                 ss_serve_q := ss_serve_q st @ [\<lparr>sj_rel_path = p, sj_sig = sig, sj_xid = ss_next_xid st\<rparr>],
                 ss_next_xid := ss_next_xid st + 1\<rparr>)
           in if has_sig \<noteq> 0 then
                (case sig_decode r of
                   None \<Rightarrow> decline p st
                 | Some (sig, r) \<Rightarrow> if \<not> rd_ok r then decline p st else enqueue (Some sig) st)
              else if \<not> rd_ok r then decline p st
              else enqueue None st)"

text \<open>The reads of a whole file, and the cuts of a long literal.\<close>

function read_chunks :: "nat \<Rightarrow> bytes \<Rightarrow> bytes list" where
  "read_chunks n data =
     (if n = 0 \<or> data = [] then []
      else take n data # (if length data < n then [] else read_chunks n (drop n data)))"
  by pat_completeness auto
termination
  by (relation "measure (\<lambda>(n, data). length data)") auto

declare read_chunks.simps [simp del]

definition file_start :: "session \<Rightarrow> serve \<Rightarrow> u64 \<Rightarrow> i64 \<Rightarrow> u32 \<Rightarrow> bool \<Rightarrow> bytes" where
  "file_start st job len64 mtime mode is_delta =
     w_u8 (if is_delta then 1 else 0) (w_u32 mode (w_i64 mtime (w_u64 len64
       (w_str16 (sj_rel_path job) (w_u64 (sj_xid job) (msg st FileStart))))))"

definition file_literal :: "session \<Rightarrow> u64 \<Rightarrow> bytes \<Rightarrow> bytes" where
  "file_literal st xid data = w_blob32 data (w_u64 xid (msg st FileLiteral))"

definition file_copy :: "session \<Rightarrow> u64 \<Rightarrow> u64 \<Rightarrow> u32 \<Rightarrow> bytes" where
  "file_copy st xid offset len = w_u32 len (w_u64 offset (w_u64 xid (msg st FileCopy)))"

definition file_end :: "session \<Rightarrow> u64 \<Rightarrow> hash \<Rightarrow> bytes" where
  "file_end st xid digest = w_bytes digest (w_u64 xid (msg st FileEnd))"

definition note_sent :: "u64 \<Rightarrow> nat \<Rightarrow> session \<Rightarrow> session" where
  "note_sent xid n st =
     (if ss_cur_xid st = xid then st\<lparr>ss_cur_sent := ss_cur_sent st + of_nat n\<rparr> else st)"

text \<open>The wait of the send window, as the condition it ends on.\<close>

definition window_open :: "u64 \<Rightarrow> session \<Rightarrow> bool" where
  "window_open xid st \<longleftrightarrow> \<not> ss_running st \<or> ss_cur_xid st \<noteq> xid \<or>
     ss_cur_acked st \<ge> ss_cur_sent st \<or> ss_cur_sent st - ss_cur_acked st \<le> cf_window_bytes (config st)"

definition send_literal :: "u64 \<Rightarrow> bytes \<Rightarrow> session \<Rightarrow> session" where
  "send_literal xid data st = note_sent xid (length data) (send_msg (file_literal st xid data) st)"

text \<open>The messages of one file, in order. The window's waits between them change no state of this
  thread. Once the session is stopped, a file is cut short: whole, behind its first chunk; a delta,
  before its first operation.\<close>

definition serve_whole ::
  "platform \<Rightarrow> serve \<Rightarrow> disk_file \<Rightarrow> u32 \<Rightarrow> session \<Rightarrow> session" where
  "serve_whole pf job f mode st =
     (if \<not> pf_open_read pf (sj_rel_path job) then decline (sj_rel_path job) st
      else
        let len64 = of_nat (length (df_data f));
            st = send_msg (file_start st job len64 (df_mtime f) mode False) st;
            chunks = read_chunks (unat (cf_chunk_size (config st))) (df_data f);
            stopped = (\<not> ss_running st \<and> chunks \<noteq> []);
            st = fold (send_literal (sj_xid job)) (if stopped then take 1 chunks else chunks) st
        in if stopped then st
           else emit (FileDone True (sj_rel_path job) len64 False (of_nat (length (concat chunks))))
             (send_msg (file_end st (sj_xid job) (pf_sha pf (concat chunks))) st))"

definition send_op :: "nat \<Rightarrow> u64 \<Rightarrow> delta_op \<Rightarrow> session \<Rightarrow> session" where
  "send_op chunk xid op st =
     (if op_copy op then send_msg (file_copy st xid (op_offset op) (op_len op)) st
      else fold (send_literal xid) (read_chunks chunk (op_literal op)) st)"

definition serve_delta ::
  "platform \<Rightarrow> serve \<Rightarrow> signature \<Rightarrow> disk_file \<Rightarrow> u32 \<Rightarrow> session \<Rightarrow> session" where
  "serve_delta pf job sig f mode st =
     (if \<not> pf_open_read pf (sj_rel_path job) then serve_whole pf job f mode st
      else
        let len64 = of_nat (length (df_data f));
            d = compute_delta (pf_sha pf) (pf_bucket pf) sig (df_data f);
            st = send_msg (file_start st job len64 (df_mtime f) mode True) st
        in if \<not> ss_running st \<and> dl_ops d \<noteq> [] then st
           else
             let st = fold (send_op (unat (cf_chunk_size (config st))) (sj_xid job)) (dl_ops d) st;
                 st = send_msg (file_end st (sj_xid job) (pf_sha pf (df_data f))) st
             in emit (FileDone True (sj_rel_path job) len64 True (literal_bytes d)) st)"

definition serve_one :: "platform \<Rightarrow> serve \<Rightarrow> session \<Rightarrow> session" where
  "serve_one pf job st =
     (case sv_disk (ss_service st) (sj_rel_path job) of
        None \<Rightarrow> decline (sj_rel_path job) st
      | Some f \<Rightarrow>
          let mode = (case man_find (sv_local (ss_service st)) (sj_rel_path job) of
                        Some m \<Rightarrow> fm_mode m | None \<Rightarrow> 0);
              st = st\<lparr>ss_cur_xid := sj_xid job, ss_cur_sent := 0, ss_cur_acked := 0\<rparr>
          in (case sj_sig job of
                Some sig \<Rightarrow>
                  if cf_use_delta (config st) \<and> of_nat (length (df_data f)) \<le> cf_delta_max_bytes (config st)
                  then serve_delta pf job sig f mode st else serve_whole pf job f mode st
              | None \<Rightarrow> serve_whole pf job f mode st))"

definition sender_step :: "platform \<Rightarrow> session \<Rightarrow> session" where
  "sender_step pf st =
     (case ss_serve_q st of
        [] \<Rightarrow> st
      | job # rest \<Rightarrow>
          let st = serve_one pf job (st\<lparr>ss_serve_q := rest\<rparr>)
          in maybe_synced pf (st\<lparr>ss_outstanding_serves := ss_outstanding_serves st - 1\<rparr>))"

definition handle_file_ack :: "reader \<Rightarrow> session \<Rightarrow> session" where
  "handle_file_ack r st =
     (let (xid, r) = r_u64 r; (n, r) = r_u64 r
      in if \<not> rd_ok r then st
         else if ss_cur_xid st = xid \<and> n > ss_cur_acked st then st\<lparr>ss_cur_acked := n\<rparr> else st)"

section \<open>Receiving files\<close>

text \<open>A positioned write; a gap would read as zeros.\<close>

definition write_at :: "nat \<Rightarrow> bytes \<Rightarrow> bytes \<Rightarrow> bytes" where
  "write_at off data file = take off file @ replicate (off - length file) 0 @ data @ drop (off + length data) file"

definition set_temp :: "u64 \<Rightarrow> bytes option \<Rightarrow> session \<Rightarrow> session" where
  "set_temp xid d st = on_service (\<lambda>sv. sv\<lparr>sv_temp := (sv_temp sv)(xid := d)\<rparr>) st"

abbreviation temp_of :: "session \<Rightarrow> u64 \<Rightarrow> bytes option" where
  "temp_of st xid \<equiv> sv_temp (ss_service st) xid"

text \<open>Dropping a transfer; its destructor removes the temp file.\<close>

definition drop_temp :: "platform \<Rightarrow> u64 \<Rightarrow> session \<Rightarrow> session" where
  "drop_temp pf xid st = (if pf_clear_temp pf xid then set_temp xid None st else st)"

definition fail_incoming :: "platform \<Rightarrow> incoming \<Rightarrow> bool \<Rightarrow> session \<Rightarrow> session" where
  "fail_incoming pf inc keep_reservation st =
     (let st = st\<lparr>ss_incoming := om_erase (in_xid inc) (ss_incoming st)\<rparr>;
          st = (if keep_reservation then st else abandon_pull pf (in_rel_path inc) st)
      in drop_temp pf (in_xid inc) st)"

text \<open>A second start with the id of a live transfer replaces it, and the destructor of the replaced one
  removes the temp file of that name.\<close>

definition handle_file_start :: "platform \<Rightarrow> reader \<Rightarrow> session \<Rightarrow> session" where
  "handle_file_start pf r st =
     (let (xid, r) = r_u64 r; (p, r) = r_str16 r; (size, r) = r_u64 r; (mtime, r) = r_i64 r;
          (mode, r) = r_u32 r; (is_delta, r) = r_u8 r;
          inc = \<lparr>in_xid = xid, in_rel_path = p, in_size = size, in_mtime = mtime, in_mode = mode,
            in_is_delta = (is_delta \<noteq> 0), in_base = None, in_written = 0, in_on_wire = 0,
            in_last_ack = 0, in_hash = []\<rparr>
      in if \<not> rd_ok r then st
         else if \<not> is_safe_relpath p then abandon_pull pf p st
         else if \<not> pf_clear_temp pf xid then abandon_pull pf p st
         else
           let st = set_temp xid None st
           in if \<not> pf_open_temp pf xid then abandon_pull pf p st
              else
                let st = set_temp xid (Some []) st;
                    base = (if in_is_delta inc \<and> pf_open_read pf p
                            then map_option df_data (sv_disk (ss_service st) p) else None)
                in if in_is_delta inc \<and> base = None then fail_incoming pf inc False st
                   else
                     let replaced = (om_find (ss_incoming st) xid \<noteq> None);
                         st = st\<lparr>ss_incoming := om_assign xid (inc\<lparr>in_base := base\<rparr>) (ss_incoming st)\<rparr>
                     in if replaced then drop_temp pf xid st else st)"

definition set_incoming :: "incoming \<Rightarrow> session \<Rightarrow> session" where
  "set_incoming inc st = st\<lparr>ss_incoming := om_assign (in_xid inc) inc (ss_incoming st)\<rparr>"

text \<open>Appending received or copied bytes: the write, the running hash, the count.\<close>

definition append_bytes :: "bytes \<Rightarrow> incoming \<times> session \<Rightarrow> incoming \<times> session" where
  "append_bytes data is =
     (let (inc, st) = is
      in (inc\<lparr>in_written := in_written inc + of_nat (length data), in_hash := in_hash inc @ data\<rparr>,
          set_temp (in_xid inc)
            (map_option (write_at (unat (in_written inc)) data) (temp_of st (in_xid inc))) st))"

definition file_ack :: "session \<Rightarrow> u64 \<Rightarrow> u64 \<Rightarrow> bytes" where
  "file_ack st xid n = w_u64 n (w_u64 xid (msg st FileAck))"

definition handle_file_literal :: "platform \<Rightarrow> reader \<Rightarrow> session \<Rightarrow> session" where
  "handle_file_literal pf r st =
     (let (xid, r) = r_u64 r; (data, r) = r_blob32 r
      in if \<not> rd_ok r then st
         else case om_find (ss_incoming st) xid of
             None \<Rightarrow> st
           | Some inc \<Rightarrow>
               if \<not> pf_write pf xid (in_written inc) then fail_incoming pf inc False st
               else
                 let (inc, st) = append_bytes data (inc, st);
                     inc = inc\<lparr>in_on_wire := in_on_wire inc + of_nat (length data)\<rparr>
                 in if in_on_wire inc - in_last_ack inc \<ge> kAckInterval
                    then send_msg (file_ack st xid (in_on_wire inc))
                      (set_incoming (inc\<lparr>in_last_ack := in_on_wire inc\<rparr>) st)
                    else set_incoming inc st)"

text \<open>The copy loop: blocks of at most 64 KiB until \<open>left\<close> is gone; \<open>False\<close> is a failed seek, read or
  write.\<close>

function copy_loop ::
  "platform \<Rightarrow> bytes \<Rightarrow> nat \<Rightarrow> nat \<Rightarrow> u64 \<Rightarrow> incoming \<times> session \<Rightarrow> bool \<times> incoming \<times> session" where
  "copy_loop pf base bufsize left src is =
     (if left = 0 then (True, is)
      else
        let data = take (min bufsize left) (drop (unat src) base)
        in if \<not> pf_seek pf (in_xid (fst is)) src then (False, is)
           else if data = [] then (False, is)
           else if \<not> pf_write pf (in_xid (fst is)) (in_written (fst is)) then (False, is)
           else copy_loop pf base bufsize (left - length data) (src + of_nat (length data)) (append_bytes data is))"
  by pat_completeness auto
termination
  by (relation "measure (\<lambda>(pf, base, bufsize, left, src, is). left)") auto

declare copy_loop.simps [simp del]

definition handle_file_copy :: "platform \<Rightarrow> reader \<Rightarrow> session \<Rightarrow> session" where
  "handle_file_copy pf r st =
     (let (xid, r) = r_u64 r; (off, r) = r_u64 r; (len, r) = r_u32 r
      in if \<not> rd_ok r then st
         else case om_find (ss_incoming st) xid of
             None \<Rightarrow> st
           | Some inc \<Rightarrow>
               (case in_base inc of
                  None \<Rightarrow> st
                | Some base \<Rightarrow>
                    let (good, inc, st) = copy_loop pf base (min (unat len) (64 * 1024)) (unat len) off (inc, st)
                    in if good then set_incoming inc st else fail_incoming pf inc False st))"

text \<open>Moving the temp file into place. A rename needs its source; when it is refused the code drops the
  destination and tries once more. Across devices the bytes are copied beside the destination first, and the temp
  file is removed at the end, with no look at whether that worked. The copy beside the destination is not part of
  the modelled tree.\<close>

definition set_disk :: "path \<Rightarrow> disk_file option \<Rightarrow> session \<Rightarrow> session" where
  "set_disk p f st = on_service (\<lambda>sv. sv\<lparr>sv_disk := (sv_disk sv)(p := f)\<rparr>) st"

definition move_replace :: "platform \<Rightarrow> u64 \<Rightarrow> path \<Rightarrow> i64 \<Rightarrow> session \<Rightarrow> session \<times> bool" where
  "move_replace pf xid p mtime st =
     (let src = temp_of st xid;
          placed = (\<lambda>st. set_disk p (Some \<lparr>df_data = the src, df_mtime = mtime\<rparr>) st);
          moved = (\<lambda>st. (set_temp xid None (placed st), True));
          copied = (\<lambda>st. (if pf_clear_temp pf xid then set_temp xid None (placed st) else placed st, True))
      in if src \<noteq> None \<and> pf_rename pf p = Renamed then moved st
         else if src \<noteq> None \<and> pf_rename pf p = CrossDevice then
           (if \<not> pf_copy pf p then (st, False)
            else if pf_swap pf p then copied st
            else
              let st = (if pf_remove pf p then set_disk p None st else st)
              in if pf_swap_again pf p then copied st else (st, False))
         else
           let st = (if pf_remove pf p then set_disk p None st else st)
           in if src \<noteq> None \<and> pf_rename_again pf p then moved st else (st, False))"

definition finalize_incoming :: "platform \<Rightarrow> incoming \<Rightarrow> hash \<Rightarrow> session \<Rightarrow> session" where
  "finalize_incoming pf inc digest st =
     (let xid = in_xid inc; p = in_rel_path inc;
          st = send_msg (file_ack st xid (in_on_wire inc)) st;
          (st, moved) = move_replace pf xid p (in_mtime inc) st
      in if \<not> moved
         then drop_temp pf xid (abandon_pull pf p (st\<lparr>ss_incoming := om_erase xid (ss_incoming st)\<rparr>))
         else
           let meta = \<lparr>fm_size = in_written inc, fm_mtime = in_mtime inc, fm_mode = in_mode inc, fm_hash = digest\<rparr>;
               st = on_service (note_local_set p meta) st;
               st = st\<lparr>ss_incoming := om_erase xid (ss_incoming st), ss_advertise_pending := True\<rparr>;
               st = release_pull p st;
               st = emit (FileDone False p (in_size inc) (in_is_delta inc) (in_on_wire inc)) st
           in maybe_synced pf st)"

definition handle_file_end :: "platform \<Rightarrow> reader \<Rightarrow> session \<Rightarrow> session" where
  "handle_file_end pf r st =
     (let (xid, r) = r_u64 r; (expected, r) = r_bytes 32 r
      in if \<not> rd_ok r then st
         else case om_find (ss_incoming st) xid of
             None \<Rightarrow> st
           | Some inc \<Rightarrow>
               let got = pf_sha pf (in_hash inc)
               in if got \<noteq> expected then
                    (let p = in_rel_path inc; retry = in_is_delta inc;
                         st = fail_incoming pf inc retry st
                     in if retry then send_msg (w_u8 0 (w_str16 p (msg st Request))) st else st)
                  else finalize_incoming pf inc got st)"

definition handle_not_found :: "platform \<Rightarrow> reader \<Rightarrow> session \<Rightarrow> session" where
  "handle_not_found pf r st =
     (let (p, r) = r_str16 r in if \<not> rd_ok r then st else abandon_pull pf p st)"

section \<open>Dispatch\<close>

definition handle :: "platform \<Rightarrow> opcode \<Rightarrow> reader \<Rightarrow> session \<Rightarrow> session" where
  "handle pf op r st =
     (if ss_incompatible st then st
      else case op of
          Hello \<Rightarrow> handle_hello r st
        | ManifestUpdate \<Rightarrow> handle_manifest_update pf r st
        | Request \<Rightarrow> handle_request r st
        | FileStart \<Rightarrow> handle_file_start pf r st
        | FileLiteral \<Rightarrow> handle_file_literal pf r st
        | FileCopy \<Rightarrow> handle_file_copy pf r st
        | FileEnd \<Rightarrow> handle_file_end pf r st
        | FileAck \<Rightarrow> handle_file_ack r st
        | NotFound \<Rightarrow> handle_not_found pf r st
        | Bye \<Rightarrow> st\<lparr>ss_incompatible := True\<rparr>)"

text \<open>One message as the router delivers it: the tag, the opcode, the rest to the handler.\<close>

definition deliver :: "platform \<Rightarrow> bytes \<Rightarrow> session \<Rightarrow> session" where
  "deliver pf m st =
     (if length m < kHeaderBytes then st
      else
        let r = reader_of m; (tag, r) = r_u32 r; (op, r) = r_u8 r
        in if tag \<noteq> sv_tag (ss_service st) then st
           else case op_of op of None \<Rightarrow> st | Some op \<Rightarrow> handle pf op r st)"

text \<open>\<open>stop\<close>: no new requests are made, and every transfer under way is dropped with its temp file. Requests
  waiting to be served stay queued: the sender's thread drains its queue before it ends, so its steps may still
  follow.\<close>

definition stop :: "platform \<Rightarrow> session \<Rightarrow> session" where
  "stop pf st =
     (if \<not> ss_running st then st
      else fold (\<lambda>e. drop_temp pf (fst e)) (ss_incoming st)
        (st\<lparr>ss_running := False, ss_incoming := [], ss_pull_queue := []\<rparr>))"

section \<open>Everything that can happen to a session\<close>

text \<open>A message from the peer, one turn of either thread, a finished scan, a scan's patch, an edit of
  the tree behind the program's back, and the end of the connection.\<close>

datatype session_input =
    Arrives bytes
  | Requests
  | Serves
  | Scanned manifest
  | Patched manifest_patch
  | Edited "path \<Rightarrow> disk_file option"
  | Stops

fun session_step :: "platform \<Rightarrow> session_input \<Rightarrow> session \<Rightarrow> session" where
  "session_step pf (Arrives m) st = deliver pf m st"
| "session_step pf Requests st = requester_step pf st"
| "session_step pf Serves st = sender_step pf st"
| "session_step pf (Scanned m) st = local_changed pf (on_service (set_local_manifest m) st)"
| "session_step pf (Patched p) st =
     (if patch_empty p then st else local_changed pf (on_service (apply_local_patch p) st))"
| "session_step pf (Edited d) st = on_service (\<lambda>sv. sv\<lparr>sv_disk := d\<rparr>) st"
| "session_step pf Stops st = stop pf st"

text \<open>A history: each step with what the system answers to its calls, which may differ from one step to the next.\<close>

definition session_run :: "(platform \<times> session_input) list \<Rightarrow> session \<Rightarrow> session" where
  "session_run = fold (\<lambda>(pf, i). session_step pf i)"

lemma session_run_simps [simp]:
  "session_run [] st = st"
  "session_run ((pf, i) # ins) st = session_run ins (session_step pf i st)"
  "session_run (ins @ [(pf, i)]) st = session_step pf i (session_run ins st)"
  by (simp_all add: session_run_def)

end
