(* ===== verification/Session_Update.thy ===== *)
theory Session_Update
  imports Session
begin

text \<open>
  How one peer's tree reaches the other: an update is cut into chunks on the sending side and
  assembled aside on the receiving side, so that the receiver's view moves from one complete tree
  to the next.
\<close>

unbundle bit_operations_syntax

section \<open>What sending leaves alone\<close>

named_theorems frame

text \<open>A session up to the messages it sent and the counters over them.\<close>

definition mute :: "session \<Rightarrow> session" where
  "mute st = st\<lparr>ss_out := [], ss_service := (ss_service st)\<lparr>sv_advert_messages := 0, sv_advert_bytes := 0\<rparr>\<rparr>"

lemma mute_fields:
  assumes "mute s = mute t"
  shows "ss_incompatible s = ss_incompatible t" "ss_remote s = ss_remote t"
    "ss_have_remote s = ss_have_remote t" "ss_remote_version s = ss_remote_version t"
    "ss_staging s = ss_staging t" "ss_staging_active s = ss_staging_active t"
    "ss_last_sent s = ss_last_sent t" "ss_last_sent_valid s = ss_last_sent_valid t"
    "ss_last_sent_version s = ss_last_sent_version t" "ss_last_synced s = ss_last_synced t"
    "ss_last_eval s = ss_last_eval t" "ss_pulling s = ss_pulling t" "ss_pull_queue s = ss_pull_queue t"
    "ss_incoming s = ss_incoming t" "ss_serve_q s = ss_serve_q t" "ss_running s = ss_running t"
    "ss_outstanding_serves s = ss_outstanding_serves t" "ss_events s = ss_events t"
    "ss_cur_xid s = ss_cur_xid t" "ss_cur_sent s = ss_cur_sent t" "ss_cur_acked s = ss_cur_acked t"
    "ss_next_xid s = ss_next_xid t" "ss_advertise_pending s = ss_advertise_pending t"
    "sv_config (ss_service s) = sv_config (ss_service t)" "sv_tag (ss_service s) = sv_tag (ss_service t)"
    "sv_local (ss_service s) = sv_local (ss_service t)" "sv_base (ss_service s) = sv_base (ss_service t)"
    "sv_version (ss_service s) = sv_version (ss_service t)" "sv_disk (ss_service s) = sv_disk (ss_service t)"
    "sv_temp (ss_service s) = sv_temp (ss_service t)"
    "sv_baseline_file (ss_service s) = sv_baseline_file (ss_service t)"
  using assms by (cases s; cases t; cases "ss_service s"; cases "ss_service t"; simp add: mute_def)+

lemma mute_send [simp]: "mute (send_msg w st) = mute st" "mute (on_service (note_advert_sent n) st) = mute st"
  by (simp_all add: mute_def send_msg_def note_advert_sent_def)

section \<open>Cutting\<close>

text \<open>A patch as the sequence of changes it applies.\<close>

definition changes :: "manifest_patch \<Rightarrow> (path \<times> file_meta + path) list" where
  "changes p = map Inl (mp_set p) @ map Inr (mp_removed p)"

fun apply_change :: "path \<times> file_meta + path \<Rightarrow> manifest \<Rightarrow> manifest" where
  "apply_change (Inl e) m = om_assign (fst e) (snd e) m"
| "apply_change (Inr p) m = om_erase p m"

lemma man_apply_changes: "man_apply p m = fold apply_change (changes p) m"
proof -
  have "fold apply_change (map Inl es) m = fold (\<lambda>e. om_assign (fst e) (snd e)) es m" for es m
    by (induction es arbitrary: m) simp_all
  moreover have "fold apply_change (map Inr ps) m = fold om_erase ps m" for ps m
    by (induction ps arbitrary: m) simp_all
  ultimately show ?thesis
    by (simp add: man_apply_def changes_def)
qed

definition update_message :: "u32 \<Rightarrow> u8 \<Rightarrow> manifest_patch \<Rightarrow> bytes" where
  "update_message ft flags c = patch_encode c (w_u8 flags (message ft ManifestUpdate))"

text \<open>The messages of chunks that all have a successor.\<close>

fun open_chunks :: "u32 \<Rightarrow> bool \<Rightarrow> manifest_patch list \<Rightarrow> bytes list" where
  "open_chunks ft reset [] = []"
| "open_chunks ft reset (c # cs) = update_message ft (update_flags reset True) c # open_chunks ft False cs"

lemma open_chunks_snoc:
  "open_chunks ft reset (cs @ [c]) =
     open_chunks ft reset cs @ [update_message ft (update_flags (cs = [] \<and> reset) True) c]"
  by (induction cs arbitrary: reset) auto

text \<open>Where the cutting stands: what has been sent, and that sent and pending changes are the ones
  pushed so far.\<close>

definition cut_at :: "bool \<Rightarrow> session \<Rightarrow> (path \<times> file_meta + path) list \<Rightarrow> manifest_patch list \<Rightarrow>
    chunking \<times> session \<Rightarrow> bool" where
  "cut_at reset st pushed cs cur \<longleftrightarrow>
     mute (snd cur) = mute st \<and>
     ss_out (snd cur) = ss_out st @ open_chunks (sv_tag (ss_service st)) reset cs \<and>
     concat (map changes cs) @ changes (ck_chunk (fst cur)) = pushed \<and>
     (ck_first (fst cur) \<longleftrightarrow> cs = [])"

lemma flush_message:
  "fst (flush reset follows (ck, st)) = \<lparr>ck_chunk = empty_patch, ck_est = 0, ck_first = False\<rparr>"
  "mute (snd (flush reset follows (ck, st))) = mute st"
  "ss_out (snd (flush reset follows (ck, st))) = ss_out st @
     [update_message (sv_tag (ss_service st)) (update_flags (ck_first ck \<and> reset) follows) (ck_chunk ck)]"
  by (simp_all add: flush_def update_message_def msg_def Let_def send_msg_def note_advert_sent_def mute_def)

lemma changes_empty [simp]: "changes empty_patch = []"
  by (simp add: changes_def empty_patch_def)

lemma cut_at_flush:
  assumes "cut_at reset st pushed cs (ck, cur)"
  shows "cut_at reset st pushed (cs @ [ck_chunk ck]) (flush reset True (ck, cur))"
proof -
  have "sv_tag (ss_service cur) = sv_tag (ss_service st)"
    using mute_fields(25) [of cur st] assms by (simp add: cut_at_def)
  moreover have "ck_first ck \<and> reset \<longleftrightarrow> cs = [] \<and> reset"
    using assms by (simp add: cut_at_def)
  ultimately show ?thesis
    using assms unfolding cut_at_def flush_message fst_conv snd_conv
    by (simp only: open_chunks_snoc) simp
qed

lemma push_set_cut:
  assumes "cut_at reset st pushed cs cur" "mp_removed (ck_chunk (fst cur)) = []"
  shows "\<exists>cs'. cut_at reset st (pushed @ [Inl e]) cs' (push_set reset e cur)
    \<and> mp_removed (ck_chunk (fst (push_set reset e cur))) = []"
proof -
  obtain ck s where cur: "cur = (ck, s)" by force
  let ?ck = "ck\<lparr>ck_chunk := (ck_chunk ck)\<lparr>mp_set := mp_set (ck_chunk ck) @ [e]\<rparr>,
      ck_est := ck_est ck + kFixedEntryBytes + length (fst e)\<rparr>"
  have added: "cut_at reset st (pushed @ [Inl e]) cs (?ck, s)"
    using assms by (auto simp: cur cut_at_def changes_def)
  show ?thesis
  proof (cases "ck_est ck + kFixedEntryBytes + length (fst e) \<ge> cf_max_update_bytes (config s)")
    case True
    then show ?thesis
      using cut_at_flush [OF added] by (auto simp: cur push_set_def Let_def flush_message empty_patch_def)
  next
    case False
    then show ?thesis
      using added assms(2) by (auto simp: cur push_set_def Let_def)
  qed
qed

lemma push_removed_cut:
  assumes "cut_at reset st pushed cs cur"
  shows "\<exists>cs'. cut_at reset st (pushed @ [Inr p]) cs' (push_removed reset p cur)"
proof -
  obtain ck s where cur: "cur = (ck, s)" by force
  let ?ck = "ck\<lparr>ck_chunk := (ck_chunk ck)\<lparr>mp_removed := mp_removed (ck_chunk ck) @ [p]\<rparr>,
      ck_est := ck_est ck + 2 + length p\<rparr>"
  have added: "cut_at reset st (pushed @ [Inr p]) cs (?ck, s)"
    using assms by (auto simp: cur cut_at_def changes_def)
  show ?thesis
    using cut_at_flush [OF added] added by (auto simp: cur push_removed_def Let_def)
qed

lemma push_all_sets:
  "cut_at reset st pushed cs cur \<Longrightarrow> mp_removed (ck_chunk (fst cur)) = [] \<Longrightarrow>
   \<exists>cs'. cut_at reset st (pushed @ map Inl es) cs' (fold (push_set reset) es cur)"
proof (induction es arbitrary: pushed cs cur)
  case (Cons e es)
  from push_set_cut [OF Cons.prems] Cons.IH show ?case
    by fastforce
qed auto

lemma push_all_removed:
  "cut_at reset st pushed cs cur \<Longrightarrow>
   \<exists>cs'. cut_at reset st (pushed @ map Inr ps) cs' (fold (push_removed reset) ps cur)"
proof (induction ps arbitrary: pushed cs cur)
  case (Cons p ps)
  from push_removed_cut [OF Cons.prems] Cons.IH show ?case
    by fastforce
qed auto

text \<open>What an update puts on the wire: some open chunks, and one that closes it.\<close>

lemma send_update_chunks:
  "\<exists>cs c. ss_out (send_update patch reset st) = ss_out st @ open_chunks (sv_tag (ss_service st)) reset cs @
      [update_message (sv_tag (ss_service st)) (update_flags (cs = [] \<and> reset) False) c]
    \<and> concat (map changes cs) @ changes c = changes patch \<and> mute (send_update patch reset st) = mute st"
proof -
  let ?init = "(\<lparr>ck_chunk = empty_patch, ck_est = 0, ck_first = True\<rparr>, st)"
  have "cut_at reset st [] [] ?init"
    by (simp add: cut_at_def)
  from push_all_sets [OF this, of "mp_set patch"] obtain cs where
    "cut_at reset st (map Inl (mp_set patch)) cs (fold (push_set reset) (mp_set patch) ?init)"
    by (auto simp: empty_patch_def)
  from push_all_removed [OF this, of "mp_removed patch"] obtain cs ck cur where cut:
    "cut_at reset st (changes patch) cs (ck, cur)"
    "(ck, cur) = fold (push_removed reset) (mp_removed patch) (fold (push_set reset) (mp_set patch) ?init)"
    by (metis changes_def prod.exhaust)
  then have "send_update patch reset st = snd (flush reset False (ck, cur))"
    by (simp add: send_update_def Let_def)
  moreover have "sv_tag (ss_service cur) = sv_tag (ss_service st)"
    using mute_fields(25) [of cur st] cut(1) by (simp add: cut_at_def)
  ultimately show ?thesis
    using cut(1) by (intro exI [of _ cs] exI [of _ "ck_chunk ck"]) (simp add: cut_at_def flush_message)
qed

lemma send_update_mute: "mute (send_update patch reset st) = mute st"
  using send_update_chunks by blast

lemmas send_update_frame [frame] = mute_fields [OF send_update_mute]

lemma advertise_frame [frame]:
  "sv_tag (ss_service (advertise st)) = sv_tag (ss_service st)"
  "sv_local (ss_service (advertise st)) = sv_local (ss_service st)"
  by (simp_all add: advertise_def Let_def frame)

section \<open>What a round leaves alone\<close>

text \<open>The receiving half of a session: the peer's tree as described, and how far an update has come.\<close>

definition view :: "session \<Rightarrow> manifest \<times> bool \<times> u64 \<times> manifest \<times> bool \<times> bool \<times> sync_config \<times> u32" where
  "view st = (ss_remote st, ss_have_remote st, ss_remote_version st, ss_staging st, ss_staging_active st,
     ss_incompatible st, config st, sv_tag (ss_service st))"

lemma view_advertise [frame]: "view (advertise st) = view st"
  by (simp add: view_def advertise_def Let_def frame)

lemma view_announce [frame]: "view (announce_synced pf st) = view st"
  by (simp add: announce_synced_def Let_def view_def set_base_manifest_def bump_def emit_def)

lemma view_evaluate [frame]: "view (evaluate pf st) = view st"
  by (simp add: evaluate_def Let_def frame) (simp add: view_def)

lemma view_maybe_synced [frame]: "view (maybe_synced pf st) = view st"
  by (simp add: maybe_synced_def frame) (simp add: view_def)

lemma view_queue_pulls [frame]: "view (fold queue_pull ps st) = view st"
  by (induction ps arbitrary: st) (simp_all add: queue_pull_def view_def)

lemma view_deletes [frame]: "view (fst (fold (delete_local pf) ps sm)) = view (fst sm)"
  by (induction ps arbitrary: sm) (simp_all add: delete_local_def view_def note_local_removed_def bump_def)

lemma view_emit [frame]: "view (emit ev st) = view st"
  by (simp add: view_def emit_def)

lemma view_reconcile [frame]: "view (reconcile_and_act pf st) = view st"
proof -
  let ?plan = "reconcile (sv_base (ss_service st)) (sv_local (ss_service st)) (ss_remote st) (opts_of (config st))"
  obtain st1 mutated where del: "fold (delete_local pf) (pl_delete_local ?plan) (emit (Round ?plan) st, False) = (st1, mutated)"
    by force
  then have "view st1 = view st"
    using view_deletes [of pf "pl_delete_local ?plan" "(emit (Round ?plan) st, False)"] by (simp add: frame)
  then show ?thesis
    using del by (simp add: reconcile_and_act_def Let_def frame)
qed

lemma view_fields:
  assumes "view s = view t"
  shows "ss_remote s = ss_remote t" "ss_have_remote s = ss_have_remote t"
    "ss_staging s = ss_staging t" "ss_staging_active s = ss_staging_active t"
    "ss_incompatible s = ss_incompatible t" "sv_tag (ss_service s) = sv_tag (ss_service t)"
    "config s = config t"
  using assms by (simp_all add: view_def)

section \<open>Assembling\<close>

definition safe_patch :: "manifest_patch \<Rightarrow> bool" where
  "safe_patch p \<longleftrightarrow> list_all (\<lambda>e. is_safe_relpath (fst e)) (mp_set p)"

definition step_update :: "platform \<Rightarrow> u8 \<Rightarrow> manifest_patch \<Rightarrow> session \<Rightarrow> session" where
  "step_update pf flags patch st =
     (case stage_update flags patch st of (st, committed) \<Rightarrow>
        if committed then reconcile_and_act pf st else st)"

lemma deliver_update:
  assumes "\<not> ss_incompatible st" "valid_patch c" "safe_patch c"
  shows "deliver pf (update_message (sv_tag (ss_service st)) flags c) st = step_update pf flags c st"
proof -
  let ?t = "sv_tag (ss_service st)"
  have msg: "update_message ?t flags c = be32 ?t @ op_code ManifestUpdate # flags # patch_encode c []"
    using patch_encode_bytes [of c "be32 ?t @ [op_code ManifestUpdate, flags]"] patch_encode_bytes [of c "[]"]
    by (simp add: update_message_def codec_simps)
  have "sanitize c = c"
    using assms(3) by (simp add: sanitize_def safe_patch_def list_all_iff)
  then show ?thesis
    using assms(1) patch_decode_encode [OF assms(2), of "[]"]
    by (simp add: deliver_def msg reader_of_def codec_simps kHeaderBytes_def Let_def handle_def
        handle_manifest_update_def step_update_def split: prod.splits)
qed

lemma update_flags_bits [simp]:
  "update_flags reset follows AND kUpdateReset \<noteq> 0 \<longleftrightarrow> reset"
  "update_flags reset follows AND kUpdateMore \<noteq> 0 \<longleftrightarrow> follows"
  by (cases reset; cases follows; simp add: update_flags_def kUpdateReset_def kUpdateMore_def)+

text \<open>What the next chunk is applied to.\<close>

definition under_way :: "bool \<Rightarrow> session \<Rightarrow> manifest" where
  "under_way reset st = (if reset then [] else if ss_staging_active st then ss_staging st else ss_remote st)"

lemma step_open:
  "step_update pf (update_flags reset True) c st =
     st\<lparr>ss_staging := man_apply c (under_way reset st), ss_staging_active := True\<rparr>"
  by (cases reset) (simp_all add: step_update_def stage_update_def Let_def under_way_def)

definition good_patch :: "manifest_patch \<Rightarrow> bool" where
  "good_patch p \<longleftrightarrow> valid_patch p \<and> safe_patch p"

lemma deliver_open_chunks:
  assumes "list_all good_patch cs" "cs \<noteq> []" "\<not> ss_incompatible st" "ft = sv_tag (ss_service st)"
  shows "fold (deliver pf) (open_chunks ft reset cs) st =
    st\<lparr>ss_staging := fold apply_change (concat (map changes cs)) (under_way reset st), ss_staging_active := True\<rparr>"
  using assms
proof (induction cs arbitrary: reset st)
  case (Cons c cs)
  let ?st = "st\<lparr>ss_staging := man_apply c (under_way reset st), ss_staging_active := True\<rparr>"
  have first: "deliver pf (update_message ft (update_flags reset True) c) st = ?st"
    using Cons.prems deliver_update [of st c pf] by (simp add: good_patch_def step_open)
  have "under_way False ?st = man_apply c (under_way reset st)"
    by (simp add: under_way_def)
  then have rest: "fold (deliver pf) (open_chunks ft False cs) ?st =
      st\<lparr>ss_staging := fold apply_change (concat (map changes cs)) (man_apply c (under_way reset st)), ss_staging_active := True\<rparr>"
    if "cs \<noteq> []"
    using Cons.IH [of ?st False] Cons.prems that by simp
  show ?case
    using rest by (cases "cs = []") (simp_all add: first man_apply_changes)
qed simp

lemma take_open_chunks: "take k (open_chunks ft reset cs) = open_chunks ft reset (take k cs)"
  by (induction cs arbitrary: k reset) (auto simp: take_Cons split: nat.splits)

definition good_change :: "path \<times> file_meta + path \<Rightarrow> bool" where
  "good_change x = (case x of Inl e \<Rightarrow> valid_entry e \<and> is_safe_relpath (fst e) | Inr p \<Rightarrow> valid_removed p)"

lemma good_patch_changes:
  "good_patch p \<longleftrightarrow> list_all good_change (changes p) \<and> length (mp_set p) < 2 ^ 32 \<and> length (mp_removed p) < 2 ^ 32"
  by (simp add: good_patch_def valid_patch_def safe_patch_def good_change_def changes_def list_all_iff ball_Un) blast

lemma length_lefts: "length (mp_set p) = length (filter isl (changes p))"
  "length (mp_removed p) = length (filter (\<lambda>x. \<not> isl x) (changes p))"
  by (simp_all add: changes_def filter_map comp_def)

lemma good_pieces:
  assumes "good_patch p" "concat (map changes cs) @ changes c = changes p"
  shows "list_all good_patch cs \<and> good_patch c"
proof -
  have "good_patch d" if d: "d \<in> set (cs @ [c])" for d
  proof -
    obtain us vs where eq: "cs @ [c] = us @ d # vs"
      using split_list [OF d] by blast
    have split: "changes p = concat (map changes us) @ changes d @ concat (map changes vs)"
      using arg_cong [OF eq, of "\<lambda>xs. concat (map changes xs)"] assms(2) by simp
    then have "length (mp_set d) \<le> length (mp_set p)" "length (mp_removed d) \<le> length (mp_removed p)"
      by (simp_all only: length_lefts filter_append length_append)
    moreover have "list_all good_change (changes d)"
      using assms(1) by (simp add: good_patch_changes split)
    ultimately show ?thesis
      using assms(1) by (simp add: good_patch_changes)
  qed
  then show ?thesis
    by (simp add: list_all_iff)
qed

text \<open>A whole update, delivered in order: nothing but the staging area moves before the last message,
  which commits the tree and starts one round.\<close>

definition committed :: "manifest \<Rightarrow> manifest \<Rightarrow> session \<Rightarrow> session" where
  "committed staged m st = st\<lparr>ss_remote := m, ss_staging := staged, ss_staging_active := False,
     ss_have_remote := True, ss_remote_version := ss_remote_version st + 1\<rparr>"

lemma step_close_commits:
  "step_update pf (update_flags reset False) c st = reconcile_and_act pf
     (committed (if reset \<or> ss_staging_active st then [] else ss_staging st) (man_apply c (under_way reset st)) st)"
  by (cases st; cases reset) (auto simp: step_update_def stage_update_def Let_def under_way_def committed_def)

lemma update_arrives:
  fixes sender receiver
  assumes "good_patch patch" "\<not> ss_incompatible receiver"
    and "sv_tag (ss_service receiver) = sv_tag (ss_service sender)" "\<not> ss_staging_active receiver"
    and "ss_out (send_update patch reset sender) = ss_out sender @ out"
  obtains staged where "fold (deliver pf) out receiver = reconcile_and_act pf
      (committed staged (man_apply patch (if reset then [] else ss_remote receiver)) receiver)"
    "\<forall>k < length out. ss_remote (fold (deliver pf) (take k out) receiver) = ss_remote receiver
        \<and> ss_have_remote (fold (deliver pf) (take k out) receiver) = ss_have_remote receiver"
proof -
  let ?t = "sv_tag (ss_service sender)"
  obtain cs c where out: "out = open_chunks ?t reset cs @ [update_message ?t (update_flags (cs = [] \<and> reset) False) c]"
    and changes: "concat (map changes cs) @ changes c = changes patch"
    using send_update_chunks [of patch reset sender] assms(5) by auto
  have good: "list_all good_patch cs" "good_patch c"
    using good_pieces [OF assms(1) changes] by simp_all
  define mid where "mid = (if cs = [] then receiver else
    receiver\<lparr>ss_staging := fold apply_change (concat (map changes cs)) (under_way reset receiver), ss_staging_active := True\<rparr>)"
  have mid: "fold (deliver pf) (open_chunks ?t reset cs) receiver = mid"
    using deliver_open_chunks [OF good(1), of receiver ?t pf reset] assms(2,3) by (simp add: mid_def)
  have "\<not> ss_incompatible mid" "sv_tag (ss_service mid) = ?t"
    using assms(2,3) by (simp_all add: mid_def)
  then have last: "fold (deliver pf) out receiver = step_update pf (update_flags (cs = [] \<and> reset) False) c mid"
    using deliver_update [of mid c pf] good(2) by (simp add: out mid good_patch_def)
  have "under_way reset receiver = (if reset then [] else ss_remote receiver)"
    using assms(4) by (simp add: under_way_def)
  then have "under_way (cs = [] \<and> reset) mid = fold apply_change (concat (map changes cs)) (if reset then [] else ss_remote receiver)"
    using assms(4) by (auto simp: mid_def under_way_def)
  then have tree: "man_apply c (under_way (cs = [] \<and> reset) mid) = man_apply patch (if reset then [] else ss_remote receiver)"
    by (simp add: man_apply_changes flip: changes)
  have "committed staged m mid = committed staged m receiver" for staged m
    by (simp add: mid_def committed_def)
  then have "fold (deliver pf) out receiver = reconcile_and_act pf
      (committed (if (cs = [] \<and> reset) \<or> ss_staging_active mid then [] else ss_staging mid)
        (man_apply patch (if reset then [] else ss_remote receiver)) receiver)"
    unfolding last step_close_commits tree by simp
  moreover have "ss_remote (fold (deliver pf) (take k out) receiver) = ss_remote receiver
      \<and> ss_have_remote (fold (deliver pf) (take k out) receiver) = ss_have_remote receiver" if "k < length out" for k
  proof -
    have "take k out = open_chunks ?t reset (take k cs)"
      using that by (simp add: out take_open_chunks)
    moreover have "list_all good_patch (take k cs)"
      using good(1) by (simp add: list_all_iff) (meson in_set_takeD)
    ultimately show ?thesis
      using deliver_open_chunks [of "take k cs" receiver ?t pf reset] assms(2,3)
      by (cases "take k cs = []") auto
  qed
  ultimately show thesis
    using that by blast
qed

lemma deliver_update_all:
  fixes sender receiver
  assumes "good_patch patch" "ss_out sender = []" "\<not> ss_incompatible receiver"
    and "sv_tag (ss_service receiver) = sv_tag (ss_service sender)" "\<not> ss_staging_active receiver"
    and "out = ss_out (send_update patch reset sender)"
  shows "ss_remote (fold (deliver pf) out receiver) = man_apply patch (if reset then [] else ss_remote receiver)
    \<and> \<not> ss_staging_active (fold (deliver pf) out receiver) \<and> ss_have_remote (fold (deliver pf) out receiver)
    \<and> \<not> ss_incompatible (fold (deliver pf) out receiver)
    \<and> sv_tag (ss_service (fold (deliver pf) out receiver)) = sv_tag (ss_service receiver)
    \<and> (\<forall>k < length out. ss_remote (fold (deliver pf) (take k out) receiver) = ss_remote receiver
        \<and> ss_have_remote (fold (deliver pf) (take k out) receiver) = ss_have_remote receiver)"
proof -
  obtain staged where whole: "fold (deliver pf) out receiver = reconcile_and_act pf
      (committed staged (man_apply patch (if reset then [] else ss_remote receiver)) receiver)"
    and part: "\<forall>k < length out. ss_remote (fold (deliver pf) (take k out) receiver) = ss_remote receiver
        \<and> ss_have_remote (fold (deliver pf) (take k out) receiver) = ss_have_remote receiver"
    by (rule update_arrives [OF assms(1,3-5), of reset out]) (simp add: assms(2,6))
  show ?thesis
    using part view_fields [OF view_reconcile] assms(3) by (simp add: whole) (simp add: committed_def)
qed

section \<open>Properties\<close>

definition syncable :: "manifest \<Rightarrow> bool" where
  "syncable m \<longleftrightarrow> valid_manifest m \<and> list_all (\<lambda>e. is_safe_relpath (fst e)) m"

lemma good_patch_whole: "syncable m \<Longrightarrow> good_patch \<lparr>mp_set = m, mp_removed = []\<rparr>"
  by (simp add: syncable_def valid_manifest_def good_patch_def valid_patch_def safe_patch_def)

lemma good_patch_diff: "valid_manifest old \<Longrightarrow> syncable m \<Longrightarrow> good_patch (diff_manifests old m)"
  using valid_patch_diff [of old m]
  by (auto simp: syncable_def valid_manifest_def good_patch_def safe_patch_def diff_manifests_set list_all_iff)

text \<open>What a sender has told the peer, as far as the two ends can know.\<close>

definition in_step :: "session \<Rightarrow> session \<Rightarrow> bool" where
  "in_step sender receiver \<longleftrightarrow>
     sv_tag (ss_service receiver) = sv_tag (ss_service sender) \<and> \<not> ss_incompatible receiver
     \<and> \<not> ss_staging_active receiver
     \<and> (ss_last_sent_valid sender \<longrightarrow>
          valid_manifest (ss_last_sent sender) \<and> ss_remote receiver = ss_last_sent sender
          \<and> (ss_last_sent_version sender = sv_version (ss_service sender) \<longrightarrow>
               ss_last_sent sender = sv_local (ss_service sender)))"

lemma man_apply_whole:
  assumes "om_inv m"
  shows "man_apply \<lparr>mp_set = m, mp_removed = []\<rparr> [] = m"
proof (rule om.find_inject)
  show "om_inv (man_apply \<lparr>mp_set = m, mp_removed = []\<rparr> [])"
    using om.inv_assign_all [of "[]" m] by (simp add: man_apply_def om.inv_empty)
  show "om_inv m" by (rule assms)
  have "map_of (rev m) = map_of m"
    using assms by (intro map_of_rev_distinct) (simp add: om_inv_iff strict_sorted_iff)
  then show "om_find (man_apply \<lparr>mp_set = m, mp_removed = []\<rparr> []) = om_find m"
    using om.find_assign_all [of "[]" m] by (simp add: man_apply_def om.inv_empty om_find_map_of)
qed

text \<open>An advertisement either has nothing to say, or sends the update from what the peer has to the
  local tree.\<close>

definition next_patch :: "session \<Rightarrow> manifest_patch" where
  "next_patch st = (if ss_last_sent_valid st then diff_manifests (ss_last_sent st) (sv_local (ss_service st))
     else \<lparr>mp_set = sv_local (ss_service st), mp_removed = []\<rparr>)"

lemma advertise_cases:
  obtains (silent) "ss_last_sent_valid st" "ss_last_sent_version st = sv_version (ss_service st) \<or> patch_empty (next_patch st)"
      "ss_out (advertise st) = ss_out st" "ss_last_sent (advertise st) = ss_last_sent st" "ss_last_sent_valid (advertise st)"
  | (speaks) "ss_out (advertise st) = ss_out (send_update (next_patch st) (\<not> ss_last_sent_valid st)
        (st\<lparr>ss_last_sent_version := sv_version (ss_service st)\<rparr>))"
      "ss_last_sent (advertise st) = sv_local (ss_service st)" "ss_last_sent_valid (advertise st)"
  by (cases "ss_last_sent_valid st"; cases "ss_last_sent_version st = sv_version (ss_service st)";
      cases "patch_empty (next_patch st)")
    (auto simp: advertise_def next_patch_def Let_def frame)

lemma next_patch_good:
  assumes "in_step sender receiver" "syncable (sv_local (ss_service sender))"
  shows "good_patch (next_patch sender)
    \<and> man_apply (next_patch sender) (if \<not> ss_last_sent_valid sender then [] else ss_remote receiver) = sv_local (ss_service sender)"
proof (cases "ss_last_sent_valid sender")
  case True
  then show ?thesis
    using assms good_patch_diff man_apply_diff [of "ss_last_sent sender" "sv_local (ss_service sender)"]
    by (simp add: next_patch_def in_step_def syncable_def valid_manifest_def)
next
  case False
  then show ?thesis
    using assms good_patch_whole man_apply_whole by (simp add: next_patch_def syncable_def valid_manifest_def)
qed

text \<open>C5. Advertising is exact and atomic: whatever the size limit cuts the update into, once all its
  messages are delivered the peer holds exactly our tree, and at every point before the last one its
  view is still the previous complete tree, so no round ever sees half an update. It covers the
  first update of a session and every incremental one.\<close>

theorem advertise_exact_atomic:
  assumes "in_step sender receiver" "syncable (sv_local (ss_service sender))" "ss_out sender = []"
  shows "ss_remote (fold (deliver pf) (ss_out (advertise sender)) receiver) = sv_local (ss_service sender)
    \<and> (\<forall>k < length (ss_out (advertise sender)).
        ss_remote (fold (deliver pf) (take k (ss_out (advertise sender))) receiver) = ss_remote receiver)
    \<and> in_step (advertise sender) (fold (deliver pf) (ss_out (advertise sender)) receiver)"
proof (cases rule: advertise_cases [of sender])
  case silent
  have "ss_remote receiver = sv_local (ss_service sender)" "ss_last_sent sender = sv_local (ss_service sender)"
    using silent(1,2) assms(1,2) diff_manifests_empty_iff [of "ss_last_sent sender" "sv_local (ss_service sender)"]
    by (auto simp: in_step_def next_patch_def syncable_def valid_manifest_def)
  then show ?thesis
    using silent assms by (simp add: in_step_def frame)
next
  case speaks
  let ?sender = "sender\<lparr>ss_last_sent_version := sv_version (ss_service sender)\<rparr>"
  let ?out = "ss_out (advertise sender)"
  note goes = next_patch_good [OF assms(1,2)]
  have "ss_out ?sender = []" "\<not> ss_incompatible receiver" "\<not> ss_staging_active receiver"
    "sv_tag (ss_service receiver) = sv_tag (ss_service ?sender)"
    using assms by (simp_all add: in_step_def)
  from deliver_update_all [OF goes [THEN conjunct1] this(1,2,4,3) speaks(1), of pf] goes
  show ?thesis
    using speaks(2,3) assms by (simp add: in_step_def syncable_def frame)
qed

theorem advertise_exact_atomic_witness:
  "\<forall>pf. ss_remote (fold (deliver pf) (ss_out (advertise (sample_session [([97], sample_meta)]))) (sample_session []))
     = [([97], sample_meta)]"
proof
  fix pf
  have "in_step (sample_session [([97], sample_meta)]) (sample_session [])"
    by (simp add: in_step_def sample_session_def new_session_def new_service_def Let_def)
  moreover have "syncable (sv_local (ss_service (sample_session [([97], sample_meta)])))"
    by (simp add: syncable_def sample_session_def new_session_def is_safe_relpath_def safe_segments.simps)
  moreover have "ss_out (sample_session [([97], sample_meta)]) = []"
    by (simp add: sample_session_def new_session_def)
  ultimately have "ss_remote (fold (deliver pf) (ss_out (advertise (sample_session [([97], sample_meta)])))
      (sample_session [])) = sv_local (ss_service (sample_session [([97], sample_meta)]))"
    using advertise_exact_atomic by blast
  also have "\<dots> = [([97], sample_meta)]"
    by (simp add: sample_session_def new_session_def)
  finally show "ss_remote (fold (deliver pf) (ss_out (advertise (sample_session [([97], sample_meta)])))
      (sample_session [])) = [([97], sample_meta)]" .
qed

end
