(* ===== verification/Session_Transfer.thy ===== *)
theory Session_Transfer
  imports Session_Update
begin

text \<open>
  One file from one peer to the other: the messages a serve puts on the wire, and what the receiving
  handlers make of them, for whole files and for deltas; and what holds of the receiving side
  whatever bytes arrive.
\<close>

section \<open>What a convergence check leaves alone\<close>

definition own :: "session \<Rightarrow> (path \<Rightarrow> disk_file option) \<times> manifest \<times> (u64 \<Rightarrow> bytes option) \<times> path list \<times>
    path list \<times> (u64, incoming) omap" where
  "own st = (sv_disk (ss_service st), sv_local (ss_service st), sv_temp (ss_service st), ss_pulling st,
     ss_pull_queue st, ss_incoming st)"

lemma own_fields:
  assumes "own s = own t"
  shows "sv_disk (ss_service s) = sv_disk (ss_service t)" "sv_local (ss_service s) = sv_local (ss_service t)"
    "sv_temp (ss_service s) = sv_temp (ss_service t)" "ss_pulling s = ss_pulling t"
    "ss_pull_queue s = ss_pull_queue t" "ss_incoming s = ss_incoming t"
  using assms by (simp_all add: own_def)

lemma own_advertise [frame]: "own (advertise st) = own st"
  by (simp add: own_def advertise_def Let_def frame)

lemma own_announce [frame]: "own (announce_synced pf st) = own st"
  by (simp add: announce_synced_def Let_def own_def set_base_manifest_def bump_def emit_def)

lemma own_evaluate [frame]: "own (evaluate pf st) = own st"
  by (simp add: evaluate_def Let_def frame) (simp add: own_def)

lemma own_maybe_synced [frame]: "own (maybe_synced pf st) = own st"
  by (simp add: maybe_synced_def frame) (simp add: own_def)

lemmas own_maybe_synced_fields [frame] = own_fields [OF own_maybe_synced]
lemmas view_maybe_synced_fields [frame] = view_fields [OF view_maybe_synced]

section \<open>The messages no transfer depends on\<close>

text \<open>Parts of an update and acknowledgements: the only messages a round or a receiving transfer
  produces on its own.\<close>

definition quiet :: "bytes \<Rightarrow> bool" where
  "quiet m \<longleftrightarrow> (\<exists>t op body. m = message t op @ body \<and> (op = ManifestUpdate \<or> op = FileAck))"

definition hushed :: "session \<Rightarrow> bool" where
  "hushed st \<longleftrightarrow> list_all quiet (ss_out st)"

lemma quiet_update: "quiet (update_message ft flags c)"
proof -
  have "update_message ft flags c = message ft ManifestUpdate @ flags # patch_encode c []"
    using patch_encode_bytes [of c "w_u8 flags (message ft ManifestUpdate)"] patch_encode_bytes [of c "[]"]
    by (simp add: update_message_def codec_simps)
  then show ?thesis
    by (auto simp: quiet_def)
qed

lemma quiet_chunks: "list_all quiet (open_chunks ft reset cs)"
  by (induction cs arbitrary: reset) (simp_all add: quiet_update)

lemma quiet_ack: "quiet (file_ack st xid n)"
proof -
  have "file_ack st xid n = message (sv_tag (ss_service st)) FileAck @ be64 xid @ be64 n"
    by (simp add: file_ack_def msg_def codec_simps)
  then show ?thesis
    by (auto simp: quiet_def)
qed

text \<open>All a receiving transfer sends is acknowledgements.\<close>

definition is_ack :: "bytes \<Rightarrow> bool" where
  "is_ack m \<longleftrightarrow> (\<exists>st xid n. m = file_ack st xid n)"

lemma is_ack_ack [simp]: "is_ack (file_ack st xid n)"
  unfolding is_ack_def by blast

definition acked :: "session \<Rightarrow> session \<Rightarrow> bool" where
  "acked st cur \<longleftrightarrow> (\<exists>acks. ss_out cur = ss_out st @ acks \<and> list_all is_ack acks)"

lemma acked_refl [simp]: "acked st st"
  by (simp add: acked_def)

lemma acked_out: "ss_out cur = ss_out cur' \<Longrightarrow> acked st cur = acked st cur'"
  by (simp add: acked_def)

lemma acked_ack [simp]: "acked st cur \<Longrightarrow> acked st (send_msg (file_ack s xid n) cur)"
  by (auto simp: acked_def send_msg_def)

lemma hushed_advertise: "hushed st \<Longrightarrow> hushed (advertise st)"
proof (cases rule: advertise_cases [of st])
  case speaks
  assume "hushed st"
  then show ?thesis
    using send_update_chunks [of "next_patch st" "\<not> ss_last_sent_valid st"
        "st\<lparr>ss_last_sent_version := sv_version (ss_service st)\<rparr>"] speaks(1)
    by (auto simp: hushed_def quiet_chunks quiet_update)
qed (simp add: hushed_def)

lemma out_announce: "ss_out (announce_synced pf st) = ss_out st"
  by (simp add: announce_synced_def Let_def emit_def)

lemma out_evaluate: "ss_out (evaluate pf st) = ss_out st"
  by (simp add: evaluate_def Let_def out_announce)

lemma hushed_maybe_synced: "hushed st \<Longrightarrow> hushed (maybe_synced pf st)"
  using hushed_advertise [of st] by (simp add: maybe_synced_def hushed_def out_evaluate)

section \<open>Appending\<close>

lemma write_at_end: "write_at (length file) data file = file @ data"
  by (simp add: write_at_def)

text \<open>What a transfer leaves alone until it ends, besides the tree.\<close>

definition told :: "session \<Rightarrow> manifest \<times> bool \<times> u64 \<times> manifest \<times> serve list \<times> hash option" where
  "told st = (ss_last_sent st, ss_last_sent_valid st, ss_last_sent_version st, sv_base (ss_service st), ss_serve_q st,
     ss_last_synced st)"

definition aside :: "session \<Rightarrow> (manifest \<times> bool \<times> u64 \<times> manifest \<times> bool \<times> bool \<times> sync_config \<times> u32) \<times>
    path list \<times> path list \<times> bool \<times> (u64 \<times> u64) option \<times> nat \<times> manifest \<times> bool \<times> u64 \<times> manifest \<times> serve list \<times> hash option" where
  "aside st = (view st, ss_pulling st, ss_pull_queue st, ss_running st, ss_last_eval st, ss_outstanding_serves st, told st)"

text \<open>A transfer under way: what has arrived is in the temp file, in the running hash and counted.\<close>

definition receiving :: "u64 \<Rightarrow> incoming \<Rightarrow> bytes \<Rightarrow> session \<Rightarrow> session \<Rightarrow> bool" where
  "receiving xid start data st cur \<longleftrightarrow>
     om_inv (ss_incoming cur) \<and> \<not> ss_incompatible cur \<and> sv_tag (ss_service cur) = sv_tag (ss_service st) \<and>
     sv_disk (ss_service cur) = sv_disk (ss_service st) \<and> sv_local (ss_service cur) = sv_local (ss_service st) \<and>
     temp_of cur xid = Some data \<and> length data < 2 ^ 64 \<and>
     aside cur = aside st \<and> acked st cur \<and> sv_version (ss_service cur) = sv_version (ss_service st) \<and>
     (\<forall>x. x \<noteq> xid \<longrightarrow> om_find (ss_incoming cur) x = om_find (ss_incoming st) x) \<and>
     (\<exists>n a. om_find (ss_incoming cur) xid = Some (start\<lparr>in_written := of_nat (length data), in_hash := data,
        in_on_wire := n, in_last_ack := a\<rparr>))"

definition all_works :: "platform \<Rightarrow> bool" where
  "all_works pf \<longleftrightarrow> (\<forall>x. length (pf_sha pf x) = 32) \<and> (\<forall>x. pf_clear_temp pf x \<and> pf_open_temp pf x) \<and>
     (\<forall>p. pf_open_read pf p \<and> pf_rename pf p = Renamed) \<and> (\<forall>x n. pf_write pf x n \<and> pf_seek pf x n)"

lemma deliver_message:
  assumes "\<not> ss_incompatible st"
  shows "deliver pf (be32 (sv_tag (ss_service st)) @ op_code op # body) st = handle pf op (rd body) st"
  using assms by (simp add: deliver_def reader_of_def codec_simps kHeaderBytes_def Let_def)

text \<open>The record of a transfer after \<open>data\<close>, and the state that holds it.\<close>

abbreviation so_far :: "incoming \<Rightarrow> bytes \<Rightarrow> u64 \<Rightarrow> u64 \<Rightarrow> incoming" where
  "so_far start data n a \<equiv> start\<lparr>in_written := of_nat (length data), in_hash := data, in_on_wire := n, in_last_ack := a\<rparr>"

lemma aside_store [simp]: "aside (set_incoming inc (set_temp xid d st)) = aside st"
  "acked s (set_incoming inc (set_temp xid d st)) = acked s st"
  by (simp_all add: aside_def told_def view_def acked_def set_incoming_def set_temp_def)

lemma receiving_store:
  assumes "receiving xid start data st cur" "in_xid start = xid" "length data' < 2 ^ 64"
  shows "receiving xid start data' st (set_incoming (so_far start data' n a) (set_temp xid (Some data') cur))"
proof -
  have "om_inv (ss_incoming cur)" using assms(1) by (simp add: receiving_def)
  note inv = om.inv_assign [OF this] and find = om.find_assign [OF this]
  show ?thesis
    using assms inv find unfolding receiving_def aside_store
    by (auto simp: set_incoming_def set_temp_def)
qed

lemma receiving_ack [simp]:
  "receiving xid start data st cur \<Longrightarrow> receiving xid start data st (send_msg (file_ack s x n) cur)"
proof -
  assume cur: "receiving xid start data st cur"
  have "aside (send_msg w cur) = aside cur" for w
    by (simp add: aside_def told_def view_def send_msg_def)
  moreover have "acked st (send_msg (file_ack s x n) cur)"
    using cur by (simp add: receiving_def)
  ultimately show "receiving xid start data st (send_msg (file_ack s x n) cur)"
    using cur unfolding receiving_def by (simp add: send_msg_def)
qed

lemma receiving_fields:
  assumes "receiving xid start data st cur"
  obtains n a where "om_find (ss_incoming cur) xid = Some (so_far start data n a)" "\<not> ss_incompatible cur"
    "sv_tag (ss_service cur) = sv_tag (ss_service st)" "temp_of cur xid = Some data"
    "unat (of_nat (length data) :: u64) = length data"
  using assms by (auto simp: receiving_def unat_u64_of_nat)

lemma append_so_far:
  assumes "in_xid start = xid" "temp_of cur xid = Some data" "unat (of_nat (length data) :: u64) = length data"
  shows "append_bytes d (so_far start data n a, cur) = (so_far start (data @ d) n a, set_temp xid (Some (data @ d)) cur)"
  using assms by (simp add: append_bytes_def write_at_end)

lemma wire_then_ack: "inc\<lparr>in_last_ack := a, in_on_wire := n\<rparr> = inc\<lparr>in_on_wire := n, in_last_ack := a\<rparr>"
  by (cases inc) simp

lemma receiving_literal:
  assumes recv: "receiving xid start data st cur" and xid: "in_xid start = xid" and works: "all_works pf"
    and len: "length d < 2 ^ 32" "length (data @ d) < 2 ^ 64" and tag: "sv_tag (ss_service s) = sv_tag (ss_service st)"
  shows "receiving xid start (data @ d) st (deliver pf (file_literal s xid d) cur)"
proof -
  obtain n a where cur: "om_find (ss_incoming cur) xid = Some (so_far start data n a)" "\<not> ss_incompatible cur"
    "sv_tag (ss_service cur) = sv_tag (ss_service st)" "temp_of cur xid = Some data"
    "unat (of_nat (length data) :: u64) = length data"
    using recv by (rule receiving_fields)
  have "file_literal s xid d = be32 (sv_tag (ss_service cur)) @ op_code FileLiteral #
      be64 xid @ be32 (of_nat (length d)) @ d"
    using cur(3) tag by (simp add: file_literal_def msg_def codec_simps)
  then have handled: "deliver pf (file_literal s xid d) cur =
      handle_file_literal pf (rd (be64 xid @ be32 (of_nat (length d)) @ d @ [])) cur"
    using deliver_message [OF cur(2), of pf FileLiteral] cur(2) by (simp add: handle_def)
  have blob: "r_blob32 (rd (be32 (of_nat (length d)) @ d @ [])) = (d, rd [])"
    using len(1) by (intro r_blob32_rd) simp
  let ?n = "n + of_nat (length d)" and ?st = "set_temp xid (Some (data @ d)) cur"
  have "handle_file_literal pf (rd (be64 xid @ be32 (of_nat (length d)) @ d @ [])) cur =
     (if kAckInterval \<le> ?n - a
      then send_msg (file_ack ?st xid ?n) (set_incoming (so_far start (data @ d) ?n ?n) ?st)
      else set_incoming (so_far start (data @ d) ?n a) ?st)"
    using works cur(1) unfolding handle_file_literal_def Let_def r_u64_rd split blob
    by (cases "kAckInterval \<le> ?n - a") (simp_all add: all_works_def append_so_far [OF xid cur(4,5)] xid wire_then_ack)
  with handled receiving_store [OF recv xid len(2)] show ?thesis
    by simp
qed

lemma receiving_literals:
  assumes "receiving xid start data st cur" "in_xid start = xid" "all_works pf"
    and "\<forall>d \<in> set ds. length d < 2 ^ 32" "length (data @ concat ds) < 2 ^ 64"
    and "sv_tag (ss_service s) = sv_tag (ss_service st)"
  shows "receiving xid start (data @ concat ds) st (fold (deliver pf) (map (file_literal s xid) ds) cur)"
  using assms
proof (induction ds arbitrary: data cur)
  case (Cons d ds)
  have "receiving xid start (data @ d) st (deliver pf (file_literal s xid d) cur)"
    using Cons.prems by (intro receiving_literal) simp_all
  from Cons.IH [OF this] Cons.prems show ?case
    by simp
qed simp

text \<open>A copy, block by block.\<close>

lemma set_temp_same: "temp_of cur xid = d \<Longrightarrow> set_temp xid d cur = cur"
  by (auto simp: set_temp_def)

lemma set_temp_twice [simp]: "set_temp xid d (set_temp xid d' cur) = set_temp xid d cur"
  by (simp add: set_temp_def)

lemma temp_of_set_temp [simp]: "temp_of (set_temp xid d cur) xid = d"
  by (simp add: set_temp_def)

lemma copy_loop_copies:
  assumes "all_works pf" "0 < bufsize \<or> left = 0" "unat src + left \<le> length base" "length base < 2 ^ 64"
    and "in_xid start = xid" "temp_of cur xid = Some data" "length data + left < 2 ^ 64"
  shows "copy_loop pf base bufsize left src (so_far start data n a, cur) =
      (True, so_far start (data @ slice (unat src) (unat src + left) base) n a,
       set_temp xid (Some (data @ slice (unat src) (unat src + left) base)) cur)"
  using assms(2-)
proof (induction left arbitrary: src data cur rule: less_induct)
  case (less left)
  show ?case
  proof (cases "left = 0")
    case True
    then show ?thesis
      using less.prems by (subst copy_loop.simps) (simp add: slice_def set_temp_same)
  next
    case False
    let ?k = "min bufsize left"
    let ?d = "slice (unat src) (unat src + ?k) base"
    have k: "0 < ?k" "?k \<le> left" using False less.prems(1) by auto
    have d: "take ?k (drop (unat src) base) = ?d" "length ?d = ?k" "?d \<noteq> []"
      using k less.prems(2) by (auto simp: slice_def take_drop add.commute)
    have src: "unat (src + of_nat ?k) = unat src + ?k"
    proof -
      have "unat (of_nat ?k :: u64) = ?k"
        using k less.prems(2,3) by (intro unat_u64_of_nat) linarith
      moreover have "unat src + ?k < 2 ^ 64"
        using k(2) less.prems(2,3) by linarith
      ultimately show ?thesis
        using unat_add_lem [of src "of_nat ?k"] by simp
    qed
    have data: "unat (of_nat (length data) :: u64) = length data"
      using less.prems(6) by (intro unat_u64_of_nat) linarith
    have "copy_loop pf base bufsize left src (so_far start data n a, cur) =
        copy_loop pf base bufsize (left - ?k) (src + of_nat ?k)
          (so_far start (data @ ?d) n a, set_temp xid (Some (data @ ?d)) cur)"
      using False assms(1) d by (subst copy_loop.simps)
        (simp add: Let_def all_works_def append_so_far [OF less.prems(4,5) data])
    also have "\<dots> = (True, so_far start ((data @ ?d) @ slice (unat src + ?k) (unat src + ?k + (left - ?k)) base) n a,
        set_temp xid (Some ((data @ ?d) @ slice (unat src + ?k) (unat src + ?k + (left - ?k)) base))
          (set_temp xid (Some (data @ ?d)) cur))"
      unfolding src [symmetric]
      using less.prems k d(2) src by (intro less.IH) auto
    also have "(data @ ?d) @ slice (unat src + ?k) (unat src + ?k + (left - ?k)) base =
        data @ slice (unat src) (unat src + left) base"
      using slice_append [of "unat src" "unat src + ?k" "unat src + left" base] k by simp
    finally show ?thesis
      by simp
  qed
qed

lemma receiving_copy:
  assumes recv: "receiving xid start data st cur" and xid: "in_xid start = xid" and works: "all_works pf"
    and base: "in_base start = Some base" "unat off + unat len \<le> length base" "length base < 2 ^ 64"
    and room: "length data + unat len < 2 ^ 64" and tag: "sv_tag (ss_service s) = sv_tag (ss_service st)"
  shows "receiving xid start (data @ slice (unat off) (unat off + unat len) base) st
    (deliver pf (file_copy s xid off len) cur)"
proof -
  obtain n a where cur: "om_find (ss_incoming cur) xid = Some (so_far start data n a)" "\<not> ss_incompatible cur"
    "sv_tag (ss_service cur) = sv_tag (ss_service st)" "temp_of cur xid = Some data"
    "unat (of_nat (length data) :: u64) = length data"
    using recv by (rule receiving_fields)
  let ?S = "slice (unat off) (unat off + unat len) base"
  have "file_copy s xid off len = be32 (sv_tag (ss_service cur)) @ op_code FileCopy #
      be64 xid @ be64 off @ be32 len @ []"
    using cur(3) tag by (simp add: file_copy_def msg_def codec_simps)
  then have handled: "deliver pf (file_copy s xid off len) cur =
      handle_file_copy pf (rd (be64 xid @ be64 off @ be32 len @ [])) cur"
    using deliver_message [OF cur(2), of pf FileCopy] cur(2) by (simp add: handle_def)
  have "copy_loop pf base (min (unat len) (64 * 1024)) (unat len) off (so_far start data n a, cur) =
      (True, so_far start (data @ ?S) n a, set_temp xid (Some (data @ ?S)) cur)"
    using base room by (intro copy_loop_copies [OF works _ _ _ xid cur(4)]) auto
  then have "handle_file_copy pf (rd (be64 xid @ be64 off @ be32 len @ [])) cur =
      set_incoming (so_far start (data @ ?S) n a) (set_temp xid (Some (data @ ?S)) cur)"
    using cur(1) base(1) unfolding handle_file_copy_def Let_def r_u64_rd r_u32_rd split by simp
  moreover have "length (data @ ?S) < 2 ^ 64"
    using room by simp
  ultimately show ?thesis
    unfolding handled using receiving_store [OF recv xid] by metis
qed

section \<open>The messages of a serve\<close>

lemma read_chunks_concat: "0 < n \<Longrightarrow> concat (read_chunks n data) = data"
proof (induction n data rule: read_chunks.induct)
  case (1 n data)
  show ?case
  proof (cases "data = [] \<or> length data < n")
    case True
    then show ?thesis
      using 1(2) by (subst read_chunks.simps) auto
  next
    case False
    then have "concat (read_chunks n (drop n data)) = drop n data"
      using 1 by simp
    with False show ?thesis
      using 1(2) by (subst read_chunks.simps) simp
  qed
qed

lemma read_chunks_length: "\<forall>c \<in> set (read_chunks n data). length c \<le> n"
proof (induction n data rule: read_chunks.induct)
  case (1 n data)
  then show ?case
    by (subst read_chunks.simps) auto
qed

definition op_messages :: "session \<Rightarrow> nat \<Rightarrow> u64 \<Rightarrow> delta_op \<Rightarrow> bytes list" where
  "op_messages s chunk xid op =
     (if op_copy op then [file_copy s xid (op_offset op) (op_len op)]
      else map (file_literal s xid) (read_chunks chunk (op_literal op)))"

lemma message_service:
  assumes "ss_service s = ss_service t"
  shows "file_literal s = file_literal t" "file_copy s = file_copy t" "file_end s = file_end t"
    "op_messages s = op_messages t"
  using assms by (auto simp: fun_eq_iff file_literal_def file_copy_def file_end_def op_messages_def msg_def)

lemma send_literals:
  "ss_service (fold (send_literal xid) ds st) = ss_service st \<and>
   ss_out (fold (send_literal xid) ds st) = ss_out st @ map (file_literal st xid) ds"
proof (induction ds arbitrary: st)
  case (Cons d ds)
  have "ss_service (send_literal xid d st) = ss_service st"
    "ss_out (send_literal xid d st) = ss_out st @ [file_literal st xid d]"
    by (simp_all add: send_literal_def note_sent_def send_msg_def)
  with Cons.IH [of "send_literal xid d st"] message_service(1) [of "send_literal xid d st" st] show ?case
    by simp
qed simp

lemma send_ops:
  "ss_service (fold (send_op chunk xid) ops st) = ss_service st \<and>
   ss_out (fold (send_op chunk xid) ops st) = ss_out st @ concat (map (op_messages st chunk xid) ops)"
proof (induction ops arbitrary: st)
  case (Cons op ops)
  have "ss_service (send_op chunk xid op st) = ss_service st"
    "ss_out (send_op chunk xid op st) = ss_out st @ op_messages st chunk xid op"
    using send_literals [of xid "read_chunks chunk (op_literal op)" st]
    by (simp_all add: send_op_def op_messages_def send_msg_def)
  with Cons.IH [of "send_op chunk xid op st"] message_service(4) [of "send_op chunk xid op st" st] show ?case
    by simp
qed simp

lemma serve_whole_out:
  assumes "pf_open_read pf (sj_rel_path job)" "cf_chunk_size (config st) \<noteq> 0" "ss_running st"
  shows "ss_out (serve_whole pf job f mode st) = ss_out st @
    [file_start st job (of_nat (length (df_data f))) (df_mtime f) mode False] @
    map (file_literal st (sj_xid job)) (read_chunks (unat (cf_chunk_size (config st))) (df_data f)) @
    [file_end st (sj_xid job) (pf_sha pf (df_data f))]"
proof -
  let ?chunks = "read_chunks (unat (cf_chunk_size (config st))) (df_data f)"
  define st1 where "st1 = send_msg (file_start st job (of_nat (length (df_data f))) (df_mtime f) mode False) st"
  define st2 where "st2 = fold (send_literal (sj_xid job)) ?chunks st1"
  have st1: "ss_service st1 = ss_service st"
    by (simp add: st1_def send_msg_def)
  have st2: "ss_service st2 = ss_service st1" "ss_out st2 = ss_out st1 @ map (file_literal st1 (sj_xid job)) ?chunks"
    using send_literals by (simp_all add: st2_def)
  have data: "concat ?chunks = df_data f"
    using assms(2) by (intro read_chunks_concat) (simp add: unat_gt_0)
  have "serve_whole pf job f mode st = emit (FileDone True (sj_rel_path job) (of_nat (length (df_data f))) False
      (of_nat (length (concat ?chunks)))) (send_msg (file_end st2 (sj_xid job) (pf_sha pf (concat ?chunks))) st2)"
    using assms(1,3) unfolding serve_whole_def Let_def st1_def st2_def by (simp add: send_msg_def)
  moreover have "file_literal st1 = file_literal st" "file_end st2 = file_end st"
    using message_service(1) [OF st1] message_service(3) [of st2 st] st1 st2(1) by simp_all
  ultimately show ?thesis
    unfolding data by (simp add: emit_def send_msg_def st2(2)) (simp add: st1_def send_msg_def)
qed

lemma serve_delta_out:
  assumes "pf_open_read pf (sj_rel_path job)" "ss_running st"
  shows "ss_out (serve_delta pf job sig f mode st) = ss_out st @
    [file_start st job (of_nat (length (df_data f))) (df_mtime f) mode True] @
    concat (map (op_messages st (unat (cf_chunk_size (config st))) (sj_xid job))
      (dl_ops (compute_delta (pf_sha pf) (pf_bucket pf) sig (df_data f)))) @
    [file_end st (sj_xid job) (pf_sha pf (df_data f))]"
proof -
  let ?ops = "dl_ops (compute_delta (pf_sha pf) (pf_bucket pf) sig (df_data f))"
  let ?n = "unat (cf_chunk_size (config st))"
  define st1 where "st1 = send_msg (file_start st job (of_nat (length (df_data f))) (df_mtime f) mode True) st"
  define st2 where "st2 = fold (send_op ?n (sj_xid job)) ?ops st1"
  have st1: "ss_service st1 = ss_service st"
    by (simp add: st1_def send_msg_def)
  have st2: "ss_service st2 = ss_service st1" "ss_out st2 = ss_out st1 @ concat (map (op_messages st1 ?n (sj_xid job)) ?ops)"
    using send_ops by (simp_all add: st2_def)
  have "serve_delta pf job sig f mode st = emit (FileDone True (sj_rel_path job) (of_nat (length (df_data f))) True
      (literal_bytes (compute_delta (pf_sha pf) (pf_bucket pf) sig (df_data f))))
      (send_msg (file_end st2 (sj_xid job) (pf_sha pf (df_data f))) st2)"
    using assms unfolding serve_delta_def Let_def st1_def st2_def by (simp add: send_msg_def)
  moreover have "op_messages st1 = op_messages st" "file_end st2 = file_end st"
    using message_service(4) [OF st1] message_service(3) [of st2 st] st1 st2(1) by simp_all
  ultimately show ?thesis
    by (simp add: emit_def send_msg_def st2(2)) (simp add: st1_def send_msg_def)
qed

section \<open>Receiving them\<close>

lemma receiving_op:
  assumes "receiving xid start data st cur" "in_xid start = xid" "all_works pf"
    and "in_base start = Some base" "op_ok base op" "length base < 2 ^ 64"
    and "length (data @ op_data base op) < 2 ^ 64" "0 < chunk" "chunk < 2 ^ 32"
    and "sv_tag (ss_service s) = sv_tag (ss_service st)"
  shows "receiving xid start (data @ op_data base op) st (fold (deliver pf) (op_messages s chunk xid op) cur)"
proof (cases "op_copy op")
  case True
  then have "length data + unat (op_len op) < 2 ^ 64"
    using assms(5,7) by (simp add: op_ok_def op_data_def)
  with True show ?thesis
    using receiving_copy [OF assms(1-4) _ assms(6) _ assms(10), of "op_offset op" "op_len op"] assms(5)
    by (simp add: op_messages_def op_data_def op_ok_def)
next
  case False
  have "\<forall>d \<in> set (read_chunks chunk (op_literal op)). length d < 2 ^ 32"
    using read_chunks_length [of chunk "op_literal op"] assms(9) by (auto intro: le_less_trans)
  with False show ?thesis
    using receiving_literals [OF assms(1-3) _ _ assms(10), of "read_chunks chunk (op_literal op)"] assms(7,8)
    by (simp add: op_messages_def op_data_def read_chunks_concat)
qed

lemma receiving_ops:
  assumes "receiving xid start data st cur" "in_xid start = xid" "all_works pf"
    and "in_base start = Some base" "list_all (op_ok base) ops" "length base < 2 ^ 64"
    and "length (data @ concat (map (op_data base) ops)) < 2 ^ 64" "0 < chunk" "chunk < 2 ^ 32"
    and "sv_tag (ss_service s) = sv_tag (ss_service st)"
  shows "receiving xid start (data @ concat (map (op_data base) ops)) st
    (fold (deliver pf) (concat (map (op_messages s chunk xid) ops)) cur)"
  using assms
proof (induction ops arbitrary: data cur)
  case (Cons op ops)
  have "receiving xid start (data @ op_data base op) st (fold (deliver pf) (op_messages s chunk xid op) cur)"
    using Cons.prems by (intro receiving_op) auto
  from Cons.IH [OF this] Cons.prems show ?case
    by simp
qed simp

text \<open>The header opens the transfer.\<close>

definition opened :: "serve \<Rightarrow> u64 \<Rightarrow> i64 \<Rightarrow> u32 \<Rightarrow> bool \<Rightarrow> bytes option \<Rightarrow> incoming" where
  "opened job len64 mtime mode is_delta base =
     \<lparr>in_xid = sj_xid job, in_rel_path = sj_rel_path job, in_size = len64, in_mtime = mtime, in_mode = mode,
      in_is_delta = is_delta, in_base = base, in_written = 0, in_on_wire = 0, in_last_ack = 0, in_hash = []\<rparr>"

lemma receiving_start:
  assumes "\<not> ss_incompatible rc" "om_inv (ss_incoming rc)" "om_find (ss_incoming rc) (sj_xid job) = None"
    and "all_works pf" "is_safe_relpath (sj_rel_path job)" "length (sj_rel_path job) < 65536"
    and "sv_tag (ss_service s) = sv_tag (ss_service rc)"
    and "base = (if is_delta then map_option df_data (sv_disk (ss_service rc) (sj_rel_path job)) else None)"
    and "is_delta \<longrightarrow> base \<noteq> None"
  shows "receiving (sj_xid job) (opened job len64 mtime mode is_delta base) [] rc
    (deliver pf (file_start s job len64 mtime mode is_delta) rc)"
proof -
  let ?x = "sj_xid job" and ?p = "sj_rel_path job"
  let ?body = "be64 ?x @ be16 (of_nat (length ?p)) @ ?p @ be64 len64 @ be64 mtime @ be32 mode @ [if is_delta then 1 else 0]"
  have "file_start s job len64 mtime mode is_delta = be32 (sv_tag (ss_service rc)) @ op_code FileStart # ?body"
    using assms(7) by (simp add: file_start_def msg_def codec_simps)
  then have handled: "deliver pf (file_start s job len64 mtime mode is_delta) rc = handle_file_start pf (rd ?body) rc"
    using deliver_message [OF assms(1), of pf FileStart ?body] assms(1) by (simp add: handle_def)
  have "handle_file_start pf (rd ?body) rc =
      (set_temp ?x (Some []) rc)\<lparr>ss_incoming := om_assign ?x (opened job len64 mtime mode is_delta base) (ss_incoming rc)\<rparr>"
    using assms(3-6,8,9) unfolding handle_file_start_def Let_def r_u64_rd r_str16_rd [OF assms(6)] r_i64_rd r_u32_rd r_u8_rd split
    by (auto simp: all_works_def set_temp_def opened_def)
  then show ?thesis
    using handled om.inv_assign [OF assms(2)] om.find_assign [OF assms(2)] assms(1)
    by (simp add: receiving_def set_temp_def opened_def aside_def told_def view_def acked_def)
qed

text \<open>A matching hash installs the file.\<close>

definition landed :: "incoming \<Rightarrow> hash \<Rightarrow> file_meta" where
  "landed inc digest = \<lparr>fm_size = in_written inc, fm_mtime = in_mtime inc, fm_mode = in_mode inc, fm_hash = digest\<rparr>"

lemma finalize_installs:
  assumes "temp_of st (in_xid inc) = Some data" "all_works pf"
  obtains S where "finalize_incoming pf inc digest st = maybe_synced pf S"
    "own S = ((sv_disk (ss_service st))(in_rel_path inc \<mapsto> \<lparr>df_data = data, df_mtime = in_mtime inc\<rparr>),
       man_set (in_rel_path inc) (landed inc digest) (sv_local (ss_service st)),
       (sv_temp (ss_service st))(in_xid inc := None), removeAll (in_rel_path inc) (ss_pulling st),
       ss_pull_queue st, om_erase (in_xid inc) (ss_incoming st))"
    "aside S = (case aside st of (v, ps, rest) \<Rightarrow> (v, removeAll (in_rel_path inc) ps, rest))"
    "acked st S" "sv_version (ss_service S) = sv_version (ss_service st) + 1" "ss_advertise_pending S"
proof -
  let ?st = "set_temp (in_xid inc) None (set_disk (in_rel_path inc) (Some \<lparr>df_data = data, df_mtime = in_mtime inc\<rparr>)
      (send_msg (file_ack st (in_xid inc) (in_on_wire inc)) st))"
  let ?S = "emit (FileDone False (in_rel_path inc) (in_size inc) (in_is_delta inc) (in_on_wire inc))
      (release_pull (in_rel_path inc) ((on_service (note_local_set (in_rel_path inc) (landed inc digest)) ?st)
        \<lparr>ss_incoming := om_erase (in_xid inc) (ss_incoming ?st), ss_advertise_pending := True\<rparr>))"
  have "finalize_incoming pf inc digest st = maybe_synced pf ?S"
    using assms by (simp add: finalize_incoming_def Let_def move_replace_def all_works_def landed_def)
      (simp add: send_msg_def)
  moreover have "acked st ?S = acked st (send_msg (file_ack st (in_xid inc) (in_on_wire inc)) st)"
    by (rule acked_out) (simp add: emit_def release_pull_def set_temp_def set_disk_def)
  then have "acked st ?S"
    by simp
  ultimately show thesis
    using that [of ?S]
    by (simp add: own_def aside_def told_def view_def emit_def release_pull_def set_temp_def set_disk_def send_msg_def
        note_local_set_def bump_def)
qed

lemma receiving_end:
  assumes recv: "receiving xid start data rc cur" and xid: "in_xid start = xid" and works: "all_works pf"
    and tag: "sv_tag (ss_service s) = sv_tag (ss_service rc)" and new: "om_find (ss_incoming rc) xid = None"
  obtains S where "deliver pf (file_end s xid (pf_sha pf data)) cur = maybe_synced pf S"
    "sv_disk (ss_service S) = (sv_disk (ss_service rc))(in_rel_path start \<mapsto> \<lparr>df_data = data, df_mtime = in_mtime start\<rparr>)"
    "sv_local (ss_service S) = man_set (in_rel_path start)
       (landed (start\<lparr>in_written := of_nat (length data)\<rparr>) (pf_sha pf data)) (sv_local (ss_service rc))"
    "om_inv (ss_incoming S)" "om_find (ss_incoming S) = om_find (ss_incoming rc)"
    "aside S = (case aside rc of (v, ps, rest) \<Rightarrow> (v, removeAll (in_rel_path start) ps, rest))"
    "acked rc S" "sv_version (ss_service S) = sv_version (ss_service rc) + 1" "ss_advertise_pending S"
proof -
  obtain n a where cur: "om_find (ss_incoming cur) xid = Some (so_far start data n a)" "\<not> ss_incompatible cur"
    "sv_tag (ss_service cur) = sv_tag (ss_service rc)" "temp_of cur xid = Some data"
    using recv by (rule receiving_fields)
  have more: "om_inv (ss_incoming cur)" "sv_disk (ss_service cur) = sv_disk (ss_service rc)"
    "sv_local (ss_service cur) = sv_local (ss_service rc)" "aside cur = aside rc" "acked rc cur" "sv_version (ss_service cur) = sv_version (ss_service rc)"
    "\<And>x. x \<noteq> xid \<Longrightarrow> om_find (ss_incoming cur) x = om_find (ss_incoming rc) x"
    using recv by (simp_all add: receiving_def)
  have "file_end s xid (pf_sha pf data) = be32 (sv_tag (ss_service cur)) @ op_code FileEnd # be64 xid @ pf_sha pf data @ []"
    using cur(3) tag by (simp add: file_end_def msg_def codec_simps)
  then have "deliver pf (file_end s xid (pf_sha pf data)) cur = handle_file_end pf (rd (be64 xid @ pf_sha pf data @ [])) cur"
    using deliver_message [OF cur(2), of pf FileEnd] cur(2) by (simp add: handle_def)
  also have "\<dots> = finalize_incoming pf (so_far start data n a) (pf_sha pf data) cur"
    using cur(1) works unfolding handle_file_end_def Let_def r_u64_rd split
    by (simp add: all_works_def r_bytes_rd [of _ 32 "[]", simplified])
  finally have ends: "deliver pf (file_end s xid (pf_sha pf data)) cur =
      finalize_incoming pf (so_far start data n a) (pf_sha pf data) cur" .
  have "temp_of cur (in_xid (so_far start data n a)) = Some data"
    using cur(4) xid by simp
  then obtain S where S: "finalize_incoming pf (so_far start data n a) (pf_sha pf data) cur = maybe_synced pf S"
    "own S = ((sv_disk (ss_service cur))(in_rel_path start \<mapsto> \<lparr>df_data = data, df_mtime = in_mtime start\<rparr>),
       man_set (in_rel_path start) (landed (start\<lparr>in_written := of_nat (length data)\<rparr>) (pf_sha pf data)) (sv_local (ss_service cur)),
       (sv_temp (ss_service cur))(xid := None), removeAll (in_rel_path start) (ss_pulling cur),
       ss_pull_queue cur, om_erase xid (ss_incoming cur))"
    "aside S = (case aside cur of (v, ps, rest) \<Rightarrow> (v, removeAll (in_rel_path start) ps, rest))"
    "acked cur S" "sv_version (ss_service S) = sv_version (ss_service cur) + 1" "ss_advertise_pending S"
    using finalize_installs [of cur "so_far start data n a" data pf "pf_sha pf data"] works xid
    by (auto simp: landed_def)
  have "om_find (ss_incoming S) = om_find (ss_incoming rc)"
    using S(2) om.find_erase [OF more(1), of xid] more(7) new by (auto simp: own_def fun_eq_iff)
  moreover have "om_inv (ss_incoming S)"
    using S(2) om.inv_erase [OF more(1)] by (simp add: own_def)
  moreover have "acked rc S"
    using more(5) S(4) by (auto simp: acked_def)
  ultimately show thesis
    using that [of S] ends S more by (simp add: own_def)
qed

text \<open>What the receiver offers the sender to work from: nothing, or the signature of its own copy.\<close>

definition offers :: "platform \<Rightarrow> session \<Rightarrow> serve \<Rightarrow> bool" where
  "offers pf rc job \<longleftrightarrow>
     (case sj_sig job of None \<Rightarrow> True
      | Some sig \<Rightarrow> (case sv_disk (ss_service rc) (sj_rel_path job) of None \<Rightarrow> False
         | Some f \<Rightarrow> \<exists>bs. sig = signature_of (pf_sha pf) (df_data f) bs
             \<and> bucket_of (pf_bucket pf) (sg_blocks sig) \<and> length (df_data f) < 2 ^ 63))"

definition tells_apart :: "platform \<Rightarrow> session \<Rightarrow> serve \<Rightarrow> bytes \<Rightarrow> bool" where
  "tells_apart pf rc job target \<longleftrightarrow>
     (case (sj_sig job, sv_disk (ss_service rc) (sj_rel_path job)) of
        (Some sig, Some f) \<Rightarrow> separates (pf_sha pf) (unat (sg_block_size sig)) (df_data f) target
      | _ \<Rightarrow> True)"

text \<open>The entry a served file gets.\<close>

definition served_meta :: "platform \<Rightarrow> session \<Rightarrow> path \<Rightarrow> disk_file \<Rightarrow> file_meta" where
  "served_meta pf st p f = \<lparr>fm_size = of_nat (length (df_data f)), fm_mtime = df_mtime f,
     fm_mode = (case man_find (sv_local (ss_service st)) p of Some m \<Rightarrow> fm_mode m | None \<Rightarrow> 0),
     fm_hash = pf_sha pf (df_data f)\<rparr>"

text \<open>The messages of one serve, as far as its last one: with them the receiver has the file in its temp file.\<close>

definition streams :: "platform \<Rightarrow> platform \<Rightarrow> session \<Rightarrow> session \<Rightarrow> serve \<Rightarrow> disk_file \<Rightarrow> u32 \<Rightarrow> bytes list \<Rightarrow> bool" where
  "streams pfs pfr s rc job f mode ms \<longleftrightarrow> (\<exists>d base body.
     ms = [file_start s job (of_nat (length (df_data f))) (df_mtime f) mode d] @ body @ [file_end s (sj_xid job) (pf_sha pfs (df_data f))]
     \<and> receiving (sj_xid job) (opened job (of_nat (length (df_data f))) (df_mtime f) mode d base) (df_data f) rc
         (fold (deliver pfr) body (deliver pfr (file_start s job (of_nat (length (df_data f))) (df_mtime f) mode d) rc)))"

lemma opened_fields [simp]: "in_xid (opened job len mtime mode d base) = sj_xid job" "in_base (opened job len mtime mode d base) = base"
  by (simp_all add: opened_def)

lemma whole_streams:
  assumes "receiving (sj_xid job) (opened job (of_nat (length (df_data f))) (df_mtime f) mode False None) [] rc
      (deliver pfr (file_start s job (of_nat (length (df_data f))) (df_mtime f) mode False) rc)"
    and "all_works pfs" "all_works pfr" "ss_out s = []" "ss_running s" "sv_tag (ss_service s) = sv_tag (ss_service rc)"
    and "cf_chunk_size (config s) \<noteq> 0" "length (df_data f) < 2 ^ 32"
  shows "streams pfs pfr s rc job f mode (ss_out (serve_whole pfs job f mode s))"
proof -
  let ?chunks = "read_chunks (unat (cf_chunk_size (config s))) (df_data f)"
  have "\<forall>c \<in> set ?chunks. length c < 2 ^ 32"
    using read_chunks_length unat_u32_lt le_less_trans by blast
  from receiving_literals [OF assms(1) _ assms(3) this _ assms(6)] assms(7,8)
  have "receiving (sj_xid job) (opened job (of_nat (length (df_data f))) (df_mtime f) mode False None) (df_data f) rc
      (fold (deliver pfr) (map (file_literal s (sj_xid job)) ?chunks)
        (deliver pfr (file_start s job (of_nat (length (df_data f))) (df_mtime f) mode False) rc))"
    by (simp add: read_chunks_concat unat_gt_0)
  moreover have "pf_open_read pfs (sj_rel_path job)"
    using assms(2) by (simp add: all_works_def)
  ultimately show ?thesis
    using serve_whole_out [OF _ assms(7,5), of pfs job f mode] assms(4) unfolding streams_def by auto
qed

lemma delta_streams:
  assumes "receiving (sj_xid job) (opened job (of_nat (length (df_data f))) (df_mtime f) mode True (Some (df_data g))) [] rc
      (deliver pfr (file_start s job (of_nat (length (df_data f))) (df_mtime f) mode True) rc)"
    and "all_works pfs" "all_works pfr" "ss_out s = []" "ss_running s" "sv_tag (ss_service s) = sv_tag (ss_service rc)"
    and "cf_chunk_size (config s) \<noteq> 0" "length (df_data f) < 2 ^ 32" "length (df_data g) < 2 ^ 63"
    and sig: "sig = signature_of (pf_sha pfs) (df_data g) bs" "bucket_of (pf_bucket pfs) (sg_blocks sig)"
      "separates (pf_sha pfs) (unat (or_default bs)) (df_data g) (df_data f)"
  shows "streams pfs pfr s rc job f mode (ss_out (serve_delta pfs job sig f mode s))"
proof -
  let ?ops = "dl_ops (compute_delta (pf_sha pfs) (pf_bucket pfs) sig (df_data f))"
  have "rebuilds (df_data g) ?ops (df_data f)"
    using compute_delta_rebuilds [OF sig(2) [unfolded sig(1)] sig(3) assms(9,8)] by (simp add: sig(1))
  then have "receiving (sj_xid job) (opened job (of_nat (length (df_data f))) (df_mtime f) mode True (Some (df_data g))) (df_data f) rc
      (fold (deliver pfr) (concat (map (op_messages s (unat (cf_chunk_size (config s))) (sj_xid job)) ?ops))
        (deliver pfr (file_start s job (of_nat (length (df_data f))) (df_mtime f) mode True) rc))"
    using receiving_ops [OF assms(1) _ assms(3) _ _ _ _ _ _ assms(6), of "df_data g" ?ops "unat (cf_chunk_size (config s))"]
      assms(7-9) unat_u32_lt by (simp add: rebuilds_def unat_gt_0)
  moreover have "pf_open_read pfs (sj_rel_path job)"
    using assms(2) by (simp add: all_works_def)
  ultimately show ?thesis
    using serve_delta_out [OF _ assms(5), of pfs job sig f mode] assms(4) unfolding streams_def by auto
qed

lemma serve_streams:
  fixes rc
  assumes "sv_disk (ss_service st) (sj_rel_path job) = Some f" "ss_out st = []" "cf_chunk_size (config st) \<noteq> 0"
    and "all_works pfs" "all_works pfr" "pf_sha pfr = pf_sha pfs"
    and "\<not> ss_incompatible rc" "om_inv (ss_incoming rc)" "om_find (ss_incoming rc) (sj_xid job) = None"
    and "sv_tag (ss_service rc) = sv_tag (ss_service st)"
    and "is_safe_relpath (sj_rel_path job)" "length (sj_rel_path job) < 65536" "length (df_data f) < 2 ^ 32"
    and "offers pfs rc job" "tells_apart pfs rc job (df_data f)" "ss_running st"
  obtains s where "sv_tag (ss_service s) = sv_tag (ss_service rc)" "streams pfs pfr s rc job f
    (case man_find (sv_local (ss_service st)) (sj_rel_path job) of Some m \<Rightarrow> fm_mode m | None \<Rightarrow> 0) (ss_out (serve_one pfs job st))"
proof -
  let ?p = "sj_rel_path job" and ?x = "sj_xid job" and ?len = "of_nat (length (df_data f)) :: u64"
  define s where "s = st\<lparr>ss_cur_xid := ?x, ss_cur_sent := 0, ss_cur_acked := 0\<rparr>"
  define mode where "mode = (case man_find (sv_local (ss_service st)) ?p of Some m \<Rightarrow> fm_mode m | None \<Rightarrow> 0)"
  have s: "ss_out s = []" "ss_running s" "sv_tag (ss_service s) = sv_tag (ss_service rc)" "cf_chunk_size (config s) \<noteq> 0"
    using assms(2,3,10,16) by (simp_all add: s_def)
  have start: "receiving ?x (opened job ?len (df_mtime f) mode d base) [] rc
      (deliver pfr (file_start s job ?len (df_mtime f) mode d) rc)"
    if "base = (if d then map_option df_data (sv_disk (ss_service rc) ?p) else None)" "d \<longrightarrow> base \<noteq> None" for d base
    using receiving_start [OF assms(7-9,5,11,12) s(3) that] .
  have "streams pfs pfr s rc job f mode (ss_out (serve_one pfs job st))"
  proof (cases "sj_sig job \<noteq> None \<and> cf_use_delta (config st) \<and> ?len \<le> cf_delta_max_bytes (config st)")
    case False
    then have "serve_one pfs job st = serve_whole pfs job f mode s"
      using assms(1) by (auto simp: serve_one_def s_def mode_def Let_def split: option.splits)
    then show ?thesis
      using whole_streams [OF start assms(4,5) s assms(13)] by simp
  next
    case True
    then obtain sig where sig: "sj_sig job = Some sig" by blast
    then obtain g bs where g: "sv_disk (ss_service rc) ?p = Some g" "sig = signature_of (pf_sha pfs) (df_data g) bs"
      "bucket_of (pf_bucket pfs) (sg_blocks sig)" "length (df_data g) < 2 ^ 63"
      using assms(14) by (auto simp: offers_def split: option.splits)
    have "separates (pf_sha pfs) (unat (or_default bs)) (df_data g) (df_data f)"
      using assms(15) sig g(1,2) by (simp add: tells_apart_def signature_of_def)
    moreover have "serve_one pfs job st = serve_delta pfs job sig f mode s"
      using True assms(1) sig by (simp add: serve_one_def s_def mode_def Let_def split: option.splits)
    ultimately show ?thesis
      using delta_streams [OF start assms(4,5) s assms(13) g(4,2,3)] g(1) by simp
  qed
  then show thesis
    using that s(3) by (simp add: mode_def)
qed

lemma serve_settles:
  fixes rc
  assumes "sv_disk (ss_service st) (sj_rel_path job) = Some f" "ss_out st = []" "cf_chunk_size (config st) \<noteq> 0"
    and "all_works pfs" "all_works pfr" "pf_sha pfr = pf_sha pfs"
    and "\<not> ss_incompatible rc" "om_inv (ss_incoming rc)" "om_find (ss_incoming rc) (sj_xid job) = None"
    and "sv_tag (ss_service rc) = sv_tag (ss_service st)"
    and "is_safe_relpath (sj_rel_path job)" "length (sj_rel_path job) < 65536" "length (df_data f) < 2 ^ 32"
    and "offers pfs rc job" "tells_apart pfs rc job (df_data f)" "ss_running st"
  obtains S where "fold (deliver pfr) (ss_out (serve_one pfs job st)) rc = maybe_synced pfr S"
    "sv_disk (ss_service S) = (sv_disk (ss_service rc))(sj_rel_path job \<mapsto> f)"
    "sv_local (ss_service S) = man_set (sj_rel_path job) (served_meta pfs st (sj_rel_path job) f) (sv_local (ss_service rc))"
    "om_inv (ss_incoming S)" "om_find (ss_incoming S) = om_find (ss_incoming rc)"
    "aside S = (case aside rc of (v, ps, rest) \<Rightarrow> (v, removeAll (sj_rel_path job) ps, rest))"
    "acked rc S" "sv_version (ss_service S) = sv_version (ss_service rc) + 1" "ss_advertise_pending S"
proof -
  let ?p = "sj_rel_path job" and ?x = "sj_xid job" and ?len = "of_nat (length (df_data f)) :: u64"
  let ?mode = "case man_find (sv_local (ss_service st)) ?p of Some m \<Rightarrow> fm_mode m | None \<Rightarrow> 0"
  obtain s where s: "sv_tag (ss_service s) = sv_tag (ss_service rc)" "streams pfs pfr s rc job f ?mode (ss_out (serve_one pfs job st))"
    by (rule serve_streams [OF assms])
  then obtain d base body where out: "ss_out (serve_one pfs job st) =
      [file_start s job ?len (df_mtime f) ?mode d] @ body @ [file_end s ?x (pf_sha pfs (df_data f))]"
    and recv: "receiving ?x (opened job ?len (df_mtime f) ?mode d base) (df_data f) rc
      (fold (deliver pfr) body (deliver pfr (file_start s job ?len (df_mtime f) ?mode d) rc))"
    by (auto simp: streams_def)
  have "fold (deliver pfr) (ss_out (serve_one pfs job st)) rc = deliver pfr (file_end s ?x (pf_sha pfr (df_data f)))
      (fold (deliver pfr) body (deliver pfr (file_start s job ?len (df_mtime f) ?mode d) rc))"
    by (simp add: out assms(6))
  moreover obtain S where "deliver pfr (file_end s ?x (pf_sha pfr (df_data f)))
      (fold (deliver pfr) body (deliver pfr (file_start s job ?len (df_mtime f) ?mode d) rc)) = maybe_synced pfr S"
    "sv_disk (ss_service S) = (sv_disk (ss_service rc))(?p \<mapsto> \<lparr>df_data = df_data f, df_mtime = df_mtime f\<rparr>)"
    "sv_local (ss_service S) = man_set ?p (served_meta pfs st ?p f) (sv_local (ss_service rc))"
    "om_inv (ss_incoming S)" "om_find (ss_incoming S) = om_find (ss_incoming rc)"
    "aside S = (case aside rc of (v, ps, rest) \<Rightarrow> (v, removeAll ?p ps, rest))" "acked rc S"
    "sv_version (ss_service S) = sv_version (ss_service rc) + 1" "ss_advertise_pending S"
    by (rule receiving_end [OF recv opened_fields(1) assms(5) s(1) assms(9)])
      (simp_all add: opened_def landed_def served_meta_def assms(6))
  ultimately show thesis
    using that [of S] by (cases f) simp
qed

lemma serve_delivers:
  fixes rc
  assumes "sv_disk (ss_service st) (sj_rel_path job) = Some f" "ss_out st = []" "cf_chunk_size (config st) \<noteq> 0"
    and "all_works pfs" "all_works pfr" "pf_sha pfr = pf_sha pfs"
    and "\<not> ss_incompatible rc" "om_inv (ss_incoming rc)" "om_find (ss_incoming rc) (sj_xid job) = None"
    and "sv_tag (ss_service rc) = sv_tag (ss_service st)"
    and "is_safe_relpath (sj_rel_path job)" "length (sj_rel_path job) < 65536" "length (df_data f) < 2 ^ 32"
    and "offers pfs rc job" "tells_apart pfs rc job (df_data f)" "ss_running st"
  shows "sv_disk (ss_service (fold (deliver pfr) (ss_out (serve_one pfs job st)) rc)) =
      (sv_disk (ss_service rc))(sj_rel_path job \<mapsto> f)
    \<and> sv_local (ss_service (fold (deliver pfr) (ss_out (serve_one pfs job st)) rc)) =
        man_set (sj_rel_path job) \<lparr>fm_size = of_nat (length (df_data f)), fm_mtime = df_mtime f,
          fm_mode = (case man_find (sv_local (ss_service st)) (sj_rel_path job) of Some m \<Rightarrow> fm_mode m | None \<Rightarrow> 0),
          fm_hash = pf_sha pfs (df_data f)\<rparr> (sv_local (ss_service rc))
    \<and> sj_rel_path job \<notin> set (ss_pulling (fold (deliver pfr) (ss_out (serve_one pfs job st)) rc))
    \<and> om_find (ss_incoming (fold (deliver pfr) (ss_out (serve_one pfs job st)) rc)) (sj_xid job) = None"
proof -
  obtain S where S: "fold (deliver pfr) (ss_out (serve_one pfs job st)) rc = maybe_synced pfr S"
    "sv_disk (ss_service S) = (sv_disk (ss_service rc))(sj_rel_path job \<mapsto> f)"
    "sv_local (ss_service S) = man_set (sj_rel_path job) (served_meta pfs st (sj_rel_path job) f) (sv_local (ss_service rc))"
    "om_find (ss_incoming S) = om_find (ss_incoming rc)"
    "aside S = (case aside rc of (v, ps, rest) \<Rightarrow> (v, removeAll (sj_rel_path job) ps, rest))"
    by (rule serve_settles [OF assms])
  then show ?thesis
    using assms(9) by (simp add: frame served_meta_def aside_def)
qed

text \<open>A platform on which everything works, and a session that holds one file.\<close>

definition sample_platform :: platform where
  "sample_platform = \<lparr>pf_sha = (\<lambda>x. replicate 32 (fold (+) x 0)), pf_bucket = ascending_bucket,
     pf_remove = (\<lambda>p. True), pf_clear_temp = (\<lambda>x. True), pf_open_temp = (\<lambda>x. True),
     pf_open_read = (\<lambda>p. True), pf_write = (\<lambda>x n. True), pf_seek = (\<lambda>x n. True),
     pf_rename = (\<lambda>p. Renamed), pf_copy = (\<lambda>p. True), pf_swap = (\<lambda>p. True),
     pf_swap_again = (\<lambda>p. True), pf_rename_again = (\<lambda>p. True)\<rparr>"

definition holding :: "path \<Rightarrow> bytes \<Rightarrow> session \<Rightarrow> session" where
  "holding p data st = set_disk p (Some \<lparr>df_data = data, df_mtime = 5\<rparr>) st"

lemma sample_platform_works: "all_works sample_platform"
  by (simp add: all_works_def sample_platform_def)

definition whole_job :: serve where
  "whole_job = \<lparr>sj_rel_path = [97], sj_sig = None, sj_xid = 1\<rparr>"

text \<open>The same folder as the authoritative side of a mirror.\<close>

definition as_source :: "session \<Rightarrow> session" where
  "as_source st = on_service (\<lambda>sv. sv\<lparr>sv_config := (sv_config sv)\<lparr>cf_mode := Mirror, cf_source := True\<rparr>\<rparr>) st"

section \<open>Properties\<close>

text \<open>C4. A served file arrives exactly: delivering the messages of one serve in order, whole or as a
  delta against the receiver's own copy, leaves the receiver with the sender's bytes and mtime at
  that path and nowhere else, a manifest entry with their size and hash, no pending pull of the
  path and no transfer under way - for every chunk size and whether or not acknowledgements are sent.\<close>

theorem file_transfer_exact:
  fixes rc
  assumes "sv_disk (ss_service st) (sj_rel_path job) = Some f" "ss_out st = []" "cf_chunk_size (config st) \<noteq> 0"
    and "all_works pfs" "all_works pfr" "pf_sha pfr = pf_sha pfs"
    and "\<not> ss_incompatible rc" "om_inv (ss_incoming rc)" "om_find (ss_incoming rc) (sj_xid job) = None"
    and "sv_tag (ss_service rc) = sv_tag (ss_service st)"
    and "is_safe_relpath (sj_rel_path job)" "length (sj_rel_path job) < 65536" "length (df_data f) < 2 ^ 32"
    and "offers pfs rc job" "tells_apart pfs rc job (df_data f)" "ss_running st"
  shows "sv_disk (ss_service (fold (deliver pfr) (ss_out (serve_one pfs job st)) rc)) =
      (sv_disk (ss_service rc))(sj_rel_path job \<mapsto> f)
    \<and> sv_local (ss_service (fold (deliver pfr) (ss_out (serve_one pfs job st)) rc)) =
        man_set (sj_rel_path job) \<lparr>fm_size = of_nat (length (df_data f)), fm_mtime = df_mtime f,
          fm_mode = (case man_find (sv_local (ss_service st)) (sj_rel_path job) of Some m \<Rightarrow> fm_mode m | None \<Rightarrow> 0),
          fm_hash = pf_sha pfs (df_data f)\<rparr> (sv_local (ss_service rc))
    \<and> sj_rel_path job \<notin> set (ss_pulling (fold (deliver pfr) (ss_out (serve_one pfs job st)) rc))
    \<and> om_find (ss_incoming (fold (deliver pfr) (ss_out (serve_one pfs job st)) rc)) (sj_xid job) = None"
  by (rule serve_delivers) (fact assms)+

theorem file_transfer_exact_witness:
  "sj_rel_path whole_job \<notin> set (ss_pulling (fold (deliver sample_platform)
      (ss_out (serve_one sample_platform whole_job (holding [97] [1, 2] (sample_session []))))
      (sample_session [])))"
proof -
  let ?st = "holding [97] [1, 2] (sample_session [])"
  have st: "sv_disk (ss_service ?st) (sj_rel_path whole_job) = Some \<lparr>df_data = [1, 2], df_mtime = 5\<rparr>"
    "ss_out ?st = []" "cf_chunk_size (config ?st) \<noteq> 0"
    by (simp_all add: holding_def set_disk_def whole_job_def sample_session_def new_session_def new_service_def
        with_defaults_def default_config_def Let_def)
  have running: "ss_running ?st"
    by (simp add: holding_def set_disk_def sample_session_def new_session_def)
  have rc: "\<not> ss_incompatible (sample_session [])" "om_inv (ss_incoming (sample_session []))"
    "om_find (ss_incoming (sample_session [])) (sj_xid whole_job) = None"
    "sv_tag (ss_service (sample_session [])) = sv_tag (ss_service ?st)"
    by (simp_all add: holding_def set_disk_def sample_session_def new_session_def new_service_def Let_def)
  have path: "is_safe_relpath (sj_rel_path whole_job)" "length (sj_rel_path whole_job) < 65536"
    by (simp_all add: whole_job_def is_safe_relpath_def safe_segments.simps)
  have "offers sample_platform (sample_session []) whole_job"
    "tells_apart sample_platform (sample_session []) whole_job [1, 2]"
    by (simp_all add: offers_def tells_apart_def whole_job_def)
  from file_transfer_exact [OF st sample_platform_works sample_platform_works refl rc path _ this(1)] this(2) running
  show ?thesis
    by simp
qed

end
