(* ===== verification/Session_Safety.thy ===== *)
theory Session_Safety
  imports Session_Transfer
begin

text \<open>
  What holds of the receiving side whatever bytes a peer sends: transfers stay consistent with their
  temp files and hashes, and only verified data at safe paths is ever installed.
\<close>

section \<open>The parts each handler touches\<close>

text \<open>Transfers under way and their temp files.\<close>

definition xfer :: "session \<Rightarrow> (u64, incoming) omap \<times> (u64 \<Rightarrow> bytes option)" where
  "xfer st = (ss_incoming st, sv_temp (ss_service st))"

abbreviation disk :: "session \<Rightarrow> path \<Rightarrow> disk_file option" where
  "disk st \<equiv> sv_disk (ss_service st)"

lemma own_xfer: "own s = own t \<Longrightarrow> xfer s = xfer t"
  by (simp add: own_def xfer_def)

lemma own_disk: "own s = own t \<Longrightarrow> disk s = disk t"
  by (simp add: own_def)

lemma xfer_send [frame]: "xfer (send_msg w st) = xfer st" "xfer (emit ev st) = xfer st"
  by (simp_all add: xfer_def send_msg_def emit_def)

lemma disk_send [frame]: "disk (send_msg w st) = disk st" "disk (emit ev st) = disk st"
  "disk (set_temp x t st) = disk st" "disk (set_incoming inc st) = disk st" "disk (release_pull p st) = disk st"
  by (simp_all add: send_msg_def emit_def set_temp_def set_incoming_def release_pull_def)

lemma abandon_frame [frame]:
  "xfer (abandon_pull pf p st) = xfer st" "disk (abandon_pull pf p st) = disk st"
  using own_xfer [OF own_maybe_synced [of pf "release_pull p st"]]
  by (simp_all add: abandon_pull_def frame) (simp add: xfer_def release_pull_def)

lemma xfer_queue_pulls [frame]: "xfer (fold queue_pull ps st) = xfer st"
  by (induction ps arbitrary: st) (simp_all add: queue_pull_def xfer_def)

lemma disk_queue_pulls [frame]: "disk (fold queue_pull ps st) = disk st"
  by (induction ps arbitrary: st) (simp_all add: queue_pull_def)

lemma xfer_deletes: "xfer (fst (fold (delete_local pf) ps sm)) = xfer (fst sm)"
  by (induction ps arbitrary: sm) (simp_all add: delete_local_def xfer_def note_local_removed_def bump_def)

lemma disk_deletes:
  "disk (fst (fold (delete_local pf) ps sm)) p = disk (fst sm) p \<or> disk (fst (fold (delete_local pf) ps sm)) p = None"
proof (induction ps arbitrary: sm)
  case (Cons q ps)
  have "disk (fst (delete_local pf q sm)) p = disk (fst sm) p \<or> disk (fst (delete_local pf q sm)) p = None"
    by (simp add: delete_local_def note_local_removed_def bump_def)
  then show ?case
    using Cons.IH [of "delete_local pf q sm"] by auto
qed simp

lemma reconcile_frame:
  "xfer (reconcile_and_act pf st) = xfer st"
  "disk (reconcile_and_act pf st) p = disk st p \<or> disk (reconcile_and_act pf st) p = None"
proof -
  let ?plan = "reconcile (sv_base (ss_service st)) (sv_local (ss_service st)) (ss_remote st) (opts_of (config st))"
  obtain st1 mutated where del: "fold (delete_local pf) (pl_delete_local ?plan) (emit (Round ?plan) st, False) = (st1, mutated)"
    by force
  then have st1: "xfer st1 = xfer st" "disk st1 p = disk st p \<or> disk st1 p = None"
    using xfer_deletes [of pf "pl_delete_local ?plan" "(emit (Round ?plan) st, False)"]
      disk_deletes [of pf "pl_delete_local ?plan" "(emit (Round ?plan) st, False)" p]
    by (simp_all add: frame)
  let ?st2 = "fold queue_pull (pl_pull ?plan) st1"
  have st2: "xfer ?st2 = xfer st" "disk ?st2 = disk st1"
    using st1(1) by (simp_all add: frame)
  have fin: "reconcile_and_act pf st =
      (if \<not> ss_have_remote st then st else maybe_synced pf (if mutated then advertise ?st2 else ?st2))"
    using del by (simp add: reconcile_and_act_def Let_def)
  have "own (maybe_synced pf (if mutated then advertise ?st2 else ?st2)) = own ?st2"
    by (simp add: frame)
  from own_xfer [OF this] own_disk [OF this] st1 st2 fin
  show "xfer (reconcile_and_act pf st) = xfer st"
    "disk (reconcile_and_act pf st) p = disk st p \<or> disk (reconcile_and_act pf st) p = None"
    by auto
qed

section \<open>Consistent transfers\<close>

text \<open>The bytes received so far, at most \<open>b\<close>, are counted, hashed and in the temp file.\<close>

definition transfer_ok :: "nat \<Rightarrow> bytes option \<Rightarrow> u64 \<Rightarrow> incoming \<Rightarrow> bool" where
  "transfer_ok b t xid inc \<longleftrightarrow> in_xid inc = xid \<and> is_safe_relpath (in_rel_path inc)
     \<and> in_written inc = of_nat (length (in_hash inc)) \<and> length (in_hash inc) \<le> b
     \<and> (t = None \<or> t = Some (in_hash inc))"

text \<open>All transfers but one.\<close>

definition ok_but :: "nat \<Rightarrow> u64 option \<Rightarrow> session \<Rightarrow> bool" where
  "ok_but b x st \<longleftrightarrow> om_inv (ss_incoming st) \<and>
     list_all (\<lambda>(k, inc). Some k \<noteq> x \<longrightarrow> transfer_ok b (temp_of st k) k inc) (ss_incoming st)"

abbreviation incoming_ok :: "nat \<Rightarrow> session \<Rightarrow> bool" where
  "incoming_ok b \<equiv> ok_but b None"

lemma transfer_ok_counts [simp]:
  "transfer_ok b t x (inc\<lparr>in_on_wire := n\<rparr>) = transfer_ok b t x inc"
  "transfer_ok b t x (inc\<lparr>in_last_ack := n\<rparr>) = transfer_ok b t x inc"
  by (simp_all add: transfer_ok_def)

lemma transfer_ok_xid: "transfer_ok b t x inc \<Longrightarrow> in_xid inc = x"
  by (simp add: transfer_ok_def)

lemma transfer_ok_mono: "transfer_ok b t x inc \<Longrightarrow> b \<le> c \<Longrightarrow> transfer_ok c t x inc"
  by (auto simp: transfer_ok_def)

lemma ok_but_find:
  "ok_but b x st \<longleftrightarrow> om_inv (ss_incoming st) \<and>
     (\<forall>k inc. om_find (ss_incoming st) k = Some inc \<longrightarrow> Some k \<noteq> x \<longrightarrow> transfer_ok b (temp_of st k) k inc)"
  by (auto simp: ok_but_def list_all_iff om_find_Some)

lemma ok_but_xfer: "xfer s = xfer t \<Longrightarrow> ok_but b x s = ok_but b x t"
  by (simp add: ok_but_def xfer_def)

lemma ok_but_weaken: "incoming_ok b st \<Longrightarrow> ok_but b x st"
  by (simp add: ok_but_find)

lemma ok_but_mono: "ok_but b x st \<Longrightarrow> b \<le> c \<Longrightarrow> ok_but c x st"
  by (auto simp: ok_but_find intro: transfer_ok_mono)

lemma ok_but_temp: "ok_but b (Some x) st \<Longrightarrow> ok_but b (Some x) (set_temp x t st)"
  by (simp add: ok_but_find set_temp_def)

lemma ok_drop_temp [intro]: "ok_but b x st \<Longrightarrow> ok_but b x (drop_temp pf k st)"
  by (auto simp: ok_but_find drop_temp_def set_temp_def transfer_ok_def)

lemma ok_erase: "ok_but b (Some x) st \<Longrightarrow> incoming_ok b (st\<lparr>ss_incoming := om_erase x (ss_incoming st)\<rparr>)"
  using om.inv_erase [of "ss_incoming st" x] om.find_erase [of "ss_incoming st" x]
  by (auto simp: ok_but_find)

lemma ok_assign:
  assumes "ok_but b (Some x) st" "transfer_ok b (temp_of st x) x inc"
  shows "incoming_ok b (st\<lparr>ss_incoming := om_assign x inc (ss_incoming st)\<rparr>)"
  using assms om.inv_assign [of "ss_incoming st" x inc] om.find_assign [of "ss_incoming st" x inc]
  by (auto simp: ok_but_find)

lemma ok_abandon [simp]: "ok_but b x (abandon_pull pf p st) = ok_but b x st"
  by (rule ok_but_xfer) (simp add: frame)

lemma ok_send [simp]: "ok_but b x (send_msg w st) = ok_but b x st" "ok_but b x (emit ev st) = ok_but b x st"
  by (rule ok_but_xfer, simp add: frame)+

lemma ok_fail: "ok_but b (Some (in_xid inc)) st \<Longrightarrow> incoming_ok b (fail_incoming pf inc keep_res st)"
  by (auto simp: fail_incoming_def Let_def dest!: ok_erase intro!: ok_drop_temp)

lemma ok_file_start:
  assumes "incoming_ok b st"
  shows "incoming_ok b (handle_file_start pf r st)"
proof -
  obtain xid ra p rb len64 rc mtime rd mode re is_delta rf where
    rds: "r_u64 r = (xid, ra)" "r_str16 ra = (p, rb)" "r_u64 rb = (len64, rc)" "r_i64 rc = (mtime, rd)"
      "r_u32 rd = (mode, re)" "r_u8 re = (is_delta, rf)"
    by (metis prod.exhaust)
  let ?inc = "\<lparr>in_xid = xid, in_rel_path = p, in_size = len64, in_mtime = mtime, in_mode = mode,
            in_is_delta = (is_delta \<noteq> 0), in_base = None, in_written = 0, in_on_wire = 0,
            in_last_ack = 0, in_hash = []\<rparr>"
  let ?st = "set_temp xid (Some []) (set_temp xid None st)"
  have but: "ok_but b (Some xid) (set_temp xid None st)" "ok_but b (Some xid) ?st"
    using assms by (simp_all add: ok_but_weaken ok_but_temp)
  have cleared: "incoming_ok b (set_temp xid None st)"
    using assms by (auto simp: ok_but_find set_temp_def transfer_ok_def)
  have "incoming_ok b (?st\<lparr>ss_incoming := om_assign xid (?inc\<lparr>in_base := base\<rparr>) (ss_incoming ?st)\<rparr>)"
    if "is_safe_relpath p" for base
    using that by (intro ok_assign [OF but(2)]) (simp add: transfer_ok_def)
  moreover have "incoming_ok b (fail_incoming pf ?inc False ?st)"
    using but(2) by (intro ok_fail) simp
  ultimately show ?thesis
    using assms cleared
    unfolding handle_file_start_def rds split Let_def
    by (auto intro!: ok_drop_temp simp del: set_temp_twice)
qed

text \<open>Appending keeps a transfer consistent while its bytes can be counted.\<close>

lemma append_ok:
  assumes "transfer_ok b (temp_of st x) x inc" "b + length d < 2 ^ 64"
    and "append_bytes d (inc, st) = (inc', st')"
  shows "transfer_ok (b + length d) (temp_of st' x) x inc' \<and> ss_incoming st' = ss_incoming st
    \<and> disk st' = disk st \<and> (\<forall>k. k \<noteq> x \<longrightarrow> temp_of st' k = temp_of st k)"
  using assms
  by (auto simp: append_bytes_def transfer_ok_def set_temp_def unat_u64_of_nat write_at_end)

lemma ok_store:
  assumes "incoming_ok b st" "b \<le> c" "transfer_ok c (temp_of st' x) x inc"
    and "ss_incoming st' = ss_incoming st" "\<forall>k. k \<noteq> x \<longrightarrow> temp_of st' k = temp_of st k"
  shows "incoming_ok c (set_incoming inc st')" "incoming_ok c (fail_incoming pf inc keep_res st')"
proof -
  have x: "in_xid inc = x"
    using assms(3) by (rule transfer_ok_xid)
  have "ok_but b (Some x) st'"
    using assms(1,4,5) by (auto simp: ok_but_find)
  then have but: "ok_but c (Some x) st'"
    using assms(2) by (rule ok_but_mono)
  from ok_assign [OF this assms(3)] show "incoming_ok c (set_incoming inc st')"
    by (simp add: set_incoming_def x)
  show "incoming_ok c (fail_incoming pf inc keep_res st')"
    by (rule ok_fail) (simp add: x but)
qed

lemma blob32_length: "length (fst (r_blob32 r)) < 2 ^ 32"
proof -
  have "length (fst (read_str n r')) \<le> n" for n r'
    by (simp add: read_str_def split: prod.split)
  from le_less_trans [OF this unat_u32_lt] show ?thesis
    by (simp add: r_blob32_def split: prod.split)
qed

lemma ok_literal:
  assumes ok: "incoming_ok b st" and room: "b + 2 ^ 32 < 2 ^ 64"
  shows "incoming_ok (b + 2 ^ 32) (handle_file_literal pf r st)"
proof -
  obtain xid ra data rb where rds: "r_u64 r = (xid, ra)" "r_blob32 ra = (data, rb)"
    by (metis prod.exhaust)
  have stay: "incoming_ok (b + 2 ^ 32) st"
    using ok by (rule ok_but_mono) simp
  show ?thesis
  proof (cases "rd_ok rb \<and> om_find (ss_incoming st) xid \<noteq> None")
    case False
    then show ?thesis
      using stay by (auto simp: handle_file_literal_def rds)
  next
    case True
    then obtain inc where inc: "om_find (ss_incoming st) xid = Some inc" by blast
    have t: "transfer_ok b (temp_of st xid) xid inc"
      using ok inc by (simp add: ok_but_find)
    have len: "length data \<le> 2 ^ 32"
      using rds(2) blob32_length by (metis order.strict_implies_order fst_conv)
    then have fits: "b + length data < 2 ^ 64"
      using room by linarith
    obtain inc' st' where app: "append_bytes data (inc, st) = (inc', st')" by force
    note a = append_ok [OF t fits app]
    have "transfer_ok (b + 2 ^ 32) (temp_of st' xid) xid inc'"
      using a len by (auto intro: transfer_ok_mono)
    then have "incoming_ok (b + 2 ^ 32) (set_incoming (inc'\<lparr>in_on_wire := n, in_last_ack := m\<rparr>) st')"
      "incoming_ok (b + 2 ^ 32) (set_incoming (inc'\<lparr>in_on_wire := n\<rparr>) st')" for n m
      using a by (auto intro!: ok_store(1) [OF ok])
    moreover have "incoming_ok (b + 2 ^ 32) (fail_incoming pf inc False st)"
      by (rule ok_fail [OF ok_but_weaken [OF stay]])
    ultimately show ?thesis
      using True inc unfolding handle_file_literal_def rds split Let_def by (simp add: app)
  qed
qed

lemma copy_loop_step:
  assumes "left \<noteq> 0" "pf_seek pf (in_xid (fst is)) src" "d \<noteq> []" "pf_write pf (in_xid (fst is)) (in_written (fst is))"
    and d: "take (min bufsize left) (drop (unat src) base) = d"
  shows "copy_loop pf base bufsize left src is
    = copy_loop pf base bufsize (left - length d) (src + of_nat (length d)) (append_bytes d is)"
  using assms(1-4) by (subst copy_loop.simps) (simp add: d Let_def)

lemma copy_loop_ok:
  assumes "transfer_ok b (temp_of st x) x inc" "b + left < 2 ^ 64"
    and "copy_loop pf base bufsize left src (inc, st) = (good, inc', st')"
  shows "transfer_ok (b + left) (temp_of st' x) x inc' \<and> ss_incoming st' = ss_incoming st \<and> disk st' = disk st
    \<and> (\<forall>k. k \<noteq> x \<longrightarrow> temp_of st' k = temp_of st k)"
  using assms
proof (induction left arbitrary: b src inc st rule: less_induct)
  case (less left)
  obtain d where d: "take (min bufsize left) (drop (unat src) base) = d" by blast
  show ?case
  proof (cases "left = 0 \<or> \<not> pf_seek pf (in_xid inc) src \<or> d = [] \<or> \<not> pf_write pf (in_xid inc) (in_written inc)")
    case True
    then have "copy_loop pf base bufsize left src (inc, st) = (left = 0, inc, st)"
      by (subst copy_loop.simps) (auto simp: d Let_def)
    then show ?thesis
      using less.prems transfer_ok_mono [OF less.prems(1), of "b + left"] by simp
  next
    case False
    obtain inc1 st1 where app: "append_bytes d (inc, st) = (inc1, st1)" by force
    have len: "length d \<le> left" "0 < length d" using False d by auto
    have "b + length d < 2 ^ 64"
      using less.prems(2) len(1) by linarith
    note a = append_ok [OF less.prems(1) this app]
    have rest: "copy_loop pf base bufsize (left - length d) (src + of_nat (length d)) (inc1, st1) = (good, inc', st')"
      using less.prems(3) False copy_loop_step [of left pf "(inc, st)" src d bufsize base] d app by simp
    have less1: "left - length d < left" "b + length d + (left - length d) = b + left"
      using len False by auto
    note less.IH [OF less1(1) a [THEN conjunct1] _ rest, unfolded less1(2), OF less.prems(2)]
    with a show ?thesis by simp
  qed
qed

lemma ok_copy:
  assumes ok: "incoming_ok b st" and room: "b + 2 ^ 32 < 2 ^ 64"
  shows "incoming_ok (b + 2 ^ 32) (handle_file_copy pf r st)"
proof -
  obtain xid ra off rb len rc where rds: "r_u64 r = (xid, ra)" "r_u64 ra = (off, rb)" "r_u32 rb = (len, rc)"
    by (metis prod.exhaust)
  have stay: "incoming_ok (b + 2 ^ 32) st"
    using ok by (rule ok_but_mono) simp
  show ?thesis
  proof (cases "rd_ok rc \<and> (\<exists>inc base. om_find (ss_incoming st) xid = Some inc \<and> in_base inc = Some base)")
    case False
    then show ?thesis
      using stay by (auto simp: handle_file_copy_def rds split: option.splits)
  next
    case True
    then obtain inc base where inc: "om_find (ss_incoming st) xid = Some inc" "in_base inc = Some base" by blast
    have t: "transfer_ok b (temp_of st xid) xid inc"
      using ok inc by (simp add: ok_but_find)
    have len: "b + unat len < 2 ^ 64" "b + unat len \<le> b + 2 ^ 32"
      using room unat_u32_lt [of len] by simp_all
    obtain good inc' st' where loop:
      "copy_loop pf base (min (unat len) 65536) (unat len) off (inc, st) = (good, inc', st')"
      by (metis prod.exhaust)
    note a = copy_loop_ok [OF t len(1) loop]
    then have "transfer_ok (b + 2 ^ 32) (temp_of st' xid) xid inc'"
      using len(2) by (blast intro: transfer_ok_mono)
    from ok_store [OF ok _ this] a
    have "incoming_ok (b + 2 ^ 32) (set_incoming inc' st')" "incoming_ok (b + 2 ^ 32) (fail_incoming pf inc' False st')"
      by simp_all
    then show ?thesis
      using True unfolding handle_file_copy_def rds split Let_def by (simp add: inc loop)
  qed
qed

text \<open>Installing: at most the disk and this transfer's temp file change.\<close>

lemma move_replace_ok:
  assumes "ok_but b (Some x) st" "move_replace pf x p t st = (st', moved)"
  shows "ok_but b (Some x) st'"
proof -
  have disk: "ok_but b (Some x) (set_disk q f s) = ok_but b (Some x) s" for q f s
    by (rule ok_but_xfer) (simp add: xfer_def set_disk_def)
  show ?thesis
    using assms by (auto simp: move_replace_def Let_def disk ok_but_temp split: if_splits)
qed

lemma ok_finalize:
  assumes "incoming_ok b st"
  shows "incoming_ok b (finalize_incoming pf inc digest st)"
proof -
  let ?x = "in_xid inc" and ?p = "in_rel_path inc"
  let ?acked = "send_msg (file_ack st ?x (in_on_wire inc)) st"
  obtain st1 moved where move: "move_replace pf ?x ?p (in_mtime inc) ?acked = (st1, moved)"
    by force
  have "ok_but b (Some ?x) ?acked"
    using assms by (simp add: ok_but_weaken)
  then have st1: "ok_but b (Some ?x) st1"
    using move by (rule move_replace_ok)
  have failed: "incoming_ok b (drop_temp pf ?x (abandon_pull pf ?p (st1\<lparr>ss_incoming := om_erase ?x (ss_incoming st1)\<rparr>)))"
    using ok_erase [OF st1] by (intro ok_drop_temp) simp
  let ?st2 = "on_service (note_local_set ?p \<lparr>fm_size = in_written inc, fm_mtime = in_mtime inc,
      fm_mode = in_mode inc, fm_hash = digest\<rparr>) st1"
  let ?st3 = "release_pull ?p (?st2\<lparr>ss_incoming := om_erase ?x (ss_incoming ?st2), ss_advertise_pending := True\<rparr>)"
  have "xfer ?st3 = xfer (st1\<lparr>ss_incoming := om_erase ?x (ss_incoming st1)\<rparr>)"
    by (simp add: xfer_def release_pull_def note_local_set_def bump_def)
  then have "incoming_ok b ?st3"
    using ok_erase [OF st1] ok_but_xfer by blast
  moreover have "xfer (maybe_synced pf s) = xfer s" for s
    by (rule own_xfer) (simp add: frame)
  then have "incoming_ok b (maybe_synced pf s) = incoming_ok b s" for s
    by (rule ok_but_xfer)
  ultimately show ?thesis
    using failed unfolding finalize_incoming_def Let_def move split by (cases moved) simp_all
qed

lemma ok_file_end:
  assumes ok: "incoming_ok b st"
  shows "incoming_ok b (handle_file_end pf r st)"
proof -
  obtain xid ra expected rb where rds: "r_u64 r = (xid, ra)" "r_bytes 32 ra = (expected, rb)"
    by (metis prod.exhaust)
  have "incoming_ok b (fail_incoming pf inc keep_res st)" for inc keep_res
    by (rule ok_fail [OF ok_but_weaken [OF ok]])
  then show ?thesis
    using ok ok_finalize [OF ok] unfolding handle_file_end_def rds split Let_def
    by (simp split: option.split)
qed

section \<open>The other handlers leave transfers alone\<close>

lemma xfer_advertise [frame]: "xfer (advertise st) = xfer st"
  by (rule own_xfer) (simp add: frame)

lemma xfer_refuse [frame]: "xfer (refuse st) = xfer st"
  by (simp add: refuse_def frame) (simp add: xfer_def)

lemma xfer_hello: "xfer (handle_hello r st) = xfer st"
  by (simp add: handle_hello_def Let_def frame split: prod.split)

lemma xfer_stage: "stage_update flags patch st = (st', c) \<Longrightarrow> xfer st' = xfer st"
  by (auto simp: stage_update_def Let_def xfer_def split: if_splits)

lemma xfer_update: "xfer (handle_manifest_update pf r st) = xfer st"
  by (auto simp: handle_manifest_update_def Let_def reconcile_frame dest: xfer_stage split: prod.split option.split)

lemma xfer_request: "xfer (handle_request r st) = xfer st"
  by (auto simp: handle_request_def Let_def decline_def frame split: prod.split option.split)
    (simp_all add: xfer_def)

lemma xfer_ack: "xfer (handle_file_ack r st) = xfer st"
  by (auto simp: handle_file_ack_def Let_def xfer_def split: prod.split)

lemma xfer_not_found: "xfer (handle_not_found pf r st) = xfer st"
  by (auto simp: handle_not_found_def Let_def frame split: prod.split)

lemma ok_handle:
  assumes "incoming_ok b st" "b + 2 ^ 32 < 2 ^ 64"
  shows "incoming_ok (b + 2 ^ 32) (handle pf op r st)"
proof -
  have stay: "incoming_ok (b + 2 ^ 32) st"
    using assms(1) by (rule ok_but_mono) simp
  note keeps = ok_but_xfer [THEN iffD2, OF _ stay]
  show ?thesis
  proof (cases "ss_incompatible st")
    case False
    have "incoming_ok (b + 2 ^ 32) (st\<lparr>ss_incompatible := True\<rparr>)"
      by (rule keeps) (simp add: xfer_def)
    then show ?thesis
      using False ok_literal [OF assms] ok_copy [OF assms] keeps [OF xfer_hello] keeps [OF xfer_update]
        keeps [OF xfer_request] keeps [OF xfer_ack] keeps [OF xfer_not_found]
        ok_file_start [OF stay] ok_file_end [OF stay]
      by (cases op) (simp_all add: handle_def)
  next
    case True
    with stay show ?thesis by (simp add: handle_def)
  qed
qed

section \<open>The two threads, the scanner and the end\<close>

lemma ok_deliver:
  assumes "incoming_ok b st" "b + 2 ^ 32 < 2 ^ 64"
  shows "incoming_ok (b + 2 ^ 32) (deliver pf m st)"
proof -
  have "incoming_ok (b + 2 ^ 32) st"
    using assms(1) by (rule ok_but_mono) simp
  with ok_handle [OF assms] show ?thesis
    by (simp add: deliver_def Let_def split: prod.split option.split)
qed

lemma keep_send_literals:
  "xfer (fold (send_literal x) ds st) = xfer st" "disk (fold (send_literal x) ds st) = disk st"
proof -
  have "ss_incoming (fold (send_literal x) ds st) = ss_incoming st"
    by (induction ds arbitrary: st) (simp_all add: send_literal_def note_sent_def send_msg_def)
  then show "xfer (fold (send_literal x) ds st) = xfer st" "disk (fold (send_literal x) ds st) = disk st"
    using send_literals [of x ds st] by (simp_all add: xfer_def)
qed

lemma keep_send_ops:
  "xfer (fold (send_op n x) ops st) = xfer st" "disk (fold (send_op n x) ops st) = disk st"
  by (induction ops arbitrary: st) (simp_all add: send_op_def keep_send_literals frame)

lemma keep_serve_whole:
  "xfer (serve_whole pf job f mode st) = xfer st" "disk (serve_whole pf job f mode st) = disk st"
  by (simp_all add: serve_whole_def Let_def decline_def keep_send_literals frame)

lemma keep_serve_delta:
  "xfer (serve_delta pf job sig f mode st) = xfer st" "disk (serve_delta pf job sig f mode st) = disk st"
  by (simp_all add: serve_delta_def Let_def keep_serve_whole keep_send_ops frame)

lemma keep_serve_one:
  "xfer (serve_one pf job st) = xfer st" "disk (serve_one pf job st) = disk st"
  by (simp_all add: serve_one_def Let_def decline_def keep_serve_whole keep_serve_delta frame split: option.split)
    (simp add: xfer_def)

lemma keep_maybe_synced [frame]:
  "xfer (maybe_synced pf st) = xfer st" "disk (maybe_synced pf st) = disk st"
  by (rule own_xfer, simp add: frame) (simp add: frame)

lemma keep_sender:
  "xfer (sender_step pf st) = xfer st" "disk (sender_step pf st) = disk st"
proof -
  have "xfer (st\<lparr>ss_serve_q := q\<rparr>) = xfer st" "xfer (st\<lparr>ss_outstanding_serves := n\<rparr>) = xfer st" for q n st
    by (simp_all add: xfer_def)
  then show "xfer (sender_step pf st) = xfer st" "disk (sender_step pf st) = disk st"
    by (simp_all add: sender_step_def Let_def keep_serve_one frame split: list.split)
qed

lemma keep_requester:
  "xfer (requester_step pf st) = xfer st" "disk (requester_step pf st) = disk st"
  by (simp_all add: requester_step_def send_request_def Let_def frame) (simp add: xfer_def)

lemma local_changed_frame:
  "xfer (local_changed pf st) = xfer st"
  "disk (local_changed pf st) p = disk st p \<or> disk (local_changed pf st) p = None"
  using reconcile_frame(2) [of pf "advertise st" p]
  by (simp_all add: local_changed_def reconcile_frame(1) frame own_fields [OF own_advertise])

lemma stop_drops:
  "xfer (fold (\<lambda>e. drop_temp pf (fst e)) es st) = (ss_incoming st, snd (xfer (fold (\<lambda>e. drop_temp pf (fst e)) es st)))
   \<and> disk (fold (\<lambda>e. drop_temp pf (fst e)) es st) = disk st"
  by (induction es arbitrary: st) (simp_all add: xfer_def drop_temp_def set_temp_def)

lemma stop_frame: "disk (stop pf st) = disk st" "ss_running st \<Longrightarrow> ss_incoming (stop pf st) = []"
  using stop_drops [of pf "ss_incoming st" "st\<lparr>ss_running := False, ss_incoming := [], ss_pull_queue := []\<rparr>"]
  by (simp_all add: stop_def xfer_def)

lemma ok_step:
  assumes "incoming_ok b st" "b + 2 ^ 32 < 2 ^ 64"
  shows "incoming_ok (b + 2 ^ 32) (session_step pf i st)"
proof -
  have stay: "incoming_ok (b + 2 ^ 32) st"
    using assms(1) by (rule ok_but_mono) simp
  have service: "xfer (on_service f st) = xfer st" if "\<And>sv. sv_temp (f sv) = sv_temp sv" for f
    using that by (simp add: xfer_def)
  note keeps = ok_but_xfer [THEN iffD2, OF _ stay]
  show ?thesis
  proof (cases i)
    case (Arrives m)
    with ok_deliver [OF assms] show ?thesis by simp
  next
    case Requests
    with keeps [OF keep_requester(1)] show ?thesis by simp
  next
    case Serves
    with keeps [OF keep_sender(1)] show ?thesis by simp
  next
    case (Scanned m)
    have "xfer (session_step pf i st) = xfer st"
      unfolding Scanned session_step.simps local_changed_frame(1)
      by (rule service) (simp add: set_local_manifest_def bump_def)
    then show ?thesis by (rule keeps)
  next
    case (Patched ps)
    have "xfer (on_service (apply_local_patch ps) st) = xfer st"
      by (rule service) (simp add: apply_local_patch_def bump_def)
    then have "xfer (session_step pf i st) = xfer st"
      by (simp add: Patched local_changed_frame(1))
    then show ?thesis by (rule keeps)
  next
    case (Edited d)
    have "xfer (session_step pf i st) = xfer st"
      unfolding Edited session_step.simps by (rule service) simp
    then show ?thesis by (rule keeps)
  next
    case Stops
    show ?thesis
    proof (cases "ss_running st")
      case True
      with Stops stop_frame(2) [of st pf] show ?thesis by (simp add: ok_but_def)
    next
      case False
      with Stops stay show ?thesis by (simp add: stop_def)
    qed
  qed
qed

lemma reached_ok: "length ins < 2 ^ 32 \<Longrightarrow> incoming_ok (2 ^ 32 * length ins) (session_run ins (new_session sv))"
proof (induction ins rule: rev_induct)
  case Nil
  then show ?case by (simp add: ok_but_def new_session_def)
next
  case (snoc pi ins)
  obtain pf i where pi: "pi = (pf, i)" by force
  from snoc have room: "(2 :: nat) ^ 32 * length ins + 2 ^ 32 < 2 ^ 64" by simp
  from snoc have "incoming_ok (2 ^ 32 * length ins) (session_run ins (new_session sv))" by simp
  from ok_step [OF this room, of pf i] show ?case by (simp add: pi algebra_simps)
qed

section \<open>What is installed\<close>

lemma find_assigned: "om_find (om_assign k v m) k = Some v"
  by (induction m) auto

lemma disk_handlers:
  "disk (handle_hello r st) = disk st" "disk (handle_request r st) = disk st"
  "disk (handle_file_ack r st) = disk st" "disk (handle_not_found pf r st) = disk st"
  by (simp_all add: handle_hello_def refuse_def handle_request_def decline_def handle_file_ack_def
      handle_not_found_def Let_def frame own_fields [OF own_advertise] split: prod.split option.split)

lemma disk_fail [frame]: "disk (drop_temp pf x st) = disk st" "disk (fail_incoming pf inc k st) = disk st"
  by (simp_all add: drop_temp_def fail_incoming_def Let_def frame)

lemma disk_update: "disk (handle_manifest_update pf r st) p = disk st p \<or> disk (handle_manifest_update pf r st) p = None"
proof -
  have staged: "disk st' = disk st" if "stage_update flags patch st = (st', c)" for flags patch st' c
    using that by (auto simp: stage_update_def Let_def split: if_splits)
  then have "disk (reconcile_and_act pf st') p = disk st p \<or> disk (reconcile_and_act pf st') p = None"
    if "stage_update flags patch st = (st', c)" for flags patch st' c
    using reconcile_frame(2) [of pf st' p] that by metis
  with staged show ?thesis
    unfolding handle_manifest_update_def Let_def
    by (simp split: prod.split option.split)
qed

lemma disk_file_start: "disk (handle_file_start pf r st) = disk st"
  by (simp add: handle_file_start_def Let_def frame split: prod.split)

lemma disk_append: "append_bytes d (inc, st) = (inc', st') \<Longrightarrow> disk st' = disk st"
  by (auto simp: append_bytes_def frame)

lemma disk_literal: "disk (handle_file_literal pf r st) = disk st"
  by (auto simp: handle_file_literal_def Let_def frame disk_append split: prod.split option.split)

lemma disk_copy_loop: "disk (snd (snd (copy_loop pf base n left src is))) = disk (snd is)"
proof (induction pf base n left src "is" rule: copy_loop.induct)
  case (1 pf base n left src "is")
  have "disk (snd (append_bytes d is)) = disk (snd is)" for d
    by (cases "is") (simp add: append_bytes_def frame)
  with 1 show ?case
    by (subst copy_loop.simps) (simp add: Let_def)
qed

lemma disk_copy: "disk (handle_file_copy pf r st) = disk st"
proof -
  have "disk st' = disk st" if "copy_loop pf base n left src (inc, st) = (g, inc', st')" for base n left src inc g inc' st'
    using disk_copy_loop [of pf base n left src "(inc, st)"] that by simp
  then show ?thesis
    by (auto simp: handle_file_copy_def Let_def frame split: prod.split option.split)
qed

text \<open>A move puts the whole temp file in place, or at worst removes what was there.\<close>

lemma move_replace_disk:
  assumes "move_replace pf x q t st = (st', moved)" "temp_of st x = None \<or> temp_of st x = Some data"
  shows "sv_local (ss_service st') = sv_local (ss_service st)
    \<and> (moved \<longrightarrow> disk st' = (disk st)(q \<mapsto> \<lparr>df_data = data, df_mtime = t\<rparr>))
    \<and> (\<not> moved \<longrightarrow> disk st' = disk st \<or> disk st' = (disk st)(q := None))"
  using assms by (auto simp: move_replace_def Let_def set_disk_def set_temp_def split: if_splits)

lemma finalize_disk:
  assumes "temp_of st (in_xid inc) = None \<or> temp_of st (in_xid inc) = Some data"
    and "disk (finalize_incoming pf inc digest st) p \<noteq> disk st p"
  shows "disk (finalize_incoming pf inc digest st) p = None \<or> p = in_rel_path inc
    \<and> disk (finalize_incoming pf inc digest st) p = Some \<lparr>df_data = data, df_mtime = in_mtime inc\<rparr>
    \<and> man_find (sv_local (ss_service (finalize_incoming pf inc digest st))) p = Some (landed inc digest)"
proof -
  let ?x = "in_xid inc" and ?p = "in_rel_path inc"
  let ?acked = "send_msg (file_ack st ?x (in_on_wire inc)) st"
  obtain st1 moved where move: "move_replace pf ?x ?p (in_mtime inc) ?acked = (st1, moved)"
    by force
  have "temp_of ?acked ?x = None \<or> temp_of ?acked ?x = Some data" "disk ?acked = disk st"
    using assms(1) by (simp_all add: send_msg_def)
  note m = move_replace_disk [OF move this(1), unfolded this(2)]
  show ?thesis
  proof (cases moved)
    case True
    then have "disk (finalize_incoming pf inc digest st) = (disk st)(?p \<mapsto> \<lparr>df_data = data, df_mtime = in_mtime inc\<rparr>)"
      "sv_local (ss_service (finalize_incoming pf inc digest st)) = man_set ?p (landed inc digest) (sv_local (ss_service st1))"
      using m move by (simp_all add: finalize_incoming_def Let_def frame release_pull_def emit_def note_local_set_def
          bump_def landed_def)
    then show ?thesis
      using assms(2) by (auto simp: find_assigned man_find_def man_set_def split: if_splits)
  next
    case False
    then have "disk (finalize_incoming pf inc digest st) = disk st1"
      using move by (simp add: finalize_incoming_def Let_def frame)
    then show ?thesis
      using assms(2) m False by (auto split: if_splits)
  qed
qed

text \<open>What one input does to a file.\<close>

definition verified :: "platform \<Rightarrow> path \<Rightarrow> session \<Rightarrow> bool" where
  "verified pf p st \<longleftrightarrow> is_safe_relpath p \<and>
     (case (disk st p, man_find (sv_local (ss_service st)) p) of
        (Some f, Some m) \<Rightarrow> fm_hash m = pf_sha pf (df_data f) \<and> fm_size m = of_nat (length (df_data f))
          \<and> fm_mtime m = df_mtime f
      | _ \<Rightarrow> False)"

lemma disk_file_end:
  assumes ok: "incoming_ok b st" and changed: "disk (handle_file_end pf r st) p \<noteq> disk st p"
  shows "disk (handle_file_end pf r st) p = None \<or> verified pf p (handle_file_end pf r st)"
proof -
  obtain xid ra expected rb where rds: "r_u64 r = (xid, ra)" "r_bytes 32 ra = (expected, rb)"
    by (metis prod.exhaust)
  have good: "rd_ok rb" using changed by (cases "rd_ok rb") (simp_all add: handle_file_end_def rds)
  moreover obtain inc where inc: "om_find (ss_incoming st) xid = Some inc"
    using changed by (cases "om_find (ss_incoming st) xid") (simp_all add: handle_file_end_def rds good)
  moreover have "pf_sha pf (in_hash inc) = expected"
  proof (rule ccontr)
    assume "pf_sha pf (in_hash inc) \<noteq> expected"
    then have "disk (handle_file_end pf r st) = disk st"
      using inc good by (simp add: handle_file_end_def rds Let_def frame)
    with changed show False by simp
  qed
  ultimately have fin: "handle_file_end pf r st = finalize_incoming pf inc (pf_sha pf (in_hash inc)) st"
    by (simp add: handle_file_end_def rds)
  have t: "transfer_ok b (temp_of st xid) xid inc"
    using ok inc by (simp add: ok_but_find)
  then have "temp_of st (in_xid inc) = None \<or> temp_of st (in_xid inc) = Some (in_hash inc)"
    by (simp add: transfer_ok_def)
  from finalize_disk [OF this changed [unfolded fin]] t show ?thesis
    by (auto simp: fin verified_def transfer_ok_def landed_def)
qed

lemma disk_step:
  assumes ok: "incoming_ok b st" and "\<And>d. i \<noteq> Edited d"
    and changed: "disk (session_step pf i st) p \<noteq> disk st p"
  shows "disk (session_step pf i st) p = None \<or> verified pf p (session_step pf i st)"
proof (cases i)
  case (Arrives m)
  obtain op r where "session_step pf i st = handle pf op r st" "\<not> ss_incompatible st"
    using changed by (auto simp: Arrives deliver_def handle_def Let_def split: prod.splits option.splits if_splits)
  then show ?thesis
    using changed disk_update [of pf r st p] disk_file_end [OF ok, of pf r p]
    by (cases op) (simp_all add: handle_def disk_handlers disk_file_start disk_literal disk_copy)
next
  case (Scanned m)
  then show ?thesis
    using changed local_changed_frame(2) [of pf "on_service (set_local_manifest m) st" p]
    by (auto simp: set_local_manifest_def bump_def)
next
  case (Patched ps)
  then show ?thesis
    using changed local_changed_frame(2) [of pf "on_service (apply_local_patch ps) st" p]
    by (auto simp: apply_local_patch_def bump_def split: if_splits)
qed (use assms changed in \<open>simp_all add: keep_requester keep_sender stop_frame\<close>)

text \<open>A file of two bytes arriving in three messages.\<close>

definition sample_start :: bytes where
  "sample_start = file_start (sample_session []) whole_job 2 5 0 False"

definition sample_literal :: bytes where
  "sample_literal = file_literal (sample_session []) 1 [1, 2]"

definition sample_end :: bytes where
  "sample_end = file_end (sample_session []) 1 (pf_sha sample_platform [1, 2])"

lemma sample_received:
  "receiving 1 (opened whole_job 2 5 0 False None) [1, 2] (sample_session [])
    (session_run [(sample_platform, Arrives sample_start), (sample_platform, Arrives sample_literal)] (sample_session []))"
proof -
  let ?rc = "sample_session []"
  have "receiving 1 (opened whole_job 2 5 0 False None) [] ?rc (deliver sample_platform sample_start ?rc)"
    using receiving_start [of ?rc whole_job sample_platform ?rc None False 2 5 0] sample_platform_works
    by (simp add: sample_start_def whole_job_def sample_session_def new_session_def is_safe_relpath_def safe_segments.simps)
  from receiving_literal [OF this _ sample_platform_works, of "[1, 2]" ?rc] show ?thesis
    by (simp add: sample_literal_def opened_def whole_job_def)
qed

lemma sample_installed:
  "disk (session_step sample_platform (Arrives sample_end) (session_run [(sample_platform, Arrives sample_start), (sample_platform, Arrives sample_literal)] (sample_session []))) [97] = Some \<lparr>df_data = [1, 2], df_mtime = 5\<rparr>"
proof (rule receiving_end [OF sample_received _ sample_platform_works, of "sample_session []"])
  fix S
  assume S: "deliver sample_platform (file_end (sample_session []) 1 (pf_sha sample_platform [1, 2]))
      (session_run [(sample_platform, Arrives sample_start), (sample_platform, Arrives sample_literal)] (sample_session [])) =
      maybe_synced sample_platform S"
    and disk: "disk S = (disk (sample_session []))(in_rel_path (opened whole_job 2 5 0 False None) \<mapsto>
      \<lparr>df_data = [1, 2], df_mtime = in_mtime (opened whole_job 2 5 0 False None)\<rparr>)"
  then show ?thesis
    using own_fields(1) [OF own_maybe_synced [of sample_platform S]]
    by (simp add: sample_end_def opened_def whole_job_def)
qed (simp_all add: opened_def whole_job_def sample_session_def new_session_def)

section \<open>Properties\<close>

text \<open>C7. Whatever bytes a peer sends, however messages, the session's threads, scans, edits of the
  tree and a stop interleave, and whatever the system answers at each step, every transfer under way stays consistent: its path stays inside the
  folder, its running hash is over exactly the bytes counted as written, and its temp file, where one
  is left, holds exactly those bytes.\<close>

theorem transfers_consistent:
  assumes "length ins < 2 ^ 32"
    and "om_find (ss_incoming (session_run ins (new_session sv))) xid = Some inc"
  shows "in_xid inc = xid \<and> is_safe_relpath (in_rel_path inc) \<and> unat (in_written inc) = length (in_hash inc)
    \<and> temp_of (session_run ins (new_session sv)) xid \<in> {None, Some (in_hash inc)}"
proof -
  let ?st = "session_run ins (new_session sv)"
  have "transfer_ok (2 ^ 32 * length ins) (temp_of ?st xid) xid inc"
    using reached_ok [OF assms(1), of sv] assms(2) by (simp add: ok_but_find)
  moreover from this have "length (in_hash inc) < 2 ^ 64"
    using assms(1) by (simp add: transfer_ok_def)
  ultimately show ?thesis
    by (auto simp: transfer_ok_def unat_u64_of_nat)
qed

theorem transfers_consistent_witness:
  "temp_of (session_run [(sample_platform, Arrives sample_start), (sample_platform, Arrives sample_literal)] (sample_session [])) 1
    \<in> {None, Some [1, 2]}"
proof -
  obtain n a where inc: "om_find (ss_incoming (session_run [(sample_platform, Arrives sample_start), (sample_platform, Arrives sample_literal)] (sample_session []))) 1 =
    Some (so_far (opened whole_job 2 5 0 False None) [1, 2] n a)"
    using sample_received by (auto elim: receiving_fields)
  from transfers_consistent [OF _ this [unfolded sample_session_def]] show ?thesis
    by (simp add: sample_session_def)
qed

text \<open>C6. Nothing but verified data reaches the tree: after any history, with any answers of the system
  at each of its steps, when one more step of the program changes the file at a path, the file is either gone, or it is at a path inside the folder
  and its content, size and mtime are the ones the new manifest entry records.\<close>

theorem only_verified_installed:
  assumes "length ins < 2 ^ 32" "\<And>d. i \<noteq> Edited d"
    and "disk (session_step pf i (session_run ins (new_session sv))) p
      \<noteq> disk (session_run ins (new_session sv)) p"
  shows "disk (session_step pf i (session_run ins (new_session sv))) p = None
    \<or> verified pf p (session_step pf i (session_run ins (new_session sv)))"
  using reached_ok [OF assms(1)] assms(2,3) by (rule disk_step)

theorem only_verified_installed_witness:
  "verified sample_platform [97] (session_step sample_platform (Arrives sample_end)
     (session_run [(sample_platform, Arrives sample_start), (sample_platform, Arrives sample_literal)] (sample_session [])))"
proof -
  have "disk (session_run [(sample_platform, Arrives sample_start), (sample_platform, Arrives sample_literal)] (sample_session [])) [97] = None"
    using sample_received
    by (simp add: receiving_def) (simp add: sample_session_def new_session_def new_service_def Let_def)
  then show ?thesis
    using only_verified_installed [of "[(sample_platform, Arrives sample_start), (sample_platform, Arrives sample_literal)]" "Arrives sample_end" sample_platform
        "ss_service (sample_session [])" "[97]"] sample_installed
    by (simp add: sample_session_def new_session_def)
qed

text \<open>The exception is a move the system refuses twice: the old file is dropped before the second attempt, so
  it is lost, while the manifest still describes it.\<close>

theorem refused_move_loses_file:
  assumes "pf_rename pf p = Refused" "pf_remove pf p" "\<not> pf_rename_again pf p" "in_rel_path inc = p"
  shows "disk (finalize_incoming pf inc digest st) p = None
    \<and> sv_local (ss_service (finalize_incoming pf inc digest st)) = sv_local (ss_service st)"
  using assms
  by (simp add: finalize_incoming_def move_replace_def Let_def frame drop_temp_def set_temp_def set_disk_def send_msg_def
      own_fields [OF own_maybe_synced] abandon_pull_def release_pull_def)

end
