(* ===== verification/Handshake.thy ===== *)
theory Handshake
  imports Session_Transfer
begin

text \<open>
  The first message of a session: which peers a Hello is refused from, that both sides reach the same
  verdict, and what an accepted pair of configurations can still disagree on.
\<close>

section \<open>The verdict\<close>

text \<open>The configurations two sides of a folder can have for a Hello to be accepted.\<close>

definition compatible :: "sync_config \<Rightarrow> sync_config \<Rightarrow> bool" where
  "compatible ours theirs \<longleftrightarrow> cf_folder theirs = cf_folder ours \<and>
     (cf_mode ours = TwoWay \<and> cf_mode theirs = TwoWay \<longrightarrow> cf_conflict theirs = complement (cf_conflict ours))"

lemma sync_mode_code_eq [simp]: "sync_mode_code a = sync_mode_code b \<longleftrightarrow> a = b"
  by (cases a; cases b) (simp_all add: sync_mode_code_def)

lemma conflict_policy_code_eq [simp]: "conflict_policy_code a = conflict_policy_code b \<longleftrightarrow> a = b"
  by (cases a; cases b) (simp_all add: conflict_policy_code_def)

lemma compatible_sym: "compatible a b \<longleftrightarrow> compatible b a"
  by (auto simp: compatible_def)

lemma deliver_hello:
  assumes "\<not> ss_incompatible st" "sv_tag (ss_service st) = sv_tag sv" "length (cf_folder (sv_config sv)) < 65536"
  shows "deliver pf (hello_message sv) st
    = (if compatible (config st) (sv_config sv) then advertise st else refuse st)"
proof -
  let ?c = "sv_config sv"
  let ?body = "kVersion # sync_mode_code (cf_mode ?c) # conflict_policy_code (cf_conflict ?c) #
      be16 (of_nat (length (cf_folder ?c))) @ cf_folder ?c @ []"
  have "hello_message sv = be32 (sv_tag (ss_service st)) @ op_code Hello # ?body"
    using assms(2) by (simp add: hello_message_def codec_simps)
  then have "deliver pf (hello_message sv) st = handle_hello (rd ?body) st"
    using deliver_message [OF assms(1), of pf Hello ?body] assms(1) by (simp add: handle_def)
  also have "\<dots> = (if compatible (config st) ?c then advertise st else refuse st)"
    unfolding handle_hello_def Let_def r_u8_rd split r_str16_rd [OF assms(3)]
    by (cases "cf_mode ?c"; cases "cf_mode (config st)") (auto simp: compatible_def)
  finally show ?thesis .
qed

lemma refuse_incompatible [simp]: "ss_incompatible (refuse st)"
  by (simp add: refuse_def send_msg_def)

lemma advertise_incompatible [simp]: "ss_incompatible (advertise st) = ss_incompatible st"
  using view_fields(5) [OF view_advertise] .

text \<open>The two sides of one folder, each with a fresh session for the other.\<close>

lemma handshake_verdict:
  assumes "sv_tag a = sv_tag b" "length (cf_folder (sv_config b)) < 65536"
  shows "ss_incompatible (deliver pf (hello_message b) (new_session a)) \<longleftrightarrow> \<not> compatible (sv_config a) (sv_config b)"
  using deliver_hello [of "new_session a" b pf] assms by (simp add: new_session_def)

text \<open>What both sides know of each other after an accepted handshake is enough for their plans to
  be complementary, when their roles and their handling of deletions agree: nothing in a Hello says.\<close>

lemma compatible_peer_of:
  assumes "compatible a b" "cf_mode a = TwoWay" "cf_mode b = TwoWay"
    and "cf_propagate_deletes a = cf_propagate_deletes b" "cf_source b = (\<not> cf_source a)"
  shows "opts_of b = peer_of (opts_of a)"
  using assms by (simp add: compatible_def opts_of_def peer_of_def)

section \<open>Properties\<close>

text \<open>C23. The handshake is symmetric: for two services of one folder tag, whatever their configurations,
  one side refuses the other's Hello exactly when the other refuses its own, and refusing is
  exactly: another folder name, or two two-way sides whose conflict policies do not complement each
  other. A refusing side sends nothing but a Bye.\<close>

theorem handshake_symmetric:
  assumes "sv_tag a = sv_tag b"
    and "length (cf_folder (sv_config a)) < 65536" "length (cf_folder (sv_config b)) < 65536"
  shows "ss_incompatible (deliver pf (hello_message b) (new_session a))
      = ss_incompatible (deliver pf' (hello_message a) (new_session b))
    \<and> (ss_incompatible (deliver pf (hello_message b) (new_session a)) \<longleftrightarrow>
        cf_folder (sv_config a) \<noteq> cf_folder (sv_config b) \<or>
        cf_mode (sv_config a) = TwoWay \<and> cf_mode (sv_config b) = TwoWay \<and>
          cf_conflict (sv_config b) \<noteq> complement (cf_conflict (sv_config a)))
    \<and> (ss_incompatible (deliver pf (hello_message b) (new_session a)) \<longrightarrow>
        ss_out (deliver pf (hello_message b) (new_session a)) = [message (sv_tag a) Bye])"
proof -
  have "ss_out (deliver pf (hello_message b) (new_session a)) = [message (sv_tag a) Bye]"
    if "\<not> compatible (sv_config a) (sv_config b)"
    using deliver_hello [of "new_session a" b pf] assms(1,3) that
    by (simp add: new_session_def refuse_def send_msg_def msg_def)
  then show ?thesis
    using handshake_verdict [OF assms(1,3), of pf] handshake_verdict [OF assms(1) [symmetric] assms(2), of pf']
      compatible_sym [of "sv_config a" "sv_config b"]
    by (auto simp: compatible_def)
qed

definition sample_service :: "sync_mode \<Rightarrow> conflict_policy \<Rightarrow> bool \<Rightarrow> service" where
  "sample_service mode policy source = new_service (\<lambda>x. replicate 32 0) (\<lambda>x. x)
     (default_config\<lparr>cf_mode := mode, cf_conflict := policy, cf_source := source\<rparr>) Map.empty None"

lemma sample_service_fields:
  "sv_tag (sample_service m p s) = sv_tag (sample_service m' p' s')"
  "cf_folder (sv_config (sample_service m p s)) = str ''rasync''"
  "cf_mode (sv_config (sample_service m p s)) = m" "cf_conflict (sv_config (sample_service m p s)) = p"
  "cf_source (sv_config (sample_service m p s)) = s"
  by (simp_all add: sample_service_def new_service_def with_defaults_def default_config_def Let_def
      default_folder_name_def fs_filename_def fs_parent_path_def)

theorem handshake_symmetric_witness:
  "\<forall>pf. ss_incompatible (deliver pf (hello_message (sample_service TwoWay PreferLocal False))
     (new_session (sample_service TwoWay PreferLocal False)))"
proof
  fix pf
  let ?s = "sample_service TwoWay PreferLocal False"
  have "length (cf_folder (sv_config ?s)) < 65536"
    by (simp add: sample_service_fields str_def)
  from handshake_symmetric [of ?s ?s, OF refl this this, of pf]
  show "ss_incompatible (deliver pf (hello_message ?s) (new_session ?s))"
    by (simp add: sample_service_fields complement_def)
qed

section \<open>What the user is told\<close>

text \<open>A policy that arrived as a raw byte, and the reasons \<open>handle_hello\<close> logs.\<close>

definition describe_conflict :: "u8 \<Rightarrow> bytes" where
  "describe_conflict raw =
     (case find (\<lambda>p. conflict_policy_code p = raw) [Newer, Larger, PreferLocal, PreferRemote] of
        Some p \<Rightarrow> conflict_policy_name p
      | None \<Rightarrow> str ''unknown policy '' @ decimal (unat raw))"

definition refusal_text :: "sync_config \<Rightarrow> u8 \<Rightarrow> u8 \<Rightarrow> u8 \<Rightarrow> bytes \<Rightarrow> bytes option" where
  "refusal_text c version peer_mode peer_conflict peer_folder =
     map_option (\<lambda>why. why @ [32] @ em_dash @ str '' not syncing with this peer'')
       (if version \<noteq> kVersion
        then Some (str ''peer speaks protocol v'' @ decimal (unat version) @ str '', we speak v'' @ decimal (unat kVersion))
        else if peer_folder \<noteq> cf_folder c
        then Some (str ''peer'' @ [39] @ str ''s folder '' @ [39] @ peer_folder @ [39] @ str '' collides with our '' @ [39]
          @ cf_folder c @ [39] @ str '' but is not the same folder (rename one)'')
        else if peer_mode \<noteq> sync_mode_code (cf_mode c) then None
        else if cf_mode c = TwoWay \<and> peer_conflict \<noteq> conflict_policy_code (complement (cf_conflict c))
        then Some (str ''peer resolves conflicts by '' @ [39] @ describe_conflict peer_conflict @ [39]
          @ str '', which cannot pair with our '' @ [39] @ conflict_policy_name (cf_conflict c) @ [39]
          @ str '' (run the peer with --conflict '' @ conflict_policy_name (complement (cf_conflict c)) @ str '')'')
        else None)"

text \<open>A Hello that could be read is refused exactly when there is a reason to tell.\<close>

theorem refusals_told:
  assumes "r_u8 r = (version, r1)" "r_u8 r1 = (peer_mode, r2)" "r_u8 r2 = (peer_conflict, r3)" "r_str16 r3 = (peer_folder, r4)"
    and "rd_ok r4" "\<not> ss_incompatible st"
  shows "ss_incompatible (handle_hello r st) \<longleftrightarrow> refusal_text (config st) version peer_mode peer_conflict peer_folder \<noteq> None"
  using assms by (auto simp: handle_hello_def refusal_text_def Let_def)

text \<open>Two authoritative sides of a mirror pass the handshake, although their plans can never meet:
  whatever the two trees, each side's round neither pulls nor deletes anything.\<close>

theorem handshake_accepts_two_sources:
  "\<not> ss_incompatible (deliver pf (hello_message (sample_service Mirror Newer True))
       (new_session (sample_service Mirror Newer True)))
    \<and> pl_pull (reconcile b l r (opts_of (sv_config (sample_service Mirror Newer True)))) = []
    \<and> pl_delete_local (reconcile b l r (opts_of (sv_config (sample_service Mirror Newer True)))) = []"
proof -
  let ?s = "sample_service Mirror Newer True"
  have "length (cf_folder (sv_config ?s)) < 65536"
    by (simp add: sample_service_fields str_def)
  from handshake_verdict [OF refl this, of pf]
  have "\<not> ss_incompatible (deliver pf (hello_message ?s) (new_session ?s))"
    by (simp add: compatible_def sample_service_fields)
  moreover have "kind_of (opts_of (sv_config ?s)) b l r p \<notin> {Pull, DeleteLocal}" for p
    by (simp add: opts_of_def sample_service_fields kind_of_mirror decide_mirror_all)
  ultimately show ?thesis
    by (simp add: reconcile_lists filter_empty_conv)
qed

end
