(* ===== verification/Router.thy ===== *)
theory Router
  imports Session_Safety Handshake
begin

text \<open>
  \<open>net/sync_service.cpp\<close> and \<open>net/sync_router.cpp\<close>: the sessions of one folder, the folders of one node,
  and the way from a message's first five bytes to the handler that acts on it.
\<close>

section \<open>One folder and its sessions\<close>

text \<open>Peer ids are ordered as bytes; the order in which the code's hash table lists the sessions is an
  argument of the operations that walk it. Temp files are named after the peer and the transfer, so each
  session keeps its own: everything else of the folder is shared.\<close>

record folder =
  fd_service :: service
  fd_sessions :: "(peer_id, session) omap"
  fd_stopped :: bool

definition new_folder :: "service \<Rightarrow> folder" where
  "new_folder sv = \<lparr>fd_service = sv, fd_sessions = [], fd_stopped = False\<rparr>"

definition load_session :: "folder \<Rightarrow> session \<Rightarrow> session" where
  "load_session fd s = s\<lparr>ss_service := (fd_service fd)\<lparr>sv_temp := sv_temp (ss_service s)\<rparr>\<rparr>"

definition shared :: "session \<Rightarrow> service" where
  "shared s = (ss_service s)\<lparr>sv_temp := Map.empty\<rparr>"

text \<open>A step of one session against the folder's state.\<close>

definition on_session :: "peer_id \<Rightarrow> (session \<Rightarrow> session) \<Rightarrow> folder \<Rightarrow> folder" where
  "on_session p f fd =
     (case om_find (fd_sessions fd) p of
        None \<Rightarrow> fd
      | Some s \<Rightarrow>
          let s = f (load_session fd s)
          in fd\<lparr>fd_service := shared s, fd_sessions := om_assign p s (fd_sessions fd)\<rparr>)"

definition session_for :: "peer_id \<Rightarrow> folder \<Rightarrow> folder option" where
  "session_for p fd =
     (if fd_stopped fd then None
      else case om_find (fd_sessions fd) p of
          Some s \<Rightarrow> Some fd
        | None \<Rightarrow> Some (fd\<lparr>fd_sessions := om_assign p (new_session ((fd_service fd)\<lparr>sv_temp := Map.empty\<rparr>)) (fd_sessions fd)\<rparr>))"

text \<open>The opcode is a byte of the peer's: the switch has no default.\<close>

definition handle_op :: "platform \<Rightarrow> u8 \<Rightarrow> reader \<Rightarrow> session \<Rightarrow> session" where
  "handle_op pf op r st = (case op_of op of None \<Rightarrow> st | Some op \<Rightarrow> handle pf op r st)"

definition handle_message :: "platform \<Rightarrow> peer_id \<Rightarrow> u8 \<Rightarrow> reader \<Rightarrow> folder \<Rightarrow> folder" where
  "handle_message pf from op r fd =
     (if \<not> peer_allowed (fd_service fd) from then fd
      else case session_for from fd of
          None \<Rightarrow> fd
        | Some fd \<Rightarrow> on_session from (handle_op pf op r) fd)"

definition notify_sessions :: "platform \<Rightarrow> peer_id list \<Rightarrow> folder \<Rightarrow> folder" where
  "notify_sessions pf order fd = fold (\<lambda>p. on_session p (local_changed pf)) order fd"

definition folder_scanned :: "platform \<Rightarrow> peer_id list \<Rightarrow> manifest \<Rightarrow> folder \<Rightarrow> folder" where
  "folder_scanned pf order m fd =
     notify_sessions pf order (fd\<lparr>fd_service := set_local_manifest m (fd_service fd)\<rparr>)"

definition folder_patched :: "platform \<Rightarrow> peer_id list \<Rightarrow> manifest_patch \<Rightarrow> folder \<Rightarrow> folder" where
  "folder_patched pf order patch fd =
     (if patch_empty patch then fd
      else notify_sessions pf order (fd\<lparr>fd_service := apply_local_patch patch (fd_service fd)\<rparr>))"

definition peer_disconnected :: "platform \<Rightarrow> peer_id \<Rightarrow> folder \<Rightarrow> folder" where
  "peer_disconnected pf p fd =
     (let fd = on_session p (stop pf) fd in fd\<lparr>fd_sessions := om_erase p (fd_sessions fd)\<rparr>)"

text \<open>What \<open>clean_temp_dir\<close> leaves of the scratch files the folder still has.\<close>

definition clean_temp_dir :: "service \<Rightarrow> service" where
  "clean_temp_dir sv = sv\<lparr>sv_temp := Map.empty\<rparr>"

lemma clean_temp_dir_frame [simp]: "sv_config (clean_temp_dir sv) = sv_config sv" "sv_tag (clean_temp_dir sv) = sv_tag sv"
  by (simp_all add: clean_temp_dir_def)

definition folder_shutdown :: "platform \<Rightarrow> peer_id list \<Rightarrow> folder \<Rightarrow> folder" where
  "folder_shutdown pf order fd =
     (if fd_stopped fd then fd
      else
        let fd = (fold (\<lambda>p. on_session p (stop pf)) order (fd\<lparr>fd_stopped := True\<rparr>))\<lparr>fd_sessions := []\<rparr>
        in fd\<lparr>fd_service := clean_temp_dir (fd_service fd)\<rparr>)"

section \<open>One node and its folders\<close>

record router =
  rt_folders :: "folder list"
  rt_by_tag :: "(u32, nat) omap"
  rt_attached :: bool
  rt_stopped :: bool
  rt_unknown :: "bytes list"
  rt_reports :: "(peer_id \<times> bytes) list"

definition new_router :: router where
  "new_router = \<lparr>rt_folders = [], rt_by_tag = [], rt_attached = False, rt_stopped = False, rt_unknown = [],
     rt_reports = []\<rparr>"

definition unknown_key :: "peer_id \<Rightarrow> u32 \<Rightarrow> bytes" where
  "unknown_key p t = to_hex p @ [colon] @ decimal (unat t)"

definition kMaxRemembered :: nat where
  "kMaxRemembered = 256"

text \<open>The folders of a configuration, each with the tree and the baseline it starts on; a folder whose tag
  is taken is refused, and so is one that comes after \<open>attach\<close>.\<close>

definition add_folder :: "service \<Rightarrow> router \<Rightarrow> bool \<times> router" where
  "add_folder sv rt =
     (if rt_attached rt then (False, rt)
      else if om_find (rt_by_tag rt) (sv_tag sv) \<noteq> None then (False, rt)
      else (True, rt\<lparr>rt_by_tag := om_emplace (sv_tag sv) (length (rt_folders rt)) (rt_by_tag rt),
                    rt_folders := rt_folders rt @ [new_folder sv]\<rparr>))"

definition attach :: "router \<Rightarrow> router" where
  "attach rt = rt\<lparr>rt_attached := True\<rparr>"

definition on_folders :: "(folder \<Rightarrow> folder) \<Rightarrow> router \<Rightarrow> router" where
  "on_folders f rt = rt\<lparr>rt_folders := map f (rt_folders rt)\<rparr>"

definition on_folder :: "nat \<Rightarrow> (folder \<Rightarrow> folder) \<Rightarrow> router \<Rightarrow> router" where
  "on_folder i f rt = rt\<lparr>rt_folders := (rt_folders rt)[i := f (rt_folders rt ! i)]\<rparr>"

text \<open>Baselines are loaded and the scratch directories emptied before the node starts.\<close>

definition start_folders :: "router \<Rightarrow> router" where
  "start_folders = on_folders (\<lambda>fd. fd\<lparr>fd_service := clean_temp_dir (load_baseline (fd_service fd))\<rparr>)"

definition folder_named :: "bytes \<Rightarrow> router \<Rightarrow> folder option" where
  "folder_named name rt = find (\<lambda>fd. cf_folder (sv_config (fd_service fd)) = name) (rt_folders rt)"

text \<open>What a peer that connects is sent, one Hello for each folder it may sync.\<close>

definition router_peer_connected :: "peer_id \<Rightarrow> router \<Rightarrow> bytes list" where
  "router_peer_connected p rt =
     (if rt_stopped rt then []
      else concat (map (\<lambda>fd. peer_connected (fd_service fd) (fd_stopped fd) p) (rt_folders rt)))"

definition router_peer_disconnected :: "(nat \<Rightarrow> platform) \<Rightarrow> peer_id \<Rightarrow> router \<Rightarrow> router" where
  "router_peer_disconnected pfs p rt =
     rt\<lparr>rt_folders := map (\<lambda>(i, fd). peer_disconnected (pfs i) p fd) (enumerate 0 (rt_folders rt))\<rparr>"

definition router_shutdown :: "(nat \<Rightarrow> platform) \<Rightarrow> (nat \<Rightarrow> peer_id list) \<Rightarrow> router \<Rightarrow> router" where
  "router_shutdown pfs order rt =
     (if rt_stopped rt then rt
      else rt\<lparr>rt_stopped := True,
              rt_folders := map (\<lambda>(i, fd). folder_shutdown (pfs i) (order i) fd) (enumerate 0 (rt_folders rt))\<rparr>)"

definition report_unknown :: "peer_id \<Rightarrow> u32 \<Rightarrow> bytes \<Rightarrow> router \<Rightarrow> router" where
  "report_unknown from t payload rt =
     (if payload ! (kHeaderBytes - 1) \<noteq> op_code Hello then rt
      else if length (rt_unknown rt) \<ge> kMaxRemembered then rt
      else if unknown_key from t \<in> set (rt_unknown rt) then rt
      else
        let rt = rt\<lparr>rt_unknown := rt_unknown rt @ [unknown_key from t]\<rparr>;
            r = reader_of payload;
            (_, r) = r_u32 r; (_, r) = r_u8 r; (_, r) = r_u8 r; (_, r) = r_u8 r; (_, r) = r_u8 r;
            (name, r) = r_str16 r
        in if \<not> rd_ok r \<or> name = [] then rt
           else rt\<lparr>rt_reports := rt_reports rt @ [(from, name)]\<rparr>)"

definition on_message :: "(nat \<Rightarrow> platform) \<Rightarrow> peer_id \<Rightarrow> bytes \<Rightarrow> router \<Rightarrow> router" where
  "on_message pfs from payload rt =
     (if rt_stopped rt then rt
      else if length payload < kHeaderBytes then rt
      else
        let r = reader_of payload; (tag, r) = r_u32 r; (op, r) = r_u8 r
        in case om_find (rt_by_tag rt) tag of
             None \<Rightarrow> report_unknown from tag payload rt
           | Some i \<Rightarrow> on_folder i (handle_message (pfs i) from op r) rt)"

section \<open>What no step of a session changes\<close>

text \<open>A folder's configuration and its routing tag.\<close>

definition ident :: "session \<Rightarrow> sync_config \<times> u32" where
  "ident st = (config st, sv_tag (ss_service st))"

lemma view_ident: "view s = view t \<Longrightarrow> ident s = ident t"
  by (simp add: ident_def view_def)

named_theorems ident_simps

lemma ident_send [ident_simps]: "ident (send_msg w st) = ident st" "ident (emit ev st) = ident st"
  "ident (set_temp x t st) = ident st" "ident (set_disk p f st) = ident st" "ident (set_incoming inc st) = ident st"
  "ident (release_pull p st) = ident st" "ident (queue_pull p st) = ident st" "ident (drop_temp pf x st) = ident st"
  "ident (on_service (note_local_set p m) st) = ident st" "ident (refuse st) = ident st"
  "ident (note_sent x n st) = ident st" "ident (on_service (set_local_manifest man) st) = ident st"
  "ident (on_service (apply_local_patch patch) st) = ident st"
  by (simp_all add: ident_def send_msg_def emit_def set_temp_def set_disk_def set_incoming_def release_pull_def
      queue_pull_def drop_temp_def note_local_set_def bump_def refuse_def note_sent_def set_local_manifest_def
      apply_local_patch_def)

lemma ident_fields [ident_simps]:
  "ident (st\<lparr>ss_incoming := i\<rparr>) = ident st" "ident (st\<lparr>ss_incompatible := b\<rparr>) = ident st"
  "ident (st\<lparr>ss_serve_q := q\<rparr>) = ident st" "ident (st\<lparr>ss_outstanding_serves := n\<rparr>) = ident st"
  "ident (st\<lparr>ss_cur_acked := a\<rparr>) = ident st" "ident (st\<lparr>ss_pull_queue := pq\<rparr>) = ident st"
  "ident (st\<lparr>ss_advertise_pending := ap\<rparr>) = ident st" "ident (st\<lparr>ss_running := rn\<rparr>) = ident st"
  "ident (st\<lparr>ss_cur_xid := cx\<rparr>) = ident st" "ident (st\<lparr>ss_cur_sent := cs\<rparr>) = ident st"
  "ident (st\<lparr>ss_next_xid := nx\<rparr>) = ident st"
  by (simp_all add: ident_def)

lemma ident_rounds [ident_simps]: "ident (advertise st) = ident st" "ident (reconcile_and_act pf st) = ident st"
  "ident (maybe_synced pf st) = ident st" "ident (local_changed pf st) = ident st"
  by (simp_all add: local_changed_def view_ident [OF view_advertise] view_ident [OF view_reconcile]
      view_ident [OF view_maybe_synced])

lemma ident_abandon [ident_simps]: "ident (abandon_pull pf p st) = ident st" "ident (fail_incoming pf inc k st) = ident st"
  by (simp_all add: abandon_pull_def fail_incoming_def Let_def ident_simps)

lemma ident_append [ident_simps]: "ident (snd (append_bytes d is)) = ident (snd is)"
  by (cases "is") (simp add: append_bytes_def ident_simps)

lemma ident_copy_loop: "ident (snd (snd (copy_loop pf base n left src is))) = ident (snd is)"
  by (induction pf base n left src "is" rule: copy_loop.induct)
    (subst copy_loop.simps, simp add: Let_def ident_simps)

lemma ident_move: "move_replace pf x p t st = (st', moved) \<Longrightarrow> ident st' = ident st"
  by (auto simp: move_replace_def Let_def ident_simps split: if_splits)

lemma ident_finalize [ident_simps]: "ident (finalize_incoming pf inc digest st) = ident st"
proof -
  obtain st1 moved where "move_replace pf (in_xid inc) (in_rel_path inc) (in_mtime inc)
      (send_msg (file_ack st (in_xid inc) (in_on_wire inc)) st) = (st1, moved)"
    by force
  with ident_move [OF this] show ?thesis
    by (simp add: finalize_incoming_def Let_def ident_simps)
qed

lemma ident_handlers [ident_simps]:
  "ident (handle_hello r st) = ident st" "ident (handle_request r st) = ident st"
  "ident (handle_file_start pf r st) = ident st" "ident (handle_file_ack r st) = ident st"
  "ident (handle_not_found pf r st) = ident st" "ident (handle_file_end pf r st) = ident st"
  by (simp_all add: handle_hello_def handle_request_def decline_def handle_file_start_def handle_file_ack_def
      handle_not_found_def handle_file_end_def Let_def ident_simps split: prod.split option.split)

lemma ident_update [ident_simps]: "ident (handle_manifest_update pf r st) = ident st"
proof -
  have "ident st' = ident st" if "stage_update flags patch st = (st', c)" for flags patch st' c
    using that by (auto simp: stage_update_def Let_def ident_def split: if_splits)
  then show ?thesis
    by (auto simp: handle_manifest_update_def Let_def ident_simps split: prod.split option.split)
qed

lemma ident_literal [ident_simps]: "ident (handle_file_literal pf r st) = ident st"
proof -
  have "ident st' = ident st" if "append_bytes d (inc, st) = (inc', st')" for d inc inc' st'
    using ident_append [of d "(inc, st)"] that by simp
  then show ?thesis
    by (auto simp: handle_file_literal_def Let_def ident_simps split: prod.split option.split)
qed

lemma ident_copy [ident_simps]: "ident (handle_file_copy pf r st) = ident st"
proof -
  have "ident st' = ident st" if "copy_loop pf base n left src (inc, st) = (g, inc', st')" for base n left src inc g inc' st'
    using ident_copy_loop [of pf base n left src "(inc, st)"] that by simp
  then show ?thesis
    by (auto simp: handle_file_copy_def Let_def ident_simps split: prod.split option.split)
qed

lemma ident_handle [ident_simps]: "ident (handle pf op r st) = ident st" "ident (handle_op pf b r st) = ident st"
  by (simp_all add: handle_def handle_op_def ident_simps split: opcode.split option.split)

lemma ident_drops [ident_simps]: "ident (fold (\<lambda>e. drop_temp pf (fst e)) es st) = ident st"
  by (induction es arbitrary: st) (simp_all add: ident_simps)

lemma ident_stop [ident_simps]: "ident (stop pf st) = ident st"
  by (simp add: stop_def ident_drops) (simp add: ident_def)

lemma ident_turns [ident_simps]: "ident (requester_step pf st) = ident st" "ident (sender_step pf st) = ident st"
proof -
  have literals: "ident (fold (send_literal x) ds s) = ident s" for x ds s
    using send_literals [of x ds s] by (simp add: ident_def)
  have ops: "ident (fold (send_op n x) os s) = ident s" for n x os s
    using send_ops [of n x os s] by (simp add: ident_def)
  have whole: "ident (serve_whole pf job f mode s) = ident s" for job f mode s
    by (simp add: serve_whole_def Let_def decline_def literals ident_simps)
  have "ident (serve_delta pf job sig f mode s) = ident s" for job sig f mode s
    by (simp add: serve_delta_def Let_def whole ops ident_simps)
  with whole have "ident (serve_one pf job s) = ident s" for job s
    by (simp add: serve_one_def Let_def decline_def ident_simps split: option.split)
  then show "ident (requester_step pf st) = ident st" "ident (sender_step pf st) = ident st"
    by (simp_all add: requester_step_def send_request_def sender_step_def Let_def ident_simps split: list.split)
qed

section \<open>What no step of a folder changes\<close>

definition fd_ident :: "folder \<Rightarrow> sync_config \<times> u32" where
  "fd_ident fd = (sv_config (fd_service fd), sv_tag (fd_service fd))"

text \<open>A folder serves only peers it allows, and none once it is stopped.\<close>

definition folder_ok :: "folder \<Rightarrow> bool" where
  "folder_ok fd \<longleftrightarrow> om_inv (fd_sessions fd) \<and>
     (\<forall>p. om_find (fd_sessions fd) p \<noteq> None \<longrightarrow> \<not> fd_stopped fd \<and> peer_allowed (fd_service fd) p)"

lemma on_session_frame:
  assumes "\<And>s. ident (f s) = ident s"
  shows "fd_ident (on_session p f fd) = fd_ident fd" "fd_stopped (on_session p f fd) = fd_stopped fd"
  using assms [of "load_session fd (the (om_find (fd_sessions fd) p))"]
  by (auto simp: on_session_def Let_def fd_ident_def ident_def shared_def load_session_def split: option.split)

lemma on_session_find:
  assumes "om_inv (fd_sessions fd)"
  shows "om_inv (fd_sessions (on_session p f fd))"
    "om_find (fd_sessions (on_session p f fd)) =
      (case om_find (fd_sessions fd) p of None \<Rightarrow> om_find (fd_sessions fd)
       | Some s \<Rightarrow> (om_find (fd_sessions fd))(p \<mapsto> f (load_session fd s)))"
  using om.inv_assign [OF assms] om.find_assign [OF assms]
  by (auto simp: on_session_def Let_def assms split: option.split)

lemma folder_ok_on_session:
  assumes "\<And>s. ident (f s) = ident s" "folder_ok fd"
  shows "folder_ok (on_session p f fd)"
proof -
  have "sv_config (fd_service (on_session p f fd)) = sv_config (fd_service fd)"
    using on_session_frame(1) [of f p fd] assms(1) by (simp add: fd_ident_def)
  then show ?thesis
    using assms(2) on_session_find [of fd p f] on_session_frame(2) [of f p fd] assms(1)
    by (auto simp: folder_ok_def peer_allowed_def split: option.splits if_splits)
qed

text \<open>A step of a folder: the identity stays, the sessions stay legitimate.\<close>

definition folder_step :: "(folder \<Rightarrow> folder) \<Rightarrow> bool" where
  "folder_step f \<longleftrightarrow> (\<forall>fd. fd_ident (f fd) = fd_ident fd \<and> (fd_stopped fd \<longrightarrow> fd_stopped (f fd))
     \<and> (folder_ok fd \<longrightarrow> folder_ok (f fd)))"

lemma folder_stepI:
  assumes "\<And>fd. fd_ident (f fd) = fd_ident fd" "\<And>fd. fd_stopped fd \<Longrightarrow> fd_stopped (f fd)"
    and "\<And>fd. folder_ok fd \<Longrightarrow> folder_ok (f fd)"
  shows "folder_step f"
  using assms by (simp add: folder_step_def)

lemma folder_stepD:
  assumes "folder_step f"
  shows "fd_ident (f fd) = fd_ident fd" "fd_stopped fd \<Longrightarrow> fd_stopped (f fd)" "folder_ok fd \<Longrightarrow> folder_ok (f fd)"
  using assms by (simp_all add: folder_step_def)

lemma folder_step_session: "(\<And>s. ident (f s) = ident s) \<Longrightarrow> folder_step (on_session p f)"
  by (rule folder_stepI) (simp_all add: on_session_frame folder_ok_on_session)

lemma folder_step_comp: "folder_step f \<Longrightarrow> folder_step g \<Longrightarrow> folder_step (\<lambda>fd. g (f fd))"
  by (simp add: folder_step_def)

lemma folder_step_fold: "(\<And>p. folder_step (f p)) \<Longrightarrow> folder_step (fold f ps)"
proof (induction ps)
  case (Cons p ps)
  then show ?case
    using folder_step_comp [of "f p" "fold f ps"] by (simp add: comp_def)
qed (simp add: folder_step_def)

lemma folder_step_service:
  assumes "\<And>sv. sv_config (f sv) = sv_config sv" "\<And>sv. sv_tag (f sv) = sv_tag sv"
  shows "folder_step (\<lambda>fd. fd\<lparr>fd_service := f (fd_service fd)\<rparr>)"
  using assms by (intro folder_stepI) (simp_all add: fd_ident_def folder_ok_def peer_allowed_def)

lemma load_baseline_ident: "sv_config (load_baseline sv) = sv_config sv" "sv_tag (load_baseline sv) = sv_tag sv"
  by (simp_all add: load_baseline_def bump_def split: option.split)

lemma folder_step_erase: "folder_step (\<lambda>fd. fd\<lparr>fd_sessions := om_erase p (fd_sessions fd)\<rparr>)"
  by (intro folder_stepI) (auto simp: fd_ident_def folder_ok_def om.inv_erase om.find_erase)

lemma folder_step_notify: "folder_step (notify_sessions pf order)"
  unfolding notify_sessions_def [abs_def] by (intro folder_step_fold folder_step_session) (simp add: ident_simps)

lemma handle_message_cases:
  fixes fd :: folder
  obtains "handle_message pf from op r fd = fd"
  | fd' where "handle_message pf from op r fd = on_session from (handle_op pf op r) fd'" "session_for from fd = Some fd'"
      "\<not> fd_stopped fd" "peer_allowed (fd_service fd) from"
proof (cases "peer_allowed (fd_service fd) from \<and> session_for from fd \<noteq> None")
  case False
  then show thesis
    using that(1) by (auto simp: handle_message_def)
next
  case True
  then obtain fd' where fd': "session_for from fd = Some fd'" "peer_allowed (fd_service fd) from" by blast
  moreover have "\<not> fd_stopped fd"
    using fd'(1) by (auto simp: session_for_def split: if_splits)
  ultimately show thesis
    using that(2) [of fd'] by (simp add: handle_message_def)
qed

lemma session_for_ok:
  assumes "session_for p fd = Some fd'" "peer_allowed (fd_service fd) p"
  shows "fd_service fd' = fd_service fd" "fd_stopped fd' = fd_stopped fd" "folder_ok fd \<Longrightarrow> folder_ok fd'"
  using assms om.inv_assign [of "fd_sessions fd" p] om.find_assign [of "fd_sessions fd" p]
  by (auto simp: session_for_def folder_ok_def split: if_splits option.splits)

lemma folder_step_message: "folder_step (handle_message pf from op r)"
proof (rule folder_stepI)
  fix fd :: folder
  let ?h = "on_session from (handle_op pf op r)"
  have step: "folder_step ?h"
    by (intro folder_step_session) (simp add: ident_simps)
  consider "handle_message pf from op r fd = fd"
    | fd' where "handle_message pf from op r fd = ?h fd'" "fd_service fd' = fd_service fd" "\<not> fd_stopped fd"
        "folder_ok fd \<Longrightarrow> folder_ok fd'"
    by (cases rule: handle_message_cases [of pf "from" op r fd]) (use session_for_ok in blast)+
  note cases = this
  show "fd_ident (handle_message pf from op r fd) = fd_ident fd"
    using folder_stepD(1) [OF step] by (cases rule: cases) (simp_all add: fd_ident_def)
  show "fd_stopped (handle_message pf from op r fd)" if "fd_stopped fd"
    using that by (cases rule: cases) simp_all
  show "folder_ok (handle_message pf from op r fd)" if "folder_ok fd"
    using that by (cases rule: cases) (simp_all add: folder_stepD(3) [OF step])
qed

lemma folder_steps:
  "folder_step (folder_scanned pf order m)"
  "folder_step (folder_patched pf order patch)"
  "folder_step (peer_disconnected pf p)"
  "folder_step (\<lambda>fd. fd\<lparr>fd_service := clean_temp_dir (load_baseline (fd_service fd))\<rparr>)"
proof -
  have "folder_step (\<lambda>fd. fd\<lparr>fd_service := set_local_manifest m (fd_service fd)\<rparr>)"
    "folder_step (\<lambda>fd. fd\<lparr>fd_service := apply_local_patch patch (fd_service fd)\<rparr>)"
    by (intro folder_step_service; simp add: set_local_manifest_def apply_local_patch_def bump_def)+
  from this [THEN folder_step_comp, OF folder_step_notify]
  show "folder_step (folder_scanned pf order m)" "folder_step (folder_patched pf order patch)"
    unfolding folder_scanned_def [abs_def] folder_patched_def [abs_def] by (auto simp: folder_step_def)
  have "folder_step (on_session p (stop pf))"
    by (intro folder_step_session) (simp add: ident_simps)
  from folder_step_comp [OF this folder_step_erase] show "folder_step (peer_disconnected pf p)"
    by (simp add: peer_disconnected_def [abs_def] Let_def)
  show "folder_step (\<lambda>fd. fd\<lparr>fd_service := clean_temp_dir (load_baseline (fd_service fd))\<rparr>)"
    by (intro folder_step_service) (simp_all add: load_baseline_ident)
qed

lemma folder_step_shutdown: "folder_step (folder_shutdown pf order)"
proof (rule folder_stepI)
  fix fd
  let ?stopped = "fold (\<lambda>p. on_session p (stop pf)) order (fd\<lparr>fd_stopped := True\<rparr>)"
  have "folder_step (fold (\<lambda>p. on_session p (stop pf)) order)"
    by (intro folder_step_fold folder_step_session) (simp add: ident_simps)
  then have "fd_ident ?stopped = fd_ident fd" "fd_stopped ?stopped"
    by (simp_all add: folder_step_def fd_ident_def)
  then show "fd_ident (folder_shutdown pf order fd) = fd_ident fd"
    "fd_stopped fd \<Longrightarrow> fd_stopped (folder_shutdown pf order fd)"
    "folder_ok fd \<Longrightarrow> folder_ok (folder_shutdown pf order fd)"
    by (auto simp: folder_shutdown_def folder_ok_def fd_ident_def)
qed

lemma folder_shutdown_stops: "fd_stopped (folder_shutdown pf order fd)"
proof -
  have "folder_step (fold (\<lambda>p. on_session p (stop pf)) order)"
    by (intro folder_step_fold folder_step_session) (simp add: ident_simps)
  then show ?thesis
    by (simp add: folder_shutdown_def folder_step_def)
qed

section \<open>The node's life\<close>

text \<open>Everything that can happen to a router: folders are added, the node starts, peers come, talk and go,
  the sessions' threads take turns, scans finish, files are edited, and the program shuts down.\<close>

inductive router_step :: "(nat \<Rightarrow> platform) \<Rightarrow> router \<Rightarrow> router \<Rightarrow> bool" for pfs where
  Adds: "\<not> rt_stopped rt \<Longrightarrow> router_step pfs rt (snd (add_folder sv rt))"
| Attaches: "router_step pfs rt (attach rt)"
| Starts: "router_step pfs rt (start_folders rt)"
| Receives: "router_step pfs rt (on_message pfs from payload rt)"
| Turns: "i < length (rt_folders rt) \<Longrightarrow> f \<in> {requester_step (pfs i), sender_step (pfs i)} \<Longrightarrow>
    router_step pfs rt (on_folder i (on_session p f) rt)"
| Scans: "i < length (rt_folders rt) \<Longrightarrow> router_step pfs rt (on_folder i (folder_scanned (pfs i) order m) rt)"
| Patches: "i < length (rt_folders rt) \<Longrightarrow> router_step pfs rt (on_folder i (folder_patched (pfs i) order patch) rt)"
| Edits: "i < length (rt_folders rt) \<Longrightarrow>
    router_step pfs rt (on_folder i (\<lambda>fd. fd\<lparr>fd_service := (fd_service fd)\<lparr>sv_disk := d\<rparr>\<rparr>) rt)"
| Leaves: "router_step pfs rt (router_peer_disconnected pfs p rt)"
| Shuts: "router_step pfs rt (router_shutdown pfs orders rt)"

text \<open>At each step the system answers, folder by folder, by one of the given platforms.\<close>

inductive reached :: "(nat \<Rightarrow> platform) set \<Rightarrow> router \<Rightarrow> bool" for pfss where
  Starts: "reached pfss new_router"
| Steps: "reached pfss rt \<Longrightarrow> pfs \<in> pfss \<Longrightarrow> router_step pfs rt rt' \<Longrightarrow> reached pfss rt'"

definition folder_tag_of :: "folder \<Rightarrow> u32" where
  "folder_tag_of fd = sv_tag (fd_service fd)"

definition router_ok :: "router \<Rightarrow> bool" where
  "router_ok rt \<longleftrightarrow> om_inv (rt_by_tag rt)
     \<and> (\<forall>t i. om_find (rt_by_tag rt) t = Some i \<longleftrightarrow>
          i < length (rt_folders rt) \<and> folder_tag_of (rt_folders rt ! i) = t)
     \<and> list_all folder_ok (rt_folders rt)
     \<and> (rt_stopped rt \<longrightarrow> list_all fd_stopped (rt_folders rt))
     \<and> distinct (rt_unknown rt) \<and> length (rt_reports rt) \<le> length (rt_unknown rt)
     \<and> length (rt_unknown rt) \<le> kMaxRemembered"

text \<open>Steps that treat each folder on its own.\<close>

lemma router_ok_folders:
  assumes ok: "router_ok rt" and len: "length fds = length (rt_folders rt)"
    and step: "\<And>i. i < length fds \<Longrightarrow> fds ! i = f i (rt_folders rt ! i) \<and> folder_step (f i)"
  shows "router_ok (rt\<lparr>rt_folders := fds\<rparr>)"
proof -
  have "folder_tag_of (fds ! i) = folder_tag_of (rt_folders rt ! i)" if "i < length fds" for i
    using step [OF that] by (simp add: folder_step_def fd_ident_def folder_tag_of_def)
  moreover have "list_all folder_ok fds"
    using ok step len by (auto simp: router_ok_def list_all_length folder_step_def)
  moreover have "rt_stopped rt \<longrightarrow> list_all fd_stopped fds"
    using ok step len by (auto simp: router_ok_def list_all_length folder_step_def)
  ultimately show ?thesis
    using ok len by (auto simp: router_ok_def)
qed

lemma router_ok_on_folder:
  assumes "router_ok rt" "folder_step f" "i < length (rt_folders rt)"
  shows "router_ok (on_folder i f rt)"
  using router_ok_folders [OF assms(1), of "(rt_folders rt)[i := f (rt_folders rt ! i)]" "\<lambda>j. if j = i then f else id"] assms(2,3)
  by (auto simp: on_folder_def folder_step_def)

lemma router_ok_map:
  assumes "router_ok rt" "\<And>i. folder_step (f i)"
  shows "router_ok (rt\<lparr>rt_folders := map (\<lambda>(i, fd). f i fd) (enumerate 0 (rt_folders rt))\<rparr>)"
  using assms(2) by (intro router_ok_folders [OF assms(1), where f = f]) (simp_all add: nth_enumerate_eq)

lemma router_ok_report: "router_ok rt \<Longrightarrow> router_ok (report_unknown from t payload rt)"
  by (auto simp: report_unknown_def router_ok_def Let_def split: prod.split)

lemma router_ok_add:
  assumes "router_ok rt" "\<not> rt_stopped rt"
  shows "router_ok (snd (add_folder sv rt))"
proof (cases "rt_attached rt \<or> om_find (rt_by_tag rt) (sv_tag sv) \<noteq> None")
  case False
  then have free: "om_find (rt_by_tag rt) (sv_tag sv) = None" and inv: "om_inv (rt_by_tag rt)"
    using assms by (auto simp: router_ok_def)
  have find: "om_find (om_emplace (sv_tag sv) (length (rt_folders rt)) (rt_by_tag rt)) =
      (om_find (rt_by_tag rt))(sv_tag sv \<mapsto> length (rt_folders rt))"
    using om.find_emplace [OF inv] free by (auto simp: fun_eq_iff map_add_def split: option.splits)
  have old: "om_find (rt_by_tag rt) t = Some i \<longleftrightarrow> i < length (rt_folders rt) \<and> folder_tag_of (rt_folders rt ! i) = t" for t i
    using assms by (simp add: router_ok_def)
  have "folder_tag_of (rt_folders rt ! i) \<noteq> sv_tag sv" if "i < length (rt_folders rt)" for i
    using old [of "sv_tag sv" i] free that by auto
  moreover have "folder_ok (new_folder sv)" "folder_tag_of (new_folder sv) = sv_tag sv" "\<not> fd_stopped (new_folder sv)"
    by (simp_all add: new_folder_def folder_ok_def folder_tag_of_def)
  ultimately show ?thesis
    using assms False om.inv_emplace [OF inv]
    by (auto simp: add_folder_def router_ok_def find old nth_append less_Suc_eq)
qed (use assms in \<open>auto simp: add_folder_def\<close>)

lemma router_ok_step:
  assumes "router_step pfs rt rt'" "router_ok rt"
  shows "router_ok rt'"
  using assms
proof (cases rule: router_step.cases)
  case (Adds sv)
  then show ?thesis using assms(2) router_ok_add by simp
next
  case Attaches
  then show ?thesis using assms(2) by (simp add: attach_def router_ok_def)
next
  case Starts
  then show ?thesis
    using router_ok_folders [OF assms(2), where f = "\<lambda>i fd. fd\<lparr>fd_service := clean_temp_dir (load_baseline (fd_service fd))\<rparr>"] folder_steps(4)
    by (simp add: start_folders_def on_folders_def)
next
  case (Receives "from" payload)
  obtain t ra op rb where rds: "r_u32 (reader_of payload) = (t, ra)" "r_u8 ra = (op, rb)"
    by (metis prod.exhaust)
  have "router_ok (on_folder i (handle_message (pfs i) from op rb) rt)" if "om_find (rt_by_tag rt) t = Some i" for i
    using that assms(2) by (intro router_ok_on_folder folder_step_message) (auto simp: router_ok_def)
  then show ?thesis
    using assms(2) router_ok_report [OF assms(2)] by (auto simp: Receives on_message_def rds split: option.split)
next
  case (Turns i f p)
  have "folder_step (on_session p f)"
    using Turns(3) by (intro folder_step_session) (auto simp: ident_simps)
  then show ?thesis using assms(2) Turns by (simp add: router_ok_on_folder)
next
  case (Edits i d)
  have "folder_step (\<lambda>fd. fd\<lparr>fd_service := (fd_service fd)\<lparr>sv_disk := d\<rparr>\<rparr>)"
    by (rule folder_step_service) simp_all
  then show ?thesis using assms(2) Edits by (simp add: router_ok_on_folder)
next
  case (Leaves p)
  then show ?thesis
    using router_ok_map [OF assms(2) folder_steps(3)] by (simp add: router_peer_disconnected_def)
next
  case (Shuts orders)
  define fds where "fds = map (\<lambda>(i, fd). folder_shutdown (pfs i) (orders i) fd) (enumerate 0 (rt_folders rt))"
  have "router_ok (rt\<lparr>rt_folders := fds\<rparr>)"
    unfolding fds_def by (rule router_ok_map [OF assms(2) folder_step_shutdown])
  moreover have "list_all fd_stopped fds"
    by (simp add: fds_def list_all_length nth_enumerate_eq folder_shutdown_stops)
  ultimately have "router_ok (rt\<lparr>rt_stopped := True, rt_folders := fds\<rparr>)"
    by (simp add: router_ok_def)
  then show ?thesis
    using assms(2) by (simp add: Shuts router_shutdown_def fds_def)
qed (use assms(2) folder_steps(1,2) in \<open>simp_all add: router_ok_on_folder\<close>)

lemma reached_ok_router: "reached pfss rt \<Longrightarrow> router_ok rt"
proof (induction rule: reached.induct)
  case Starts
  then show ?case by (simp add: router_ok_def new_router_def)
qed (rule router_ok_step)

section \<open>The sessions behind the router\<close>

text \<open>What a session sees of the world: its own state over its folder's.\<close>

definition session_at :: "nat \<Rightarrow> peer_id \<Rightarrow> router \<Rightarrow> session option" where
  "session_at i p rt =
     (if i < length (rt_folders rt)
      then map_option (load_session (rt_folders rt ! i)) (om_find (fd_sessions (rt_folders rt ! i)) p)
      else None)"

lemma load_shared: "load_session (fd\<lparr>fd_service := shared s, fd_sessions := m\<rparr>) s = s"
  by (simp add: load_session_def shared_def)

lemma load_fields [simp]: "ss_incompatible (load_session fd s) = ss_incompatible s"
  "sv_tag (ss_service (load_session fd s)) = sv_tag (fd_service fd)"
  "sv_config (ss_service (load_session fd s)) = sv_config (fd_service fd)"
  "ss_remote (load_session fd s) = ss_remote s"
  by (simp_all add: load_session_def)

definition fresh_session :: "folder \<Rightarrow> session" where
  "fresh_session fd = new_session ((fd_service fd)\<lparr>sv_temp := Map.empty\<rparr>)"

lemma deliver_handle_op:
  assumes "kHeaderBytes \<le> length payload" "r_u32 (reader_of payload) = (sv_tag (ss_service st), ra)" "r_u8 ra = (op, rb)"
  shows "deliver pf payload st = handle_op pf op rb st"
  using assms by (simp add: deliver_def Let_def handle_op_def)

lemma handle_message_session:
  fixes fd :: folder
  assumes "folder_ok fd" "\<not> fd_stopped fd" "peer_allowed (fd_service fd) from"
  shows "map_option (load_session (handle_message pf from op r fd)) (om_find (fd_sessions (handle_message pf from op r fd)) from)
      = Some (handle_op pf op r (case om_find (fd_sessions fd) from of Some s \<Rightarrow> load_session fd s | None \<Rightarrow> fresh_session fd))
    \<and> (\<forall>q. q \<noteq> from \<longrightarrow> om_find (fd_sessions (handle_message pf from op r fd)) q = om_find (fd_sessions fd) q)"
proof -
  have inv: "om_inv (fd_sessions fd)" using assms(1) by (simp add: folder_ok_def)
  have step: "map_option (load_session (on_session from f g)) (om_find (fd_sessions (on_session from f g)) from)
        = Some (f (load_session g s))
      \<and> (\<forall>q. q \<noteq> from \<longrightarrow> om_find (fd_sessions (on_session from f g)) q = om_find (fd_sessions g) q)"
    if "om_find (fd_sessions g) from = Some s" "om_inv (fd_sessions g)" for f and g :: folder and s
    using that om.find_assign [OF that(2)] by (simp add: on_session_def Let_def load_shared)
  show ?thesis
  proof (cases "om_find (fd_sessions fd) from")
    case None
    let ?g = "fd\<lparr>fd_sessions := om_assign from (fresh_session fd) (fd_sessions fd)\<rparr>"
    have "load_session ?g (fresh_session fd) = fresh_session fd"
      by (simp add: load_session_def fresh_session_def new_session_def)
    moreover have "handle_message pf from op r fd = on_session from (handle_op pf op r) ?g"
      using assms None by (simp add: handle_message_def session_for_def fresh_session_def)
    ultimately show ?thesis
      using step [of ?g "fresh_session fd" "handle_op pf op r"] om.inv_assign [OF inv] om.find_assign [OF inv] None by simp
  next
    case (Some s)
    then have "handle_message pf from op r fd = on_session from (handle_op pf op r) fd"
      using assms by (simp add: handle_message_def session_for_def)
    then show ?thesis
      using step [OF Some inv, of "handle_op pf op r"] Some by simp
  qed
qed

lemma on_message_routes:
  assumes ok: "router_ok rt" and run: "\<not> rt_stopped rt" and len: "kHeaderBytes \<le> length payload"
    and i: "i < length (rt_folders rt)" "folder_tag_of (rt_folders rt ! i) = fst (r_u32 (reader_of payload))"
  obtains op r where "on_message pfs from payload rt = on_folder i (handle_message (pfs i) from op r) rt"
    and "\<And>st pf. sv_tag (ss_service st) = folder_tag_of (rt_folders rt ! i) \<Longrightarrow> deliver pf payload st = handle_op pf op r st"
proof -
  obtain ra op rb where rds: "r_u32 (reader_of payload) = (folder_tag_of (rt_folders rt ! i), ra)" "r_u8 ra = (op, rb)"
    using i(2) by (metis prod.collapse)
  have "om_find (rt_by_tag rt) (folder_tag_of (rt_folders rt ! i)) = Some i"
    using ok i(1) by (simp add: router_ok_def)
  then have "on_message pfs from payload rt = on_folder i (handle_message (pfs i) from op rb) rt"
    using run len by (simp add: on_message_def rds)
  moreover have "deliver pf payload st = handle_op pf op rb st" if "sv_tag (ss_service st) = folder_tag_of (rt_folders rt ! i)" for st pf
    using deliver_handle_op [OF len] rds that by simp
  ultimately show thesis
    using that by blast
qed

text \<open>A node with one folder, open to all or to one peer.\<close>

definition sample_router :: router where
  "sample_router = snd (add_folder (sample_service TwoWay Newer False) new_router)"

definition guarded_router :: router where
  "guarded_router = snd (add_folder ((sample_service TwoWay Newer False)
     \<lparr>sv_config := default_config\<lparr>cf_allowed_peers := [[1]]\<rparr>\<rparr>) new_router)"

lemma one_folder_reached: "reached UNIV (snd (add_folder sv new_router))"
  by (rule reached.Steps [OF reached.Starts UNIV_I router_step.Adds]) (simp add: new_router_def)

lemma sample_router_reached: "reached UNIV sample_router"
  unfolding sample_router_def by (rule one_folder_reached)

lemma sample_router_folders: "rt_folders sample_router = [new_folder (sample_service TwoWay Newer False)]"
  "\<not> rt_stopped sample_router"
  by (simp_all add: sample_router_def add_folder_def new_router_def)

section \<open>Properties\<close>

text \<open>C9. The router refines the sessions: after any history of the node, a message from an allowed peer
  under a folder's tag takes exactly that folder's session with that peer through \<open>deliver\<close>, creating
  the session first when there is none, and touches no other folder and no other session's own state.\<close>

theorem router_refines_sessions:
  assumes "reached pfss rt" "\<not> rt_stopped rt" "kHeaderBytes \<le> length payload"
    and "i < length (rt_folders rt)" "folder_tag_of (rt_folders rt ! i) = fst (r_u32 (reader_of payload))"
    and "\<not> fd_stopped (rt_folders rt ! i)" "peer_allowed (fd_service (rt_folders rt ! i)) from"
  shows "session_at i from (on_message pfs from payload rt) =
      Some (deliver (pfs i) payload
        (case session_at i from rt of Some s \<Rightarrow> s | None \<Rightarrow> fresh_session (rt_folders rt ! i)))
    \<and> (\<forall>j. j \<noteq> i \<longrightarrow> rt_folders (on_message pfs from payload rt) ! j = rt_folders rt ! j)
    \<and> (\<forall>q. q \<noteq> from \<longrightarrow> om_find (fd_sessions (rt_folders (on_message pfs from payload rt) ! i)) q =
        om_find (fd_sessions (rt_folders rt ! i)) q)"
proof -
  have ok: "router_ok rt" "folder_ok (rt_folders rt ! i)"
    using reached_ok_router [OF assms(1)] assms(4) by (auto simp: router_ok_def list_all_length)
  obtain op r where msg: "on_message pfs from payload rt = on_folder i (handle_message (pfs i) from op r) rt"
    "\<And>st pf. sv_tag (ss_service st) = folder_tag_of (rt_folders rt ! i) \<Longrightarrow> deliver pf payload st = handle_op pf op r st"
    using on_message_routes [OF ok(1) assms(2-5), of pfs "from"] by metis
  have "sv_tag (ss_service (fresh_session (rt_folders rt ! i))) = folder_tag_of (rt_folders rt ! i)"
    by (simp add: fresh_session_def new_session_def folder_tag_of_def)
  with handle_message_session [OF ok(2) assms(6,7), of "pfs i" op r] show ?thesis
    using assms(4) by (cases "om_find (fd_sessions (rt_folders rt ! i)) from")
      (simp_all add: msg session_at_def on_folder_def folder_tag_of_def)
qed

theorem router_refines_sessions_witness:
  "\<forall>pfs. session_at 0 [1] (on_message pfs [1] (hello_message (sample_service TwoWay Newer False)) sample_router) =
     Some (deliver (pfs 0) (hello_message (sample_service TwoWay Newer False))
       (fresh_session (new_folder (sample_service TwoWay Newer False))))"
proof
  fix pfs
  let ?sv = "sample_service TwoWay Newer False"
  let ?hello = "hello_message ?sv"
  have hello: "?hello = be32 (sv_tag ?sv) @ op_code Hello # kVersion # sync_mode_code (cf_mode (sv_config ?sv)) #
      conflict_policy_code (cf_conflict (sv_config ?sv)) # be16 (of_nat (length (cf_folder (sv_config ?sv)))) @ cf_folder (sv_config ?sv)"
    by (simp add: hello_message_def codec_simps)
  have "kHeaderBytes \<le> length ?hello" "folder_tag_of (rt_folders sample_router ! 0) = fst (r_u32 (reader_of ?hello))"
    by (simp_all add: hello kHeaderBytes_def reader_of_def codec_simps sample_router_folders new_folder_def folder_tag_of_def)
  moreover have "\<not> fd_stopped (rt_folders sample_router ! 0)" "peer_allowed (fd_service (rt_folders sample_router ! 0)) [1]"
    by (simp_all add: sample_router_folders new_folder_def peer_allowed_def sample_service_def new_service_def
        with_defaults_def default_config_def Let_def)
  ultimately show "session_at 0 [1] (on_message pfs [1] ?hello sample_router) =
      Some (deliver (pfs 0) ?hello (fresh_session (new_folder ?sv)))"
    using router_refines_sessions [OF sample_router_reached, of ?hello 0 "[1]" pfs]
    by (simp add: sample_router_folders session_at_def new_folder_def)
qed

text \<open>C32. Routing is by distinct tags: after any history every folder is the one its own tag leads to, no
  two folders share a tag, and the memory kept of peers that name unknown folders is bounded, however
  many messages arrive.\<close>

theorem router_tags_distinct:
  assumes "reached pfss rt" "i < length (rt_folders rt)" "j < length (rt_folders rt)"
  shows "om_find (rt_by_tag rt) (folder_tag_of (rt_folders rt ! i)) = Some i
    \<and> (folder_tag_of (rt_folders rt ! i) = folder_tag_of (rt_folders rt ! j) \<longrightarrow> i = j)
    \<and> length (rt_unknown rt) \<le> 256 \<and> length (rt_reports rt) \<le> 256"
proof -
  note ok = reached_ok_router [OF assms(1), unfolded router_ok_def]
  have "om_find (rt_by_tag rt) (folder_tag_of (rt_folders rt ! k)) = Some k" if "k < length (rt_folders rt)" for k
    using ok that by blast
  note found = this [OF assms(2)] this [OF assms(3)]
  then have "i = j" if "folder_tag_of (rt_folders rt ! i) = folder_tag_of (rt_folders rt ! j)"
    using that by (metis option.inject)
  then show ?thesis
    using found ok by (simp add: kMaxRemembered_def)
qed

theorem router_tags_distinct_witness:
  "om_find (rt_by_tag sample_router) (folder_tag_of (rt_folders sample_router ! 0)) = Some 0"
  using router_tags_distinct [OF sample_router_reached, of 0 0] by (simp add: sample_router_folders)

text \<open>C24. A folder with an allow-list serves nobody else: after any history it holds no session with a
  peer outside the list, a message from one leaves the folder as it was, and one that connects is
  offered nothing of it. Once stopped, a folder has no session at all.\<close>

theorem only_allowed_peers_served:
  assumes "reached pfss rt" "i < length (rt_folders rt)"
    and "\<not> peer_allowed (fd_service (rt_folders rt ! i)) p \<or> fd_stopped (rt_folders rt ! i)"
  shows "om_find (fd_sessions (rt_folders rt ! i)) p = None
    \<and> rt_folders (on_message pfs p payload rt) ! i = rt_folders rt ! i
    \<and> peer_connected (fd_service (rt_folders rt ! i)) (fd_stopped (rt_folders rt ! i)) p = []"
proof -
  note ok = reached_ok_router [OF assms(1)]
  then have "folder_ok (rt_folders rt ! i)"
    using assms(2) by (simp add: router_ok_def list_all_length)
  then have none: "om_find (fd_sessions (rt_folders rt ! i)) p = None"
    using assms(3) unfolding folder_ok_def by blast
  have "handle_message (pfs i) p op r (rt_folders rt ! i) = rt_folders rt ! i" for op r
    using assms(3) by (auto simp: handle_message_def session_for_def)
  then have "rt_folders (on_folder k (handle_message (pfs k) p op r) rt) ! i = rt_folders rt ! i" for k op r
    by (cases "k = i") (simp_all add: on_folder_def)
  then have "rt_folders (on_message pfs p payload rt) ! i = rt_folders rt ! i"
    by (simp add: on_message_def Let_def report_unknown_def split: prod.split option.split)
  with none assms(3) show ?thesis
    by (auto simp: peer_connected_def)
qed

theorem only_allowed_peers_served_witness:
  "\<forall>pfs payload. rt_folders (on_message pfs [2] payload guarded_router) ! 0 = rt_folders guarded_router ! 0"
proof (intro allI)
  fix pfs payload
  have "\<not> peer_allowed (fd_service (rt_folders guarded_router ! 0)) [2]" "0 < length (rt_folders guarded_router)"
    by (simp_all add: guarded_router_def add_folder_def new_router_def new_folder_def peer_allowed_def)
  moreover have "reached UNIV guarded_router"
    unfolding guarded_router_def by (rule one_folder_reached)
  ultimately show "rt_folders (on_message pfs [2] payload guarded_router) ! 0 = rt_folders guarded_router ! 0"
    using only_allowed_peers_served [of UNIV guarded_router 0 "[2]" pfs payload] by blast
qed

end
