(* ===== verification/File_Stat.thy ===== *)
theory File_Stat
  imports Manifest
begin

text \<open>
  \<open>core/file_stat.h\<close> / \<open>.cpp\<close>, the POSIX build: what a path is, and what it stands for, from the answers of
  \<open>lstat\<close>, \<open>stat\<close> and \<open>realpath\<close>, which are parameters.
\<close>

text \<open>The parts of \<open>struct stat\<close> the code reads: the file type bits, the owner's execute bit, size and mtime.\<close>

record posix_stat =
  st_link :: bool
  st_dir :: bool
  st_exec :: bool
  st_size :: u64
  st_mtime :: i64

record file_stat =
  fs_exists :: bool
  fs_link :: bool
  fs_directory :: bool
  fs_size :: u64
  fs_mtime :: i64
  fs_mode :: u32

definition no_stat :: file_stat where
  "no_stat = \<lparr>fs_exists = False, fs_link = False, fs_directory = False, fs_size = 0, fs_mtime = 0, fs_mode = 0\<rparr>"

definition stat_follow :: "(bytes \<Rightarrow> posix_stat option) \<Rightarrow> bytes \<Rightarrow> file_stat" where
  "stat_follow stat path =
     (case stat path of
        None \<Rightarrow> no_stat
      | Some st \<Rightarrow>
          let s = no_stat\<lparr>fs_exists := True, fs_directory := st_dir st\<rparr>;
              s = (if \<not> fs_directory s
                   then s\<lparr>fs_size := st_size st, fs_mode := (if st_exec st then kExecutable else 0)\<rparr> else s)
          in s\<lparr>fs_mtime := st_mtime st\<rparr>)"

definition stat_nofollow :: "(bytes \<Rightarrow> posix_stat option) \<Rightarrow> bytes \<Rightarrow> file_stat" where
  "stat_nofollow lstat path =
     (case lstat path of
        None \<Rightarrow> no_stat
      | Some st \<Rightarrow>
          let s = no_stat\<lparr>fs_exists := True, fs_link := st_link st, fs_directory := st_dir st\<rparr>;
              s = (if \<not> fs_directory s \<and> \<not> fs_link s
                   then s\<lparr>fs_size := st_size st, fs_mode := (if st_exec st then kExecutable else 0)\<rparr> else s)
          in s\<lparr>fs_mtime := st_mtime st\<rparr>)"

definition real_path :: "(bytes \<Rightarrow> bytes option) \<Rightarrow> bytes \<Rightarrow> bytes" where
  "real_path realpath path = (case realpath path of None \<Rightarrow> [] | Some out \<Rightarrow> out)"

lemma stat_nofollow_fields [simp]:
  "fs_exists (stat_nofollow lstat p) \<longleftrightarrow> lstat p \<noteq> None"
  "fs_link (stat_nofollow lstat p) \<longleftrightarrow> (\<exists>st. lstat p = Some st \<and> st_link st)"
  "fs_directory (stat_nofollow lstat p) \<longleftrightarrow> (\<exists>st. lstat p = Some st \<and> st_dir st)"
  by (auto simp: stat_nofollow_def no_stat_def Let_def split: option.split)

end
