(* ===== verification/Ignore.thy ===== *)
theory Ignore
  imports Prelude
begin

text \<open>
  \<open>core/ignore.h\<close> and \<open>core/ignore.cpp\<close>: gitignore-style filtering.  The segment matcher is the code's
  loop with its one backtrack point; it is compared with the declarative meaning of a wildcard
  pattern, and the list matcher with that of \<open>**\<close>.
\<close>

section \<open>Matching one segment\<close>

text \<open>
  \<open>seg_match\<close>: the loop over \<open>p\<close>, \<open>s\<close> and the last star seen (its position and the \<open>mark\<close> it was
  tried at; \<open>None\<close> for \<open>npos\<close>).  A star is looked for only after a literal comparison failed.
\<close>

function seg_loop :: "bytes \<Rightarrow> bytes \<Rightarrow> nat \<Rightarrow> nat \<Rightarrow> (nat \<times> nat) option \<Rightarrow> bool" where
  "seg_loop pat s p i bt =
     (if i < length s then
        if p < length pat \<and> (pat ! p = question \<or> pat ! p = s ! i) then
          seg_loop pat s (p + 1) (i + 1) bt
        else if p < length pat \<and> pat ! p = star then
          seg_loop pat s (p + 1) i (Some (p, i))
        else case bt of
          Some (st, mark) \<Rightarrow> seg_loop pat s (st + 1) (mark + 1) (Some (st, mark + 1))
        | None \<Rightarrow> False
      else dropWhile (\<lambda>c. c = star) (drop p pat) = [])"
  by pat_completeness auto
termination
proof (relation "measures
    [\<lambda>(pat, s, p, i, bt). max (length pat - p) (case bt of None \<Rightarrow> 0 | Some (st, mark) \<Rightarrow> length pat - (st + 1)),
     \<lambda>(pat, s, p, i, bt). max (length s - i) (case bt of None \<Rightarrow> 0 | Some (st, mark) \<Rightarrow> length s - mark),
     \<lambda>(pat, s, p, i, bt). length pat - p]", goal_cases)
  case (2 pat s p i bt)
  then have "p < length pat" by simp
  then show ?case
    by (intro measures_le_lt(2)) (simp_all add: max.coboundedI1 diff_less_mono2)
next
  case (3 pat s p i bt)
  then have "p < length pat" by simp
  then show ?case
    by (simp add: less_max_iff_disj diff_less_mono2)
next
  case (4 pat s p i bt y st mark)
  then show ?case
    by (intro measures_le_lt(1)) (auto simp: less_max_iff_disj)
qed simp

declare seg_loop.simps [simp del]

definition seg_match :: "bytes \<Rightarrow> bytes \<Rightarrow> bool" where
  "seg_match pat s = seg_loop pat s 0 0 None"

section \<open>Splitting and matching segment lists\<close>

text \<open>The loop of \<open>split\<close>: \<open>out\<close> and \<open>cur\<close> are its locals.\<close>

primrec split_loop :: "u8 \<Rightarrow> bytes \<Rightarrow> bytes list \<Rightarrow> bytes \<Rightarrow> bytes list" where
  "split_loop sep [] out cur = out @ [cur]"
| "split_loop sep (c # s) out cur =
     (if c = sep then split_loop sep s (out @ [cur]) [] else split_loop sep s out (cur @ [c]))"

definition split :: "bytes \<Rightarrow> u8 \<Rightarrow> bytes list" where
  "split s sep = split_loop sep s [] []"

text \<open>
  \<open>match_segs\<close> from \<open>pat[pi..]\<close> and \<open>path[si..]\<close>; the loop over \<open>k\<close> tries every suffix of the path,
  the empty one included.
\<close>

primrec match_segs :: "bytes list \<Rightarrow> bytes list \<Rightarrow> bool" where
  "match_segs [] path = (path = [])"
| "match_segs (g # pat) path =
     (if g = [star, star] then
        if pat = [] then True
        else list_ex (\<lambda>k. match_segs pat (drop k path)) [0..<length path + 1]
      else if path = [] then False
      else if \<not> seg_match g (hd path) then False
      else match_segs pat (tl path))"

definition glob_match :: "bytes \<Rightarrow> bytes \<Rightarrow> bool \<Rightarrow> bool" where
  "glob_match pattern path anchored =
     (if anchored then match_segs (split pattern slash) (split path slash)
      else list_ex (\<lambda>seg. seg_match pattern seg) (split path slash))"

section \<open>IgnoreList\<close>

record rule =
  r_pattern :: bytes
  r_negate :: bool
  r_dir_only :: bool
  r_anchored :: bool

type_synonym ignore_list = "rule list"

definition pop_if :: "u8 \<Rightarrow> bytes \<Rightarrow> bytes" where
  "pop_if c s = (if s \<noteq> [] \<and> last s = c then butlast s else s)"

definition ignore_add :: "bytes \<Rightarrow> ignore_list \<Rightarrow> ignore_list" where
  "ignore_add raw rules =
     (let line = pop_if 13 raw
      in if line = [] \<or> hd line = 35 then rules
         else
           let negate = (hd line = 33);
               line = (if negate then tl line else line)
           in if line = [] then rules
              else
                let dir_only = (last line = slash);
                    line = (if dir_only then butlast line else line);
                    lead = (line \<noteq> [] \<and> hd line = slash);
                    line = (if lead then tl line else line);
                    anchored = (lead \<or> slash \<in> set line)
                in if line = [] then rules
                   else rules @ [\<lparr>r_pattern = line, r_negate = negate, r_dir_only = dir_only,
                                  r_anchored = anchored\<rparr>])"

text \<open>\<open>std::getline\<close>: the pieces between newlines, without an empty one after the last.\<close>

definition getlines :: "bytes \<Rightarrow> bytes list" where
  "getlines text = (let ls = pieces 10 text in if last ls = [] then butlast ls else ls)"

definition ignore_add_lines :: "bytes \<Rightarrow> ignore_list \<Rightarrow> ignore_list" where
  "ignore_add_lines text rules = fold ignore_add (getlines text) rules"

text \<open>\<open>add_file\<close>, on the file's contents (\<open>None\<close>: there is no such file).\<close>

definition ignore_add_file :: "bytes option \<Rightarrow> ignore_list \<Rightarrow> bool \<times> ignore_list" where
  "ignore_add_file file rules =
     (case file of None \<Rightarrow> (False, rules) | Some text \<Rightarrow> (True, ignore_add_lines text rules))"

definition ignore_matches :: "ignore_list \<Rightarrow> bytes \<Rightarrow> bool \<Rightarrow> bool" where
  "ignore_matches rules relpath is_dir =
     fold (\<lambda>r ignored.
        if r_dir_only r \<and> \<not> is_dir then ignored
        else if glob_match (r_pattern r) relpath (r_anchored r) then \<not> r_negate r
        else ignored) rules False"

section \<open>What a wildcard pattern means\<close>

text \<open>
  The declarative matcher: a star stands for any run of characters, a question mark for one
  character, anything else for itself.
\<close>

fun wild :: "bytes \<Rightarrow> bytes \<Rightarrow> bool" where
  "wild [] s = (s = [])"
| "wild (c # pat) s =
     (if c = star then list_ex (\<lambda>k. wild pat (drop k s)) [0..<length s + 1]
      else s \<noteq> [] \<and> (c = question \<or> c = hd s) \<and> wild pat (tl s))"

lemma wild_star: "wild (star # pat) s \<longleftrightarrow> (\<exists>a b. s = a @ b \<and> wild pat b)"
proof -
  have "wild (star # pat) s \<longleftrightarrow> (\<exists>k \<le> length s. wild pat (drop k s))"
    by (auto simp: wild.simps list_ex_iff less_Suc_eq_le simp del: upt_Suc)
  also have "\<dots> \<longleftrightarrow> (\<exists>a b. s = a @ b \<and> wild pat b)"
    by (metis append_eq_conv_conj append_take_drop_id le_add1 length_append)
  finally show ?thesis .
qed

declare wild.simps(2) [simp del]

lemma wild_char: "c \<noteq> star \<Longrightarrow>
  wild (c # pat) s \<longleftrightarrow> (\<exists>d t. s = d # t \<and> (c = question \<or> c = d) \<and> wild pat t)"
  by (cases s) (auto simp: wild.simps(2))

lemma wild_star_Cons: "wild (star # pat) (d # s) \<longleftrightarrow> wild pat (d # s) \<or> wild (star # pat) s"
  unfolding wild_star by (metis append_Cons append_Nil append_eq_Cons_conv)

lemma wild_star_Nil: "wild (star # pat) [] \<longleftrightarrow> wild pat []"
  by (auto simp: wild_star)

lemma wild_star_absorb: "wild (star # pat) b \<Longrightarrow> wild (star # pat) (a @ b)"
  unfolding wild_star by (metis append_assoc)

text \<open>A star-free prefix of a pattern consumes as many characters as it has.\<close>

lemma wild_star_free:
  "star \<notin> set mid \<Longrightarrow> wild (mid @ pat) s \<Longrightarrow>
   length mid \<le> length s \<and> wild pat (drop (length mid) s)"
proof (induction mid arbitrary: s)
  case (Cons c mid)
  then show ?case
    by (auto simp: wild_char)
qed simp

lemma wild_Nil_iff: "wild pat [] \<longleftrightarrow> dropWhile (\<lambda>c. c = star) pat = []"
  by (induction pat) (auto simp: wild_star_Nil wild_char)

text \<open>
  Giving up the older star is sound: if it could still lead to a match, so could the newer one,
  which sees at least the same suffixes.
\<close>

lemma newer_star_suffices:
  assumes "star \<notin> set mid" "rest = drop (length mid) s" "length mid \<le> length s"
    and "wild (star # mid @ star # pat) (tl s)"
  shows "wild (star # pat) rest"
proof -
  from assms(4) obtain a b where ab: "tl s = a @ b" and "wild (mid @ star # pat) b"
    by (auto simp: wild_star)
  with wild_star_free [OF assms(1)] have b: "length mid \<le> length b" "wild (star # pat) (drop (length mid) b)"
    by auto
  from ab obtain c where "s = c @ b"
    by (metis append_Cons append_Nil list.collapse tl_Nil append_is_Nil_conv)
  then have "rest = drop (length mid) (c @ b)"
    using assms(2) by simp
  moreover have "\<exists>e. drop (length mid) (c @ b) = e @ drop (length mid) b"
  proof -
    have "drop (length c) (drop (length mid) (c @ b)) = drop (length mid) (drop (length c) (c @ b))"
      by (simp only: drop_drop add.commute)
    then have "drop (length mid) b = drop (length c) (drop (length mid) (c @ b))"
      by simp
    then show ?thesis
      by (metis append_take_drop_id)
  qed
  ultimately show ?thesis
    using b wild_star_absorb by metis
qed

text \<open>
  The loop's invariant: between the last star and \<open>p\<close> the pattern has no star and has consumed the
  characters from \<open>mark\<close> to \<open>i\<close>.  What is left to decide is the current attempt or a later mark.
\<close>

definition bt_inv :: "bytes \<Rightarrow> nat \<Rightarrow> nat \<Rightarrow> (nat \<times> nat) option \<Rightarrow> bool" where
  "bt_inv pat p i bt = (case bt of None \<Rightarrow> True
     | Some (st, mark) \<Rightarrow>
         \<exists>mid. star \<notin> set mid \<and> drop (st + 1) pat = mid @ drop p pat \<and> length mid + mark = i)"

definition later_mark :: "bytes \<Rightarrow> bytes \<Rightarrow> (nat \<times> nat) option \<Rightarrow> bool" where
  "later_mark pat s bt = (case bt of None \<Rightarrow> False
     | Some (st, mark) \<Rightarrow> wild (star # drop (st + 1) pat) (drop (mark + 1) s))"

lemma bt_inv_advance:
  assumes "bt_inv pat p i bt" "p < length pat" "pat ! p \<noteq> star"
  shows "bt_inv pat (p + 1) (i + 1) bt"
proof (cases bt)
  case (Some b)
  then obtain st mark mid where b: "bt = Some (st, mark)" "star \<notin> set mid"
    "drop (st + 1) pat = mid @ drop p pat" "length mid + mark = i"
    using assms(1) by (cases b) (auto simp: bt_inv_def)
  then have "drop (st + 1) pat = (mid @ [pat ! p]) @ drop (p + 1) pat"
    using assms(2) by (simp add: Cons_nth_drop_Suc)
  with b assms(3) show ?thesis
    by (auto simp: bt_inv_def intro!: exI [of _ "mid @ [pat ! p]"])
qed (simp add: bt_inv_def)

lemma later_mark_below_new_star:
  assumes "bt_inv pat p i bt" "i \<le> length s" "p < length pat" "pat ! p = star" "later_mark pat s bt"
  shows "wild (star # drop (p + 1) pat) (drop i s)"
proof -
  obtain st mark mid where b: "star \<notin> set mid" "drop (st + 1) pat = mid @ drop p pat"
    "length mid + mark = i" "wild (star # drop (st + 1) pat) (drop (mark + 1) s)"
    using assms(1,5) by (auto simp: bt_inv_def later_mark_def split: option.splits)
  then have "wild (star # mid @ star # drop (p + 1) pat) (tl (drop mark s))"
    using assms(3,4) by (simp add: drop_Suc tl_drop flip: Cons_nth_drop_Suc)
  from newer_star_suffices [OF b(1) _ _ this, of "drop i s"] b(3) assms(2) show ?thesis
    by (simp add: add.commute)
qed

lemma later_mark_at_end:
  assumes "bt_inv pat p (length s) bt" "later_mark pat s bt"
  shows "wild (drop p pat) []"
proof -
  obtain st mark mid where b: "star \<notin> set mid" "drop (st + 1) pat = mid @ drop p pat"
    "length mid + mark = length s" "wild (star # drop (st + 1) pat) (drop (mark + 1) s)"
    using assms by (auto simp: bt_inv_def later_mark_def split: option.splits)
  then obtain a b' where "drop (mark + 1) s = a @ b'" and w: "wild (mid @ drop p pat) b'"
    by (auto simp: wild_star)
  then have "length b' \<le> length s - (mark + 1)"
    by (metis length_append length_drop le_add2)
  with wild_star_free [OF b(1) w] b(3) show ?thesis
    by (cases mid) auto
qed

lemma later_mark_unfold:
  assumes "i < length s" "mark \<le> i"
  shows "later_mark pat s (Some (st, mark)) \<longleftrightarrow>
    wild (drop (st + 1) pat) (drop (mark + 1) s) \<or> later_mark pat s (Some (st, mark + 1))"
proof (cases "drop (mark + 1) s")
  case Nil
  then show ?thesis
    by (simp add: later_mark_def wild_star_Nil)
next
  case (Cons d t)
  then have "drop (mark + 1 + 1) s = t"
    by (metis drop_Suc list.sel(3) tl_drop Suc_eq_plus1)
  with Cons show ?thesis
    by (simp add: later_mark_def wild_star_Cons)
qed

lemma seg_loop_wild:
  assumes "star \<notin> set s" "i \<le> length s" "bt_inv pat p i bt"
  shows "seg_loop pat s p i bt \<longleftrightarrow> wild (drop p pat) (drop i s) \<or> later_mark pat s bt"
  using assms
proof (induction pat s p i bt rule: seg_loop.induct)
  case (1 pat s p i bt)
  consider (finished) "i = length s"
    | (char) "i < length s" "p < length pat" "pat ! p = question \<or> pat ! p = s ! i"
    | (new_star) "i < length s" "p < length pat" "\<not> (pat ! p = question \<or> pat ! p = s ! i)" "pat ! p = star"
    | (stuck) "i < length s" "\<not> (p < length pat \<and> (pat ! p = question \<or> pat ! p = s ! i))"
        "\<not> (p < length pat \<and> pat ! p = star)"
    using "1.prems"(2) by linarith
  then show ?case
  proof cases
    case finished
    then have "seg_loop pat s p i bt \<longleftrightarrow> wild (drop p pat) []"
      by (subst seg_loop.simps) (simp add: wild_Nil_iff)
    with later_mark_at_end "1.prems"(3) finished show ?thesis by auto
  next
    case char
    have "s ! i \<noteq> star"
      using char(1) "1.prems"(1) nth_mem by metis
    with char have "pat ! p \<noteq> star" by auto
    then have "wild (drop p pat) (drop i s) \<longleftrightarrow> wild (drop (p + 1) pat) (drop (i + 1) s)"
      using char by (auto simp: wild_char simp flip: Cons_nth_drop_Suc)
    with "1.IH"(1) "1.prems" char bt_inv_advance [OF "1.prems"(3) char(2) \<open>pat ! p \<noteq> star\<close>]
    show ?thesis
      by (subst seg_loop.simps) simp
  next
    case new_star
    let ?new = "wild (star # drop (p + 1) pat) (drop i s)"
    have "seg_loop pat s p i bt \<longleftrightarrow>
        wild (drop (p + 1) pat) (drop i s) \<or> later_mark pat s (Some (p, i))"
      using "1.IH"(2) "1.prems" new_star by (subst seg_loop.simps) (simp add: bt_inv_def)
    also have "\<dots> \<longleftrightarrow> ?new"
      using new_star(1) by (simp add: later_mark_def wild_star_Cons flip: Cons_nth_drop_Suc)
    also have "\<dots> \<longleftrightarrow> wild (drop p pat) (drop i s) \<or> later_mark pat s bt"
    proof -
      have "drop p pat = star # drop (p + 1) pat"
        using new_star by (metis Cons_nth_drop_Suc Suc_eq_plus1)
      with later_mark_below_new_star [OF "1.prems"(3,2) new_star(2,4)] show ?thesis
        by auto
    qed
    finally show ?thesis .
  next
    case stuck
    have no_match: "\<not> wild (drop p pat) (drop i s)"
    proof (cases "p < length pat")
      case True
      with stuck show ?thesis
        by (auto simp: wild_char simp flip: Cons_nth_drop_Suc)
    qed (use stuck in simp)
    show ?thesis
    proof (cases bt)
      case None
      with stuck no_match show ?thesis
        by (subst seg_loop.simps) (auto simp: later_mark_def)
    next
      case (Some b)
      obtain st mark where b: "b = (st, mark)" by force
      then have mark: "mark \<le> i" "mark + 1 \<le> length s"
        using "1.prems"(3) stuck(1) Some by (auto simp: bt_inv_def)
      have "bt_inv pat (st + 1) (mark + 1) (Some (st, mark + 1))"
        by (simp add: bt_inv_def)
      from "1.IH"(3) [OF stuck Some b [symmetric] "1.prems"(1) mark(2) this]
      have "seg_loop pat s (st + 1) (mark + 1) (Some (st, mark + 1)) \<longleftrightarrow>
          later_mark pat s (Some (st, mark))"
        by (simp only: later_mark_unfold [OF stuck(1) mark(1)])
      moreover have "seg_loop pat s p i bt = seg_loop pat s (st + 1) (mark + 1) (Some (st, mark + 1))"
        using stuck Some b by (subst seg_loop.simps) auto
      ultimately show ?thesis
        using no_match Some b by simp
    qed
  qed
qed

lemma seg_match_wild: "star \<notin> set s \<Longrightarrow> seg_match pat s \<longleftrightarrow> wild pat s"
  using seg_loop_wild [of s 0 pat 0 None] by (simp add: seg_match_def bt_inv_def later_mark_def)

section \<open>What the header promises\<close>

text \<open>
  The same meaning as a relation: each part of the pattern takes its part of the name.
\<close>

inductive wild_means :: "bytes \<Rightarrow> bytes \<Rightarrow> bool" where
  wild_end: "wild_means [] []"
| wild_run: "wild_means pat s \<Longrightarrow> wild_means (star # pat) (run @ s)"
| wild_one: "wild_means pat s \<Longrightarrow> wild_means (question # pat) (c # s)"
| wild_self: "c \<noteq> star \<Longrightarrow> c \<noteq> question \<Longrightarrow> wild_means pat s \<Longrightarrow> wild_means (c # pat) (c # s)"

inductive_simps wild_means_simps: "wild_means [] s" "wild_means (c # pat) s"

lemma wild_means_wild: "wild_means pat s \<longleftrightarrow> wild pat s"
proof (induction pat arbitrary: s)
  case (Cons c pat)
  show ?case
  proof (cases "c = star")
    case True
    then have "wild_means (c # pat) s \<longleftrightarrow> (\<exists>a b. s = a @ b \<and> wild_means pat b)"
      by (subst wild_means_simps) auto
    with True show ?thesis by (simp add: wild_star Cons.IH)
  next
    case False
    then have "wild_means (c # pat) s \<longleftrightarrow> (\<exists>d t. s = d # t \<and> (c = question \<or> c = d) \<and> wild_means pat t)"
      by (subst wild_means_simps) auto
    with False show ?thesis by (simp add: wild_char Cons.IH)
  qed
qed (simp add: wild_means_simps)

lemma split_loop_pieces: "split_loop sep s out cur = out @ (cur @ hd (pieces sep s)) # tl (pieces sep s)"
  by (induction s arbitrary: out cur) auto

lemma split_pieces: "split s sep = pieces sep s"
  by (simp add: split_def split_loop_pieces)

text \<open>A path is matched when its segments line up with the pattern's, \<open>**\<close> taking any run.\<close>

inductive path_means :: "bytes list \<Rightarrow> bytes list \<Rightarrow> bool" where
  path_end: "path_means [] []"
| path_seg: "g \<noteq> [star, star] \<Longrightarrow> wild_means g seg \<Longrightarrow> path_means pat path \<Longrightarrow> path_means (g # pat) (seg # path)"
| path_any: "path_means pat path \<Longrightarrow> path_means ([star, star] # pat) (run @ path)"

inductive_simps path_means_simps: "path_means [] path" "path_means (g # pat) path"

lemma path_means_any: "path_means ([star, star] # pat) path \<longleftrightarrow> (\<exists>k \<le> length path. path_means pat (drop k path))"
proof
  assume "path_means ([star, star] # pat) path"
  then obtain run path' where "path = run @ path'" "path_means pat path'"
    by (auto simp: path_means_simps)
  then show "\<exists>k \<le> length path. path_means pat (drop k path)"
    by (intro exI [of _ "length run"]) simp
next
  assume "\<exists>k \<le> length path. path_means pat (drop k path)"
  then obtain k where "path_means pat (drop k path)" by blast
  from path_any [OF this, of "take k path"] show "path_means ([star, star] # pat) path"
    by simp
qed

lemma path_means_seg:
  "g \<noteq> [star, star] \<Longrightarrow> path_means (g # pat) path \<longleftrightarrow>
     path \<noteq> [] \<and> wild_means g (hd path) \<and> path_means pat (tl path)"
  by (cases path) (auto simp: path_means_simps)

lemma match_segs_means: "list_all (\<lambda>seg. star \<notin> set seg) path \<Longrightarrow> match_segs pat path \<longleftrightarrow> path_means pat path"
proof (induction pat arbitrary: path)
  case (Cons g pat)
  have trailing: "path_means [[star, star]] path"
    using path_any [OF path_end, of path] by simp
  have plain: "list_all (\<lambda>seg. star \<notin> set seg) (drop k path)" for k
    using Cons.prems by (auto simp: list_all_iff dest: in_set_dropD)
  show ?case
  proof (cases "g = [star, star]")
    case True
    with trailing show ?thesis
      using path_means_any [of pat path] Cons.IH [OF plain]
      by (auto simp: list_ex_iff less_Suc_eq_le simp del: upt_Suc)
  next
    case False
    show ?thesis
    proof (cases path)
      case (Cons seg rest)
      with \<open>list_all _ path\<close> have "star \<notin> set seg" "list_all (\<lambda>seg. star \<notin> set seg) rest" by auto
      with Cons False Cons.IH show ?thesis
        by (simp add: path_means_seg seg_match_wild wild_means_wild)
    qed (use False in \<open>simp add: path_means_seg\<close>)
  qed
qed (auto simp: path_means_simps)

lemma set_pieces: "seg \<in> set (pieces sep s) \<Longrightarrow> set seg \<subseteq> set s"
proof (induction s arbitrary: seg)
  case (Cons c s)
  obtain p ps where "pieces sep s = p # ps"
    by (cases "pieces sep s") auto
  with Cons.IH [of seg] Cons.IH [of p] Cons.prems show ?case
    by (auto split: if_splits)
qed simp

lemma pieces_plain: "star \<notin> set path \<Longrightarrow> list_all (\<lambda>seg. star \<notin> set seg) (pieces slash path)"
  by (auto simp: list_all_iff dest: set_pieces)

text \<open>What a rule covers, by the header: a directory-only one directories, an anchored one the paths its
  segments line up with, any other one the paths with a segment that is such a name.\<close>

definition covers :: "rule \<Rightarrow> bytes \<Rightarrow> bool \<Rightarrow> bool" where
  "covers r path is_dir \<longleftrightarrow> (r_dir_only r \<longrightarrow> is_dir) \<and>
     (if r_anchored r then path_means (pieces slash (r_pattern r)) (pieces slash path)
      else \<exists>seg \<in> set (pieces slash path). wild_means (r_pattern r) seg)"

section \<open>Rules\<close>

lemma ignore_add_shape:
  "ignore_add raw rules = rules \<or>
   (\<exists>r. ignore_add raw rules = rules @ [r] \<and> r_pattern r \<noteq> [] \<and>
      (r_anchored r \<or> slash \<notin> set (r_pattern r)))"
  by (auto simp: ignore_add_def Let_def)

definition applies :: "rule \<Rightarrow> bytes \<Rightarrow> bool \<Rightarrow> bool" where
  "applies r relpath is_dir \<longleftrightarrow>
     (r_dir_only r \<longrightarrow> is_dir) \<and> glob_match (r_pattern r) relpath (r_anchored r)"

lemma ignore_matches_snoc:
  "ignore_matches (rules @ [r]) relpath is_dir =
     (if applies r relpath is_dir then \<not> r_negate r else ignore_matches rules relpath is_dir)"
  by (simp add: ignore_matches_def applies_def)

lemma ignore_matches_last:
  "ignore_matches rules relpath is_dir =
     (case find (\<lambda>r. applies r relpath is_dir) (rev rules) of None \<Rightarrow> False | Some r \<Rightarrow> \<not> r_negate r)"
proof (induction rules rule: rev_induct)
  case Nil
  then show ?case by (simp add: ignore_matches_def)
next
  case (snoc r rules)
  then show ?case by (simp add: ignore_matches_snoc)
qed

lemma applies_covers: "star \<notin> set path \<Longrightarrow> applies r path is_dir \<longleftrightarrow> covers r path is_dir"
proof -
  assume "star \<notin> set path"
  note plain = pieces_plain [OF this]
  have "seg_match (r_pattern r) seg \<longleftrightarrow> wild_means (r_pattern r) seg" if "seg \<in> set (pieces slash path)" for seg
    using plain that by (auto simp: list_all_iff seg_match_wild wild_means_wild)
  then show ?thesis
    by (auto simp: applies_def covers_def glob_match_def split_pieces match_segs_means [OF plain] list_ex_iff)
qed

lemma find_first: "find P xs = Some x \<longleftrightarrow> (\<exists>as bs. xs = as @ x # bs \<and> P x \<and> (\<forall>y \<in> set as. \<not> P y))"
proof
  assume "find P xs = Some x"
  then obtain bs where rest: "dropWhile (Not \<circ> P) xs = x # bs"
    by (auto simp: find_dropWhile split: list.splits)
  have "xs = takeWhile (Not \<circ> P) xs @ x # bs"
    using takeWhile_dropWhile_id [of "Not \<circ> P" xs] by (simp add: rest)
  moreover have "P x"
    using hd_dropWhile [of "Not \<circ> P" xs] by (simp add: rest)
  moreover have "\<forall>y \<in> set (takeWhile (Not \<circ> P) xs). \<not> P y"
    by (auto dest: set_takeWhileD)
  ultimately show "\<exists>as bs. xs = as @ x # bs \<and> P x \<and> (\<forall>y \<in> set as. \<not> P y)"
    by blast
next
  have "find P (as @ x # bs) = Some x" if "P x" "\<forall>y \<in> set as. \<not> P y" for as bs
    using that by (induction as) auto
  then show "\<exists>as bs. xs = as @ x # bs \<and> P x \<and> (\<forall>y \<in> set as. \<not> P y) \<Longrightarrow> find P xs = Some x"
    by blast
qed

lemma find_last: "find P (rev xs) = Some x \<longleftrightarrow> (\<exists>as bs. xs = as @ x # bs \<and> P x \<and> (\<forall>y \<in> set bs. \<not> P y))"
proof -
  have "rev xs = bs @ x # as \<longleftrightarrow> xs = rev as @ x # rev bs" for as bs
    by (simp add: rev_swap)
  then show ?thesis
    unfolding find_first by (metis rev_rev_ident set_rev)
qed

section \<open>Properties\<close>

text \<open>On a segment without a literal star, the one-backtrack-point loop decides exactly the
  declarative meaning of the pattern: a star is any run, a question mark any one character.\<close>

theorem seg_match_correct:
  assumes "star \<notin> set s"
  shows "seg_match pat s \<longleftrightarrow> wild pat s"
  using assms by (rule seg_match_wild)

theorem seg_match_correct_witness:
  "seg_match (str ''a*b?'') (str ''axxbbc'') \<longleftrightarrow> wild (str ''a*b?'') (str ''axxbbc'')"
  by (rule seg_match_correct) (simp add: str_def)

text \<open>A literal star in the file name defeats it: the code compares characters before it looks
  for a wildcard, so the pattern \<open>*\<close> misses the name \<open>*a\<close>, which it means to cover.\<close>

theorem seg_match_star_name: "wild [star] [star, 97] \<and> \<not> seg_match [star] [star, 97]"
proof -
  have "seg_loop [star] [star, 97] 0 0 None = seg_loop [star] [star, 97] 1 1 None"
    by (subst seg_loop.simps) simp
  also have "\<dots> = False"
    by (subst seg_loop.simps) simp
  finally show ?thesis
    by (simp add: seg_match_def wild_star)
qed

text \<open>C38. Ignore rules mean what \<open>ignore.h\<close> says, for every list of rules and every path whose names hold no
  literal star: a path is excluded exactly when some rule that is not negated covers it and no later rule
  covers it, where a rule covers a path by the relations above, a star taking any run of characters of one
  segment, a question mark any one character, \<open>**\<close> any run of segments.\<close>

theorem ignored_exactly:
  assumes "star \<notin> set path"
  shows "ignore_matches rules path is_dir \<longleftrightarrow>
    (\<exists>before r after. rules = before @ r # after \<and> \<not> r_negate r \<and> covers r path is_dir
       \<and> (\<forall>r' \<in> set after. \<not> covers r' path is_dir))"
proof -
  have "ignore_matches rules path is_dir \<longleftrightarrow> (\<exists>r. find (\<lambda>r. covers r path is_dir) (rev rules) = Some r \<and> \<not> r_negate r)"
    by (simp add: ignore_matches_last applies_covers [OF assms] split: option.split)
  then show ?thesis
    unfolding find_last by blast
qed

text \<open>The rules of a sample file, \<open>*.log\<close> and \<open>!keep.log\<close>: one log is left out, the other kept.\<close>

theorem ignored_exactly_witness:
  "ignore_matches (ignore_add_lines (str ''*.log'' @ [10] @ str ''!keep.log'') []) (str ''d/a.log'') False
    \<and> \<not> ignore_matches (ignore_add_lines (str ''*.log'' @ [10] @ str ''!keep.log'') []) (str ''d/keep.log'') False"
proof -
  let ?log = "\<lparr>r_pattern = str ''*.log'', r_negate = False, r_dir_only = False, r_anchored = False\<rparr>"
  let ?keep = "\<lparr>r_pattern = str ''keep.log'', r_negate = True, r_dir_only = False, r_anchored = False\<rparr>"
  have rules: "ignore_add_lines (str ''*.log'' @ [10] @ str ''!keep.log'') [] = [] @ ?log # [?keep]"
    by code_simp
  have "covers ?log (str ''d/a.log'') False \<and> \<not> covers ?keep (str ''d/a.log'') False \<and> covers ?keep (str ''d/keep.log'') False"
    by (simp add: covers_def wild_means_wild) code_simp
  then show ?thesis
    unfolding rules using ignored_exactly [of "str ''d/a.log''" "[] @ ?log # [?keep]" False]
      ignored_exactly [of "str ''d/keep.log''" "[] @ ?log # [?keep]" False]
    by (fastforce simp: str_def Cons_eq_append_conv)
qed

text \<open>Of the rules that apply to a path the last one decides, a directory-only rule applying to
  directories only; a path no rule applies to is kept.\<close>

theorem ignore_last_rule_wins:
  "ignore_matches rules relpath is_dir =
     (case find (\<lambda>r. applies r relpath is_dir) (rev rules) of None \<Rightarrow> False | Some r \<Rightarrow> \<not> r_negate r)"
  by (rule ignore_matches_last)

end
