(* ===== verification/Scanner.thy ===== *)
theory Scanner
  imports File_Stat Ignore Fs_Path
begin

text \<open>
  \<open>core/scanner.h\<close> / \<open>.cpp\<close>: the walk of a directory tree into a manifest, with the ignore rules, the
  hash cache and the two ways to treat symbolic links. The operating system is the record \<open>os\<close>.
\<close>

section \<open>The operating system\<close>

record dir_entry =
  de_name :: bytes
  de_is_directory :: bool
  de_size :: u64
  de_modified :: i64

text \<open>Directory listing, \<open>lstat\<close>, \<open>stat\<close>, \<open>realpath\<close>, the joining of a root and a relative path, and the
  hash of a file's content (none when it cannot be read).\<close>

record os =
  os_list :: "bytes \<Rightarrow> dir_entry list option"
  os_lstat :: "bytes \<Rightarrow> posix_stat option"
  os_stat :: "bytes \<Rightarrow> posix_stat option"
  os_realpath :: "bytes \<Rightarrow> bytes option"
  os_combine :: "bytes \<Rightarrow> bytes \<Rightarrow> bytes"
  os_hash :: "bytes \<Rightarrow> hash option"

section \<open>One entry\<close>

record entry_probe =
  pb_symlink :: bool
  pb_broken :: bool
  pb_directory :: bool
  pb_size :: u64
  pb_mtime :: i64
  pb_mode :: u32

definition probe_entry :: "os \<Rightarrow> bytes \<Rightarrow> bool \<Rightarrow> entry_probe" where
  "probe_entry os full follow =
     (let p = \<lparr>pb_symlink = False, pb_broken = False, pb_directory = False, pb_size = 0, pb_mtime = 0, pb_mode = 0\<rparr>;
          self = stat_nofollow (os_lstat os) full
      in if \<not> fs_exists self then p
         else
           let p = p\<lparr>pb_symlink := fs_link self\<rparr>
           in if \<not> pb_symlink p then p\<lparr>pb_directory := fs_directory self, pb_mode := fs_mode self\<rparr>
              else if \<not> follow then p
              else
                let target = stat_follow (os_stat os) full
                in if \<not> fs_exists target then p\<lparr>pb_broken := True\<rparr>
                   else p\<lparr>pb_directory := fs_directory target, pb_size := fs_size target,
                          pb_mtime := fs_mtime target, pb_mode := fs_mode target\<rparr>)"

definition join_rel :: "bytes \<Rightarrow> bytes \<Rightarrow> bytes" where
  "join_rel base name = (if base = [] then name else base @ str ''/'' @ name)"

text \<open>Case is only folded on Windows.\<close>

definition canon_key :: "bytes \<Rightarrow> bytes" where
  "canon_key s = s"

text \<open>The chain of resolved directories walked through, innermost first; it is only carried when links are
  followed.\<close>

type_synonym dir_chain = "bytes list"

definition on_path :: "dir_chain \<Rightarrow> bytes \<Rightarrow> bool" where
  "on_path chain candidate \<longleftrightarrow> candidate \<in> set chain"

definition extend_chain :: "dir_chain \<Rightarrow> bytes \<Rightarrow> dir_chain" where
  "extend_chain parent key = key # parent"

section \<open>The walk\<close>

record scan_stats =
  files_seen :: u64
  files_hashed :: u64
  symlinks_skipped :: u64
  symlinks_followed :: u64

record pending =
  pn_rel :: bytes
  pn_chain :: "dir_chain option"

text \<open>The work stack (top first), the manifest so far, the counters.\<close>

record scan_state =
  sc_pending :: "pending list"
  sc_out :: manifest
  sc_stats :: scan_stats

record scanner =
  sn_ignore :: ignore_list
  sn_follow :: bool

definition skip_link :: "scan_state \<Rightarrow> scan_state" where
  "skip_link st = st\<lparr>sc_stats := (sc_stats st)\<lparr>symlinks_skipped := symlinks_skipped (sc_stats st) + 1\<rparr>\<rparr>"

definition follow_link :: "scan_state \<Rightarrow> scan_state" where
  "follow_link st = st\<lparr>sc_stats := (sc_stats st)\<lparr>symlinks_followed := symlinks_followed (sc_stats st) + 1\<rparr>\<rparr>"

definition push :: "pending \<Rightarrow> scan_state \<Rightarrow> scan_state" where
  "push item st = st\<lparr>sc_pending := item # sc_pending st\<rparr>"

definition scan_directory ::
  "os \<Rightarrow> scanner \<Rightarrow> bytes \<Rightarrow> pending \<Rightarrow> dir_entry \<Rightarrow> scan_state \<Rightarrow> scan_state" where
  "scan_directory os sc root item e st =
     (let rel = join_rel (pn_rel item) (de_name e); full = os_combine os root rel
      in if ignore_matches (sn_ignore sc) rel True then st
         else
           let info = probe_entry os full (sn_follow sc)
           in if \<not> pb_symlink info then
                push \<lparr>pn_rel = rel, pn_chain =
                  (if sn_follow sc
                   then map_option (\<lambda>chain. extend_chain chain (canon_key (fs_join (hd chain) (de_name e)))) (pn_chain item)
                   else None)\<rparr> st
              else if \<not> sn_follow sc \<or> pb_broken info \<or> \<not> pb_directory info then skip_link st
              else
                let real = real_path (os_realpath os) full
                in if real = [] \<or> on_path (the (pn_chain item)) (canon_key real) then skip_link st
                   else push \<lparr>pn_rel = rel, pn_chain = Some (extend_chain (the (pn_chain item)) (canon_key real))\<rparr>
                          (follow_link st))"

definition scan_file ::
  "os \<Rightarrow> scanner \<Rightarrow> bytes \<Rightarrow> manifest option \<Rightarrow> pending \<Rightarrow> dir_entry \<Rightarrow> scan_state \<Rightarrow> scan_state" where
  "scan_file os sc root previous item e st =
     (let rel = join_rel (pn_rel item) (de_name e); full = os_combine os root rel
      in if ignore_matches (sn_ignore sc) rel False then st
         else
           let info = probe_entry os full (sn_follow sc)
           in if pb_symlink info \<and> (\<not> sn_follow sc \<or> pb_broken info \<or> pb_directory info) then skip_link st
              else
                let st = (if pb_symlink info then follow_link st else st);
                    st = st\<lparr>sc_stats := (sc_stats st)\<lparr>files_seen := files_seen (sc_stats st) + 1\<rparr>\<rparr>;
                    meta = \<lparr>fm_size = (if pb_symlink info then pb_size info else de_size e),
                      fm_mtime = (if pb_symlink info then pb_mtime info else de_modified e),
                      fm_mode = pb_mode info, fm_hash = replicate 32 0\<rparr>;
                    cached = (case previous of None \<Rightarrow> None
                      | Some m \<Rightarrow> (case man_find m rel of None \<Rightarrow> None
                          | Some prev \<Rightarrow> if fm_size prev = fm_size meta \<and> fm_mtime prev = fm_mtime meta
                                         then Some (fm_hash prev) else None))
                in (case cached of
                      Some h \<Rightarrow> st\<lparr>sc_out := man_set rel (meta\<lparr>fm_hash := h\<rparr>) (sc_out st)\<rparr>
                    | None \<Rightarrow>
                        (case os_hash os full of
                            None \<Rightarrow> st
                          | Some h \<Rightarrow> st\<lparr>sc_stats := (sc_stats st)\<lparr>files_hashed := files_hashed (sc_stats st) + 1\<rparr>,
                              sc_out := man_set rel (meta\<lparr>fm_hash := h\<rparr>) (sc_out st)\<rparr>)))"

definition scan_entry ::
  "os \<Rightarrow> scanner \<Rightarrow> bytes \<Rightarrow> manifest option \<Rightarrow> pending \<Rightarrow> dir_entry \<Rightarrow> scan_state \<Rightarrow> scan_state" where
  "scan_entry os sc root previous item e st =
     (if de_name e = str ''.'' \<or> de_name e = str ''..'' then st
      else if de_is_directory e then scan_directory os sc root item e st
      else scan_file os sc root previous item e st)"

text \<open>One directory: its entries in the order of their names; one that cannot be listed is passed over.\<close>

definition entries_of :: "os \<Rightarrow> bytes \<Rightarrow> pending \<Rightarrow> dir_entry list" where
  "entries_of os root item =
     (case os_list os (if pn_rel item = [] then root else os_combine os root (pn_rel item)) of
        None \<Rightarrow> [] | Some entries \<Rightarrow> sort_key de_name entries)"

definition scan_item ::
  "os \<Rightarrow> scanner \<Rightarrow> bytes \<Rightarrow> manifest option \<Rightarrow> pending \<Rightarrow> scan_state \<Rightarrow> scan_state" where
  "scan_item os sc root previous item st = fold (scan_entry os sc root previous item) (entries_of os root item) st"

text \<open>The loop ends when the stack is empty; whether it does is the file system's doing.\<close>

partial_function (option) scan_loop ::
  "os \<Rightarrow> scanner \<Rightarrow> bytes \<Rightarrow> manifest option \<Rightarrow> scan_state \<Rightarrow> scan_state option" where
  "scan_loop os sc root previous st =
     (case sc_pending st of
        [] \<Rightarrow> Some st
      | item # rest \<Rightarrow> scan_loop os sc root previous (scan_item os sc root previous item (st\<lparr>sc_pending := rest\<rparr>)))"

definition scan_start :: "os \<Rightarrow> scanner \<Rightarrow> bytes \<Rightarrow> pending" where
  "scan_start os sc root =
     \<lparr>pn_rel = [], pn_chain =
       (if sn_follow sc
        then (let real = real_path (os_realpath os) root; real = (if real = [] then root else real)
              in Some (extend_chain [] (canon_key real)))
        else None)\<rparr>"

definition scan_tree ::
  "os \<Rightarrow> scanner \<Rightarrow> bytes \<Rightarrow> manifest option \<Rightarrow> (manifest \<times> scan_stats) option" where
  "scan_tree os sc root previous =
     map_option (\<lambda>st. (sc_out st, sc_stats st))
       (scan_loop os sc root previous
          \<lparr>sc_pending = [scan_start os sc root], sc_out = [],
           sc_stats = \<lparr>files_seen = 0, files_hashed = 0, symlinks_skipped = 0, symlinks_followed = 0\<rparr>\<rparr>)"

section \<open>What one directory contributes\<close>

text \<open>The directory an entry leads to, and the file it stands for, as functions of the file system.\<close>

definition skipped_name :: "bytes \<Rightarrow> bool" where
  "skipped_name n \<longleftrightarrow> n = str ''.'' \<or> n = str ''..''"

abbreviation entry_rel :: "pending \<Rightarrow> dir_entry \<Rightarrow> path" where
  "entry_rel item e \<equiv> join_rel (pn_rel item) (de_name e)"

definition entry_info :: "os \<Rightarrow> scanner \<Rightarrow> bytes \<Rightarrow> pending \<Rightarrow> dir_entry \<Rightarrow> entry_probe" where
  "entry_info os sc root item e = probe_entry os (os_combine os root (entry_rel item e)) (sn_follow sc)"

definition dir_of :: "os \<Rightarrow> scanner \<Rightarrow> bytes \<Rightarrow> pending \<Rightarrow> dir_entry \<Rightarrow> pending option" where
  "dir_of os sc root item e =
     (let info = entry_info os sc root item e;
          real = real_path (os_realpath os) (os_combine os root (entry_rel item e))
      in if ignore_matches (sn_ignore sc) (entry_rel item e) True then None
         else if \<not> pb_symlink info then
           Some \<lparr>pn_rel = entry_rel item e, pn_chain =
             (if sn_follow sc
              then map_option (\<lambda>chain. extend_chain chain (canon_key (fs_join (hd chain) (de_name e)))) (pn_chain item)
              else None)\<rparr>
         else if sn_follow sc \<and> \<not> pb_broken info \<and> pb_directory info \<and> real \<noteq> []
             \<and> \<not> on_path (the (pn_chain item)) (canon_key real)
           then Some \<lparr>pn_rel = entry_rel item e, pn_chain = Some (extend_chain (the (pn_chain item)) (canon_key real))\<rparr>
         else None)"

text \<open>The metadata of a file but for its hash, when the entry counts as one.\<close>

definition file_of :: "os \<Rightarrow> scanner \<Rightarrow> bytes \<Rightarrow> pending \<Rightarrow> dir_entry \<Rightarrow> file_meta option" where
  "file_of os sc root item e =
     (let info = entry_info os sc root item e
      in if ignore_matches (sn_ignore sc) (entry_rel item e) False
           \<or> pb_symlink info \<and> (\<not> sn_follow sc \<or> pb_broken info \<or> pb_directory info) then None
         else Some \<lparr>fm_size = (if pb_symlink info then pb_size info else de_size e),
                fm_mtime = (if pb_symlink info then pb_mtime info else de_modified e),
                fm_mode = pb_mode info, fm_hash = replicate 32 0\<rparr>)"

text \<open>The hash recorded for it: the cached one while size and mtime stand, else the content's.\<close>

definition hash_of :: "os \<Rightarrow> bytes \<Rightarrow> manifest option \<Rightarrow> path \<Rightarrow> file_meta \<Rightarrow> hash option" where
  "hash_of os root previous rel m =
     (case previous of None \<Rightarrow> os_hash os (os_combine os root rel)
      | Some man \<Rightarrow> (case man_find man rel of None \<Rightarrow> os_hash os (os_combine os root rel)
          | Some prev \<Rightarrow> if fm_size prev = fm_size m \<and> fm_mtime prev = fm_mtime m
                         then Some (fm_hash prev) else os_hash os (os_combine os root rel)))"

definition entry_dir :: "os \<Rightarrow> scanner \<Rightarrow> bytes \<Rightarrow> pending \<Rightarrow> dir_entry \<Rightarrow> pending option" where
  "entry_dir os sc root item e =
     (if skipped_name (de_name e) \<or> \<not> de_is_directory e then None else dir_of os sc root item e)"

definition entry_file ::
  "os \<Rightarrow> scanner \<Rightarrow> bytes \<Rightarrow> manifest option \<Rightarrow> pending \<Rightarrow> dir_entry \<Rightarrow> file_meta option" where
  "entry_file os sc root previous item e =
     (if skipped_name (de_name e) \<or> de_is_directory e then None
      else case file_of os sc root item e of None \<Rightarrow> None
        | Some m \<Rightarrow> map_option (\<lambda>h. m\<lparr>fm_hash := h\<rparr>) (hash_of os root previous (entry_rel item e) m))"

lemma link_frame [simp]:
  "sc_pending (skip_link st) = sc_pending st" "sc_out (skip_link st) = sc_out st"
  "sc_pending (follow_link st) = sc_pending st" "sc_out (follow_link st) = sc_out st"
  "sc_pending (push item st) = item # sc_pending st" "sc_out (push item st) = sc_out st"
  by (simp_all add: skip_link_def follow_link_def push_def)

lemma scan_directory_effect:
  "sc_out (scan_directory os sc root item e st) = sc_out st"
  "sc_pending (scan_directory os sc root item e st) =
     (case dir_of os sc root item e of None \<Rightarrow> sc_pending st | Some sub \<Rightarrow> sub # sc_pending st)"
  by (cases "sn_follow sc"; simp add: scan_directory_def dir_of_def entry_info_def Let_def)+

lemma scan_file_effect:
  "sc_pending (scan_file os sc root previous item e st) = sc_pending st"
  "sc_out (scan_file os sc root previous item e st) =
     (case file_of os sc root item e of None \<Rightarrow> sc_out st
      | Some m \<Rightarrow> (case hash_of os root previous (entry_rel item e) m of None \<Rightarrow> sc_out st
          | Some h \<Rightarrow> man_set (entry_rel item e) (m\<lparr>fm_hash := h\<rparr>) (sc_out st)))"
  by (cases "sn_follow sc"; cases "pb_symlink (entry_info os sc root item e)";
      simp add: scan_file_def file_of_def hash_of_def entry_info_def Let_def split: option.split)+

lemma scan_entry_effect:
  "sc_pending (scan_entry os sc root previous item e st) =
     (case entry_dir os sc root item e of None \<Rightarrow> sc_pending st | Some sub \<Rightarrow> sub # sc_pending st)"
  "sc_out (scan_entry os sc root previous item e st) =
     (case entry_file os sc root previous item e of None \<Rightarrow> sc_out st
      | Some m \<Rightarrow> man_set (entry_rel item e) m (sc_out st))"
  by (simp_all add: scan_entry_def entry_dir_def entry_file_def skipped_name_def scan_directory_effect
      scan_file_effect split: option.split)

definition subdirs :: "os \<Rightarrow> scanner \<Rightarrow> bytes \<Rightarrow> pending \<Rightarrow> pending list" where
  "subdirs os sc root item = List.map_filter (entry_dir os sc root item) (rev (entries_of os root item))"

definition files_in :: "os \<Rightarrow> scanner \<Rightarrow> bytes \<Rightarrow> manifest option \<Rightarrow> pending \<Rightarrow> (path \<times> file_meta) list" where
  "files_in os sc root previous item = List.map_filter
     (\<lambda>e. map_option (Pair (entry_rel item e)) (entry_file os sc root previous item e)) (entries_of os root item)"

lemma scan_item_effect:
  "sc_pending (scan_item os sc root previous item st) = subdirs os sc root item @ sc_pending st"
  "sc_out (scan_item os sc root previous item st) =
     fold (\<lambda>(p, m). man_set p m) (files_in os sc root previous item) (sc_out st)"
proof -
  have "sc_pending (fold (scan_entry os sc root previous item) es st) =
      List.map_filter (entry_dir os sc root item) (rev es) @ sc_pending st" for es
    by (induction es arbitrary: st) (simp_all add: scan_entry_effect map_filter_def split: option.split)
  then show "sc_pending (scan_item os sc root previous item st) = subdirs os sc root item @ sc_pending st"
    by (simp add: scan_item_def subdirs_def)
  have "sc_out (fold (scan_entry os sc root previous item) es st) = fold (\<lambda>(p, m). man_set p m)
      (List.map_filter (\<lambda>e. map_option (Pair (entry_rel item e)) (entry_file os sc root previous item e)) es) (sc_out st)" for es
    by (induction es arbitrary: st) (simp_all add: scan_entry_effect map_filter_def split: option.split)
  then show "sc_out (scan_item os sc root previous item st) =
      fold (\<lambda>(p, m). man_set p m) (files_in os sc root previous item) (sc_out st)"
    by (simp add: scan_item_def files_in_def)
qed

section \<open>The directories of a walk\<close>

abbreviation leads_to :: "os \<Rightarrow> scanner \<Rightarrow> bytes \<Rightarrow> pending \<Rightarrow> pending \<Rightarrow> bool" where
  "leads_to os sc root item sub \<equiv> sub \<in> set (subdirs os sc root item)"

definition visited :: "os \<Rightarrow> scanner \<Rightarrow> bytes \<Rightarrow> pending \<Rightarrow> bool" where
  "visited os sc root = (leads_to os sc root)\<^sup>*\<^sup>* (scan_start os sc root)"

lemma visited_start [simp]: "visited os sc root (scan_start os sc root)"
  by (simp add: visited_def)

lemma visited_sub: "visited os sc root item \<Longrightarrow> leads_to os sc root item sub \<Longrightarrow> visited os sc root sub"
  unfolding visited_def by (rule rtranclp.rtrancl_into_rtrancl)

text \<open>What identifies a directory: its resolved path when links are followed, else its relative path.\<close>

definition dir_key :: "pending \<Rightarrow> bytes" where
  "dir_key item = (case pn_chain item of None \<Rightarrow> pn_rel item | Some chain \<Rightarrow> hd chain)"

text \<open>What a file system promises: the names in a listing are non-empty, distinct and hold no separator, and
  there are finitely many directories to walk.\<close>

definition sane_names :: "os \<Rightarrow> bool" where
  "sane_names os \<longleftrightarrow> (\<forall>d es. os_list os d = Some es \<longrightarrow> distinct (map de_name es)
     \<and> (\<forall>e \<in> set es. de_name e \<noteq> [] \<and> slash \<notin> set (de_name e)))"

definition finitely_many_dirs :: "os \<Rightarrow> scanner \<Rightarrow> bytes \<Rightarrow> bool" where
  "finitely_many_dirs os sc root \<longleftrightarrow> finite (dir_key ` Collect (visited os sc root))"

lemma entries_listed:
  assumes "sane_names os"
  shows "distinct (map de_name (entries_of os root item))
    \<and> (\<forall>e \<in> set (entries_of os root item). de_name e \<noteq> [] \<and> slash \<notin> set (de_name e))"
proof (cases "os_list os (if pn_rel item = [] then root else os_combine os root (pn_rel item))")
  case (Some es)
  then have "distinct (map de_name es)" "\<forall>e \<in> set es. de_name e \<noteq> [] \<and> slash \<notin> set (de_name e)"
    using assms unfolding sane_names_def by blast+
  with Some show ?thesis
    by (auto simp: entries_of_def distinct_map)
qed (simp add: entries_of_def)

lemma entries_sane:
  assumes "sane_names os" "e \<in> set (entries_of os root item)"
  shows "de_name e \<noteq> []" "slash \<notin> set (de_name e)"
  using entries_listed [OF assms(1)] assms(2) by blast+

lemma entries_name:
  assumes "sane_names os" "e \<in> set (entries_of os root item)" "f \<in> set (entries_of os root item)" "de_name e = de_name f"
  shows "e = f"
  using entries_listed [OF assms(1), of root item] assms(2-4) by (auto simp: distinct_map dest: inj_onD)

lemma map_filter_set: "y \<in> set (List.map_filter f xs) \<longleftrightarrow> (\<exists>x \<in> set xs. f x = Some y)"
  by (induction xs) (auto simp: map_filter_simps split: option.splits)

lemma subdirs_set: "leads_to os sc root item sub \<longleftrightarrow>
    (\<exists>e \<in> set (entries_of os root item). entry_dir os sc root item e = Some sub)"
  by (simp add: subdirs_def map_filter_set)

lemma files_in_set: "(p, m) \<in> set (files_in os sc root previous item) \<longleftrightarrow>
    (\<exists>e \<in> set (entries_of os root item). p = entry_rel item e \<and> entry_file os sc root previous item e = Some m)"
  by (auto simp: files_in_def map_filter_set)

text \<open>Every directory below another is longer by its name, or is reached by a link to a directory not yet on
  the way.\<close>

lemma join_rel_longer: "n \<noteq> [] \<Longrightarrow> length b < length (join_rel b n)"
  by (simp add: join_rel_def str_def)

lemma fs_join_longer: "n \<noteq> [] \<Longrightarrow> slash \<notin> set n \<Longrightarrow> length b < length (fs_join b n)"
  by (cases n) (auto simp: fs_join_def)

lemma leads_to_cases:
  assumes "sane_names os" "leads_to os sc root item sub"
  obtains (rel) "\<not> sn_follow sc" "pn_chain sub = None" "length (pn_rel item) < length (pn_rel sub)"
  | (plain) "sn_follow sc" "\<And>chain. pn_chain item = Some chain \<Longrightarrow>
        \<exists>key. pn_chain sub = Some (key # chain) \<and> length (hd chain) < length key"
  | (link) key where "sn_follow sc" "pn_chain sub = Some (key # the (pn_chain item))" "key \<notin> set (the (pn_chain item))"
proof -
  obtain e where e: "e \<in> set (entries_of os root item)" "entry_dir os sc root item e = Some sub"
    using assms(2) by (auto simp: subdirs_set)
  note name = entries_sane [OF assms(1) e(1)]
  have dir: "dir_of os sc root item e = Some sub"
    using e(2) by (simp add: entry_dir_def split: if_splits)
  show thesis
  proof (cases "sn_follow sc")
    case False
    then have "pn_chain sub = None" "pn_rel sub = entry_rel item e"
      using dir by (auto simp: dir_of_def Let_def split: if_splits)
    with False rel join_rel_longer [OF name(1)] show thesis by simp
  next
    case True
    then consider "pn_chain sub = map_option (\<lambda>chain. canon_key (fs_join (hd chain) (de_name e)) # chain) (pn_chain item)"
      | key where "pn_chain sub = Some (key # the (pn_chain item))" "key \<notin> set (the (pn_chain item))"
      using dir by (auto simp: dir_of_def Let_def on_path_def extend_chain_def split: if_splits)
    then show thesis
      using True plain link fs_join_longer [OF name] by cases (simp_all add: canon_key_def)
  qed
qed

lemma visited_chain:
  assumes "sane_names os" "visited os sc root item"
  shows "if sn_follow sc then \<exists>key chain. pn_chain item = Some (key # chain) else pn_chain item = None"
  using assms(2) unfolding visited_def
proof (induction rule: rtranclp_induct)
  case base
  then show ?case by (simp add: scan_start_def extend_chain_def Let_def)
next
  case (step item sub)
  from assms(1) step(2) show ?case
    by (cases rule: leads_to_cases) (use step(3) in auto)
qed

definition walk_measure :: "os \<Rightarrow> scanner \<Rightarrow> bytes \<Rightarrow> pending \<Rightarrow> nat \<times> nat" where
  "walk_measure os sc root item =
     (let K = dir_key ` Collect (visited os sc root)
      in (card (K - set (case pn_chain item of None \<Rightarrow> [] | Some chain \<Rightarrow> chain)),
          Max (length ` K) - length (dir_key item)))"

lemma walk_measure_less:
  assumes sane: "sane_names os" and fin: "finitely_many_dirs os sc root"
    and item: "visited os sc root item" and sub: "leads_to os sc root item sub"
  shows "(walk_measure os sc root sub, walk_measure os sc root item) \<in> less_than <*lex*> less_than"
proof -
  let ?K = "dir_key ` Collect (visited os sc root)"
  have K: "finite ?K" "dir_key sub \<in> ?K"
    using fin visited_sub [OF item sub] by (auto simp: finitely_many_dirs_def)
  then have max: "length (dir_key sub) \<le> Max (length ` ?K)"
    by simp
  note shape = visited_chain [OF sane item]
  from sane sub show ?thesis
  proof (cases rule: leads_to_cases)
    case rel
    then have "pn_chain item = None" using shape by simp
    with rel max show ?thesis
      by (simp add: walk_measure_def Let_def dir_key_def)
  next
    case plain
    then obtain key chain where chain: "pn_chain item = Some chain" "pn_chain sub = Some (key # chain)"
      "length (hd chain) < length key"
      using shape by auto
    have "card (?K - insert key (set chain)) \<le> card (?K - set chain)"
      by (rule card_mono) (use K(1) in auto)
    with chain max show ?thesis
      by (auto simp: walk_measure_def Let_def dir_key_def)
  next
    case (link key)
    then obtain chain where chain: "pn_chain item = Some chain" "pn_chain sub = Some (key # chain)" "key \<notin> set chain"
      using shape by auto
    have "?K - insert key (set chain) \<subset> ?K - set chain"
      using K(2) chain by (auto simp: dir_key_def)
    then have "card (?K - insert key (set chain)) < card (?K - set chain)"
      using K(1) by (intro psubset_card_mono) auto
    with chain show ?thesis
      by (simp add: walk_measure_def Let_def)
  qed
qed

section \<open>The loop walks them all\<close>

abbreviation set_files :: "(path \<times> file_meta) list \<Rightarrow> manifest \<Rightarrow> manifest" where
  "set_files fs m \<equiv> fold (\<lambda>(p, m). man_set p m) fs m"

text \<open>Working off the given stack items adds the given files.\<close>

definition walks :: "os \<Rightarrow> scanner \<Rightarrow> bytes \<Rightarrow> manifest option \<Rightarrow> pending list \<Rightarrow> (path \<times> file_meta) list \<Rightarrow> bool" where
  "walks os sc root previous items fs \<longleftrightarrow>
     (\<forall>rest st. sc_pending st = items @ rest \<longrightarrow>
        (\<exists>st'. scan_loop os sc root previous st = scan_loop os sc root previous st'
           \<and> sc_pending st' = rest \<and> sc_out st' = set_files fs (sc_out st)))"

lemma walks_nil: "walks os sc root previous [] []"
  by (auto simp: walks_def)

lemma walksE:
  assumes "walks os sc root previous items fs" "sc_pending st = items @ rest"
  obtains st' where "scan_loop os sc root previous st = scan_loop os sc root previous st'"
    "sc_pending st' = rest" "sc_out st' = set_files fs (sc_out st)"
  using assms unfolding walks_def by blast

lemma walks_append:
  assumes "walks os sc root previous xs fs" "walks os sc root previous ys gs"
  shows "walks os sc root previous (xs @ ys) (fs @ gs)"
  unfolding walks_def
proof (intro allI impI)
  fix rest and st :: scan_state
  assume "sc_pending st = (xs @ ys) @ rest"
  then have "sc_pending st = xs @ ys @ rest" by simp
  from walksE [OF assms(1) this] obtain st1 where 1: "scan_loop os sc root previous st = scan_loop os sc root previous st1"
    "sc_pending st1 = ys @ rest" "sc_out st1 = set_files fs (sc_out st)" .
  from walksE [OF assms(2) 1(2)] obtain st2 where 2: "scan_loop os sc root previous st1 = scan_loop os sc root previous st2"
    "sc_pending st2 = rest" "sc_out st2 = set_files gs (sc_out st1)" .
  show "\<exists>st'. scan_loop os sc root previous st = scan_loop os sc root previous st'
      \<and> sc_pending st' = rest \<and> sc_out st' = set_files (fs @ gs) (sc_out st)"
    using 1(1,3) 2 by (intro exI [of _ st2]) simp
qed

lemma walks_item:
  assumes "walks os sc root previous (subdirs os sc root item) gs"
  shows "walks os sc root previous [item] (files_in os sc root previous item @ gs)"
  unfolding walks_def
proof (intro allI impI)
  fix rest and st :: scan_state
  assume "sc_pending st = [item] @ rest"
  then have step: "scan_loop os sc root previous st =
      scan_loop os sc root previous (scan_item os sc root previous item (st\<lparr>sc_pending := rest\<rparr>))"
    by (subst scan_loop.simps) simp
  have "sc_pending (scan_item os sc root previous item (st\<lparr>sc_pending := rest\<rparr>)) = subdirs os sc root item @ rest"
    by (simp add: scan_item_effect(1))
  from walksE [OF assms this] obtain st' where
    "scan_loop os sc root previous (scan_item os sc root previous item (st\<lparr>sc_pending := rest\<rparr>))
      = scan_loop os sc root previous st'" "sc_pending st' = rest"
    "sc_out st' = set_files gs (sc_out (scan_item os sc root previous item (st\<lparr>sc_pending := rest\<rparr>)))" .
  with step show "\<exists>st'. scan_loop os sc root previous st = scan_loop os sc root previous st'
      \<and> sc_pending st' = rest \<and> sc_out st' = set_files (files_in os sc root previous item @ gs) (sc_out st)"
    by (intro exI [of _ st']) (simp add: scan_item_effect(2))
qed

text \<open>The files of the directories below an item, itself included.\<close>

definition below :: "os \<Rightarrow> scanner \<Rightarrow> bytes \<Rightarrow> manifest option \<Rightarrow> pending \<Rightarrow> (path \<times> file_meta) set" where
  "below os sc root previous item =
     {f. \<exists>v. (leads_to os sc root)\<^sup>*\<^sup>* item v \<and> f \<in> set (files_in os sc root previous v)}"

lemma below_unfold: "below os sc root previous item =
    set (files_in os sc root previous item) \<union> (\<Union>sub \<in> set (subdirs os sc root item). below os sc root previous sub)"
proof -
  have "(leads_to os sc root)\<^sup>*\<^sup>* item v \<longleftrightarrow> v = item \<or> (\<exists>sub \<in> set (subdirs os sc root item). (leads_to os sc root)\<^sup>*\<^sup>* sub v)" for v
    by (auto elim: converse_rtranclpE intro: converse_rtranclp_into_rtranclp)
  then show ?thesis
    by (auto simp: below_def)
qed

lemma loop_walks:
  assumes sane: "sane_names os" and fin: "finitely_many_dirs os sc root" and item: "visited os sc root item"
  shows "\<exists>fs. set fs = below os sc root previous item \<and> walks os sc root previous [item] fs"
proof -
  have "wf (inv_image (less_than <*lex*> less_than) (walk_measure os sc root))"
    by (simp add: wf_lex_prod)
  then show ?thesis
    using item
  proof (induction item rule: wf_induct_rule)
    case (less item)
    have "\<exists>gs. set gs = (\<Union>sub \<in> set items. below os sc root previous sub) \<and> walks os sc root previous items gs"
      if "set items \<subseteq> set (subdirs os sc root item)" for items
      using that
    proof (induction items)
      case (Cons sub items)
      then obtain gs where gs: "set gs = (\<Union>sub \<in> set items. below os sc root previous sub)"
        "walks os sc root previous items gs" by auto
      obtain fs where fs: "set fs = below os sc root previous sub" "walks os sc root previous [sub] fs"
        using less.IH [of sub] Cons.prems walk_measure_less [OF sane fin less.prems, of sub] visited_sub [OF less.prems, of sub]
        by auto
      show ?case
        using walks_append [OF fs(2) gs(2)] fs(1) gs(1) by (intro exI [of _ "fs @ gs"]) simp
    qed (auto intro: walks_nil)
    from this [OF order_refl] obtain gs where "set gs = (\<Union>sub \<in> set (subdirs os sc root item). below os sc root previous sub)"
      "walks os sc root previous (subdirs os sc root item) gs" by blast
    then show ?case
      using walks_item [of os sc root previous item gs] below_unfold [of os sc root previous item]
      by (intro exI [of _ "files_in os sc root previous item @ gs"]) auto
  qed
qed

text \<open>A path names one file: its directory part fixes the listing, its last part the entry.\<close>

lemma cut_at_slash:
  assumes "slash \<notin> set xs"
  shows "takeWhile (\<lambda>c. c \<noteq> slash) (xs @ slash # ys) = xs" "dropWhile (\<lambda>c. c \<noteq> slash) (xs @ slash # ys) = slash # ys"
    "takeWhile (\<lambda>c. c \<noteq> slash) xs = xs" "dropWhile (\<lambda>c. c \<noteq> slash) xs = []"
  using assms by (induction xs) auto

lemma join_rel_inject:
  assumes "n \<noteq> []" "slash \<notin> set n" "n' \<noteq> []" "slash \<notin> set n'" "join_rel b n = join_rel b' n'"
  shows "b = b' \<and> n = n'"
proof -
  have cut: "takeWhile (\<lambda>c. c \<noteq> slash) (rev (join_rel c m)) = rev m \<and>
      dropWhile (\<lambda>c. c \<noteq> slash) (rev (join_rel c m)) = (if c = [] then [] else slash # rev c)"
    if "slash \<notin> set m" for c m
  proof -
    have rev: "rev (join_rel c m) = rev m @ (if c = [] then [] else slash # rev c)"
      by (simp add: join_rel_def str_def)
    have "slash \<notin> set (rev m)" using that by simp
    from cut_at_slash [OF this] show ?thesis
      unfolding rev by simp
  qed
  note c = cut [OF assms(2), of b] cut [OF assms(4), of b']
  have "rev n = rev n'"
    using c [THEN conjunct1] unfolding assms(5) by simp
  moreover have "(if b = [] then [] else slash # rev b) = (if b' = [] then [] else slash # rev b')"
    using c [THEN conjunct2] unfolding assms(5) by simp
  ultimately show ?thesis
    by (auto split: if_splits)
qed

lemma entry_file_rel:
  assumes "pn_rel v = pn_rel w"
  shows "entry_file os sc root previous v e = entry_file os sc root previous w e"
  unfolding entry_file_def file_of_def entry_info_def assms by (rule refl)

lemma entry_at:
  assumes sane: "sane_names os" and "e \<in> set (entries_of os root v)" "f \<in> set (entries_of os root w)"
    and "entry_rel v e = entry_rel w f"
  shows "pn_rel v = pn_rel w \<and> e = f"
proof -
  from join_rel_inject [OF entries_sane [OF sane assms(2)] entries_sane [OF sane assms(3)] assms(4)]
  have same: "pn_rel v = pn_rel w" "de_name e = de_name f" by simp_all
  then have "entries_of os root v = entries_of os root w"
    by (simp add: entries_of_def)
  then show ?thesis
    using entries_name [OF sane, of e root w f] assms(2,3) same by simp
qed

lemma files_in_functional:
  assumes sane: "sane_names os"
    and "(p, m) \<in> set (files_in os sc root previous v)" "(p, m') \<in> set (files_in os sc root previous w)"
  shows "m = m'"
proof -
  obtain e f where ef: "e \<in> set (entries_of os root v)" "p = entry_rel v e" "entry_file os sc root previous v e = Some m"
    "f \<in> set (entries_of os root w)" "p = entry_rel w f" "entry_file os sc root previous w f = Some m'"
    using assms(2,3) by (auto simp: files_in_set)
  have "pn_rel v = pn_rel w \<and> e = f"
    by (rule entry_at [OF sane ef(1,4)]) (use ef in simp)
  then show ?thesis
    using ef(3,6) entry_file_rel [of v w] by simp
qed

lemma find_set_files:
  assumes "\<And>p x y. (p, x) \<in> set fs \<Longrightarrow> (p, y) \<in> set fs \<Longrightarrow> x = y"
  shows "om_inv (set_files fs [])" "om_find (set_files fs []) p = Some x \<longleftrightarrow> (p, x) \<in> set fs"
proof -
  have fold: "set_files fs [] = fold (\<lambda>e. om_assign (fst e) (snd e)) fs []"
    by (rule arg_cong [where f = "\<lambda>f. fold f fs []"], intro ext) (simp add: man_set_def case_prod_beta)
  show "om_inv (set_files fs [])"
    unfolding fold by (rule om.inv_assign_all) simp
  have "om_find (set_files fs []) = map_of (rev fs)"
    unfolding fold by (simp add: om.find_assign_all om.find_empty)
  moreover have "map_of (rev fs) p = Some x \<longleftrightarrow> (p, x) \<in> set fs"
  proof
    assume x: "(p, x) \<in> set fs"
    then obtain y where "map_of (rev fs) p = Some y"
      by (metis map_of_eq_None_iff fst_conv image_eqI not_None_eq set_rev)
    moreover from this have "(p, y) \<in> set fs"
      using map_of_SomeD by force
    ultimately show "map_of (rev fs) p = Some x"
      using assms x by metis
  qed (use map_of_SomeD in force)
  ultimately show "om_find (set_files fs []) p = Some x \<longleftrightarrow> (p, x) \<in> set fs"
    by simp
qed

lemma scan_tree_result:
  assumes sane: "sane_names os" and fin: "finitely_many_dirs os sc root"
  shows "\<exists>out stats. scan_tree os sc root previous = Some (out, stats) \<and> om_inv out
    \<and> (\<forall>p m. man_find out p = Some m \<longleftrightarrow>
        (\<exists>v. visited os sc root v \<and> (p, m) \<in> set (files_in os sc root previous v)))"
proof -
  let ?st = "\<lparr>sc_pending = [scan_start os sc root], sc_out = [],
      sc_stats = \<lparr>files_seen = 0, files_hashed = 0, symlinks_skipped = 0, symlinks_followed = 0\<rparr>\<rparr>"
  obtain fs where fs: "set fs = below os sc root previous (scan_start os sc root)"
    "walks os sc root previous [scan_start os sc root] fs"
    using loop_walks [OF sane fin visited_start] by blast
  obtain st' where st': "scan_loop os sc root previous ?st = scan_loop os sc root previous st'"
    "sc_pending st' = []" "sc_out st' = set_files fs []"
    using fs(2) [unfolded walks_def, rule_format, of ?st "[]"] by auto
  have "scan_loop os sc root previous st' = Some st'"
    using st'(2) by (subst scan_loop.simps) simp
  then have "scan_tree os sc root previous = Some (set_files fs [], sc_stats st')"
    using st' by (simp add: scan_tree_def)
  moreover have "\<And>p x y. (p, x) \<in> set fs \<Longrightarrow> (p, y) \<in> set fs \<Longrightarrow> x = y"
    unfolding fs(1) below_def using files_in_functional [OF sane] by blast
  ultimately show ?thesis
    using find_set_files [of fs] fs(1) by (auto simp: below_def visited_def man_find_def)
qed

text \<open>A root that holds a file and a link back to the root itself, followed.\<close>

definition cyclic_os :: os where
  "cyclic_os = \<lparr>os_list = (\<lambda>d. if d = [114] then Some
       [\<lparr>de_name = [108], de_is_directory = True, de_size = 0, de_modified = 0\<rparr>,
        \<lparr>de_name = [97], de_is_directory = False, de_size = 3, de_modified = 5\<rparr>] else None),
     os_lstat = (\<lambda>p. Some \<lparr>st_link = p = [114, 47, 108], st_dir = False, st_exec = False, st_size = 3, st_mtime = 5\<rparr>),
     os_stat = (\<lambda>p. Some \<lparr>st_link = False, st_dir = True, st_exec = True, st_size = 0, st_mtime = 1\<rparr>),
     os_realpath = (\<lambda>p. Some [114]), os_combine = (\<lambda>r p. r @ [47] @ p), os_hash = (\<lambda>p. Some (replicate 32 1))\<rparr>"

definition follower :: scanner where
  "follower = \<lparr>sn_ignore = [], sn_follow = True\<rparr>"

lemma follower_follows [simp]: "sn_follow follower"
  by (simp add: follower_def)

lemma cyclic_start: "sn_follow sc \<Longrightarrow> scan_start cyclic_os sc [114] = \<lparr>pn_rel = [], pn_chain = Some [[114]]\<rparr>"
  by (simp add: scan_start_def cyclic_os_def real_path_def extend_chain_def canon_key_def)

lemma cyclic_entries: "entries_of cyclic_os [114] \<lparr>pn_rel = [], pn_chain = Some [[114]]\<rparr> =
   [\<lparr>de_name = [97], de_is_directory = False, de_size = 3, de_modified = 5\<rparr>,
    \<lparr>de_name = [108], de_is_directory = True, de_size = 0, de_modified = 0\<rparr>]"
  by (simp add: entries_of_def cyclic_os_def)

lemma cyclic_sane: "sane_names cyclic_os"
  by (simp add: sane_names_def cyclic_os_def)

lemma cyclic_visited:
  assumes "sn_follow sc"
  shows "visited cyclic_os sc [114] v \<longleftrightarrow> v = \<lparr>pn_rel = [], pn_chain = Some [[114]]\<rparr>"
proof -
  have "subdirs cyclic_os sc [114] \<lparr>pn_rel = [], pn_chain = Some [[114]]\<rparr> = []"
    unfolding subdirs_def cyclic_entries using assms
    by (cases "ignore_matches (sn_ignore sc) [108] True") (simp_all add: map_filter_simps entry_dir_def skipped_name_def str_def dir_of_def entry_info_def probe_entry_def
        cyclic_os_def join_rel_def stat_follow_def real_path_def on_path_def canon_key_def no_stat_def)
  then show ?thesis
    unfolding visited_def cyclic_start [OF assms] by (auto elim: converse_rtranclpE)
qed

lemma cyclic_finite:
  assumes "sn_follow sc"
  shows "finitely_many_dirs cyclic_os sc [114]"
proof -
  have "Collect (visited cyclic_os sc [114]) = {\<lparr>pn_rel = [], pn_chain = Some [[114]]\<rparr>}"
    by (auto simp: cyclic_visited [OF assms])
  then show ?thesis by (simp add: finitely_many_dirs_def)
qed

lemma cyclic_file: "entry_file cyclic_os follower [114] None \<lparr>pn_rel = [], pn_chain = Some [[114]]\<rparr>
    \<lparr>de_name = [97], de_is_directory = False, de_size = 3, de_modified = 5\<rparr> =
  Some \<lparr>fm_size = 3, fm_mtime = 5, fm_mode = 0, fm_hash = replicate 32 1\<rparr>"
  by (simp add: entry_file_def skipped_name_def str_def file_of_def entry_info_def probe_entry_def follower_def
      cyclic_os_def join_rel_def ignore_matches_def hash_of_def stat_nofollow_def no_stat_def)

section \<open>Property\<close>

text \<open>C10. Scanning ends and finds exactly the files there are: on a file system with sane names and finitely
  many directories to tell apart, whatever links point back into the tree, the walk returns a manifest
  that has an entry at a path just if a directory reached from the root lists a file there that is not
  ignored (nor a link that is not followed, is broken or leads to a directory) and that can be hashed;
  the entry is that file's.\<close>

theorem scan_exact:
  assumes "sane_names os" "finitely_many_dirs os sc root"
  shows "\<exists>out stats. scan_tree os sc root previous = Some (out, stats) \<and> om_inv out
    \<and> (\<forall>p m. man_find out p = Some m \<longleftrightarrow> (\<exists>v e. visited os sc root v \<and> e \<in> set (entries_of os root v)
          \<and> p = entry_rel v e \<and> entry_file os sc root previous v e = Some m))"
  using scan_tree_result [OF assms, of previous] by (simp only: files_in_set Bex_def) blast

theorem scan_exact_witness:
  "\<exists>out stats. scan_tree cyclic_os follower [114] None = Some (out, stats)
    \<and> man_find out [97] = Some \<lparr>fm_size = 3, fm_mtime = 5, fm_mode = 0, fm_hash = replicate 32 1\<rparr>
    \<and> man_find out [108] = None"
proof -
  obtain out stats where "scan_tree cyclic_os follower [114] None = Some (out, stats)"
    and find: "\<And>p m. man_find out p = Some m \<longleftrightarrow> (\<exists>v e. visited cyclic_os follower [114] v
        \<and> e \<in> set (entries_of cyclic_os [114] v) \<and> p = entry_rel v e
        \<and> entry_file cyclic_os follower [114] None v e = Some m)"
    using scan_exact [OF cyclic_sane cyclic_finite [OF follower_follows], of None] by blast
  moreover have at: "man_find out p = Some m \<longleftrightarrow> (\<exists>e \<in> set (entries_of cyclic_os [114] \<lparr>pn_rel = [], pn_chain = Some [[114]]\<rparr>).
      p = entry_rel \<lparr>pn_rel = [], pn_chain = Some [[114]]\<rparr> e
      \<and> entry_file cyclic_os follower [114] None \<lparr>pn_rel = [], pn_chain = Some [[114]]\<rparr> e = Some m)" for p m
    by (simp add: find cyclic_visited Bex_def)
  have "entry_file cyclic_os follower [114] None v e = None" if "de_is_directory e" for v e
    using that by (simp add: entry_file_def)
  then have "man_find out [97] = Some \<lparr>fm_size = 3, fm_mtime = 5, fm_mode = 0, fm_hash = replicate 32 1\<rparr>"
    "\<And>m. man_find out [108] \<noteq> Some m"
    using at by (simp_all add: cyclic_entries cyclic_file join_rel_def)
  ultimately show ?thesis
    by (metis not_None_eq)
qed

end
