(* ===== verification/Dial_Retry.thy ===== *)
theory Dial_Retry
  imports Main
begin

text \<open>
  \<open>app/dial_retry.h\<close>: when the watch loop dials the \<open>--peer\<close> addresses again. Delays are milliseconds,
  points in time nanoseconds of the steady clock.
\<close>

section \<open>The policy\<close>

record dial_retry =
  dr_first :: int
  dr_cap :: int
  dr_delay :: int
  dr_next :: int
  dr_armed :: bool

definition new_dial_retry :: "int \<Rightarrow> int \<Rightarrow> dial_retry" where
  "new_dial_retry first cap = \<lparr>dr_first = first, dr_cap = cap, dr_delay = first, dr_next = 0, dr_armed = False\<rparr>"

abbreviation nanos :: "int \<Rightarrow> int" where
  "nanos ms \<equiv> ms * 1000000"

definition due :: "int \<Rightarrow> int \<Rightarrow> dial_retry \<Rightarrow> bool \<times> dial_retry" where
  "due now connected r =
     (if connected > 0 then (False, r\<lparr>dr_armed := False, dr_delay := dr_first r\<rparr>)
      else if \<not> dr_armed r then (False, r\<lparr>dr_armed := True, dr_next := now + nanos (dr_delay r)\<rparr>)
      else if now < dr_next r then (False, r)
      else
        let r = r\<lparr>dr_delay := (if dr_delay r * 2 > dr_cap r then dr_cap r else dr_delay r * 2)\<rparr>
        in (True, r\<lparr>dr_next := now + nanos (dr_delay r)\<rparr>))"

text \<open>The dials of a run of the watch loop: each tick has the time and the number of peers.\<close>

fun dials :: "(int \<times> int) list \<Rightarrow> dial_retry \<Rightarrow> int list" where
  "dials [] r = []"
| "dials ((now, connected) # ticks) r =
     (let (dial, r) = due now connected r in (if dial then [now] else []) @ dials ticks r)"

section \<open>One outage\<close>

text \<open>The wait before dial number \<open>k\<close> (from 0) of an outage.\<close>

definition backoff :: "dial_retry \<Rightarrow> nat \<Rightarrow> int" where
  "backoff r k = min (dr_cap r) (dr_first r * 2 ^ k)"

text \<open>Waiting for dial number \<open>k\<close>, not before the given time.\<close>

definition waiting :: "dial_retry \<Rightarrow> nat \<Rightarrow> int \<Rightarrow> dial_retry" where
  "waiting r k bound = r\<lparr>dr_armed := True, dr_delay := backoff r k, dr_next := bound\<rparr>"

lemma backoff_Suc:
  assumes "0 < dr_first r" "dr_first r \<le> dr_cap r"
  shows "backoff r (Suc k) = (if backoff r k * 2 > dr_cap r then dr_cap r else backoff r k * 2)"
  using assms by (auto simp: backoff_def min_def mult.commute mult.left_commute)

lemma due_waiting:
  assumes "0 < dr_first r" "dr_first r \<le> dr_cap r" "connected \<le> 0"
  shows "due now connected (waiting r k bound) =
    (if now < bound then (False, waiting r k bound)
     else (True, waiting r (Suc k) (now + nanos (backoff r (Suc k)))))"
  using assms backoff_Suc [OF assms(1,2), of k] by (simp add: due_def waiting_def Let_def)

text \<open>The dials at a list of tick times: each is the first tick at or after its bound, which lies the next wait
  after the dial before; no tick at or after the last bound is left.\<close>

fun paced :: "dial_retry \<Rightarrow> nat \<Rightarrow> int \<Rightarrow> int list \<Rightarrow> int list \<Rightarrow> bool" where
  "paced r k bound ticks [] \<longleftrightarrow> (\<forall>t \<in> set ticks. t < bound)"
| "paced r k bound ticks (d # ds) \<longleftrightarrow> d \<in> set ticks \<and> bound \<le> d \<and> (\<forall>t \<in> set ticks. bound \<le> t \<longrightarrow> d \<le> t)
     \<and> paced r (Suc k) (d + nanos (backoff r (Suc k))) (filter (\<lambda>t. d < t) ticks) ds"

lemma paced_skip: "t < bound \<Longrightarrow> \<forall>u \<in> set ticks. t < u \<Longrightarrow> paced r k bound ticks ds \<Longrightarrow> paced r k bound (t # ticks) ds"
  by (cases ds) auto

lemma dials_paced:
  assumes r: "0 < dr_first r" "dr_first r \<le> dr_cap r"
    and "\<forall>(t, n) \<in> set ticks. n \<le> 0" "sorted_wrt (<) (map fst ticks)"
  shows "paced r k bound (map fst ticks) (dials ticks (waiting r k bound))"
  using assms(3,4)
proof (induction ticks arbitrary: k bound)
  case (Cons tick ticks)
  obtain now n where tick: "tick = (now, n)" "n \<le> 0"
    using Cons.prems(1) by (cases tick) auto
  have rest: "\<forall>(t, n) \<in> set ticks. n \<le> 0" "sorted_wrt (<) (map fst ticks)" "\<forall>t \<in> set (map fst ticks). now < t"
    using Cons.prems tick by auto
  note step = due_waiting [OF r tick(2), of now k bound]
  show ?case
  proof (cases "now < bound")
    case True
    with step paced_skip [OF True rest(3) Cons.IH [OF rest(1,2)]] show ?thesis
      by (simp add: tick)
  next
    case False
    have "filter (\<lambda>t. now < t) (map fst ticks) = map fst ticks"
      using rest(3) by (simp add: filter_id_conv)
    with False step rest(3) Cons.IH [OF rest(1,2), of "Suc k" "now + nanos (backoff r (Suc k))"] show ?thesis
      by (auto simp: tick less_imp_le)
  qed
qed simp

lemma paced_gaps:
  assumes "paced r k bound ticks ds"
  shows "(\<forall>d \<in> set ds. d \<in> set ticks) \<and> (\<forall>i. Suc i < length ds \<longrightarrow> nanos (backoff r (Suc (k + i))) \<le> ds ! Suc i - ds ! i)"
  using assms
proof (induction ds arbitrary: k bound ticks)
  case (Cons d ds)
  let ?ts = "filter (\<lambda>t. d < t) ticks"
  have p: "paced r (Suc k) (d + nanos (backoff r (Suc k))) ?ts ds"
    using Cons.prems by simp
  have first: "nanos (backoff r (Suc k)) \<le> hd ds - d" if "ds \<noteq> []"
    using p that by (cases ds) auto
  show ?case
  proof (intro conjI allI impI)
    show "\<forall>x \<in> set (d # ds). x \<in> set ticks"
      using Cons.IH [OF p] Cons.prems by auto
  next
    fix i
    assume "Suc i < length (d # ds)"
    then show "nanos (backoff r (Suc (k + i))) \<le> (d # ds) ! Suc i - (d # ds) ! i"
      using first Cons.IH [OF p] by (cases i) (auto simp: hd_conv_nth)
  qed
qed simp

section \<open>Property\<close>

text \<open>C33. While nobody is connected the addresses are dialled at the documented pace: after the loss the first
  dial is the first tick at least \<open>first\<close> later, every further one is the first tick at least twice the
  previous wait later, up to \<open>cap\<close>, and none is left out. So two dials of an outage are never closer than
  the backoff, and a tick on which somebody is connected never dials and starts over.\<close>

theorem dial_backoff:
  assumes "0 < first" "first \<le> cap" "up > 0" "lost \<le> 0"
    and "\<forall>(t, n) \<in> set ticks. n \<le> 0" "sorted_wrt (<) (map fst ticks)"
    and "dr_first r = first" "dr_cap r = cap" "ds = dials ((t0, up) # (t1, lost) # ticks) r"
  shows "paced r 0 (t1 + nanos first) (map fst ticks) ds
    \<and> (\<forall>i. Suc i < length ds \<longrightarrow> nanos (min cap (first * 2 ^ Suc i)) \<le> ds ! Suc i - ds ! i)"
proof -
  have "due t1 lost (r\<lparr>dr_armed := False, dr_delay := dr_first r\<rparr>) = (False, waiting r 0 (t1 + nanos first))"
    using assms by (simp add: due_def waiting_def backoff_def)
  moreover have "due t0 up r = (False, r\<lparr>dr_armed := False, dr_delay := dr_first r\<rparr>)"
    using assms(3) by (simp add: due_def)
  ultimately have "ds = dials ticks (waiting r 0 (t1 + nanos first))"
    by (simp add: assms(9))
  then have p: "paced r 0 (t1 + nanos first) (map fst ticks) ds"
    using dials_paced [of r ticks 0 "t1 + nanos first"] assms by simp
  with paced_gaps [OF p] show ?thesis
    by (simp add: backoff_def assms(7,8))
qed

theorem dial_backoff_witness:
  "dials [(0, 1), (1, 0), (8000000001, 0), (20000000000, 0), (24000000001, 0)] (new_dial_retry 8000 120000) =
     [8000000001, 24000000001] \<and> 16000000000 \<le> (24000000001 :: int) - 8000000001"
proof -
  let ?ticks = "[(8000000001, 0), (20000000000, 0), (24000000001, 0)] :: (int \<times> int) list"
  have ds: "dials ((0, 1) # (1, 0) # ?ticks) (new_dial_retry 8000 120000) = [8000000001, 24000000001]"
    by (simp add: due_def new_dial_retry_def)
  have "\<forall>i. Suc i < length [8000000001, 24000000001 :: int] \<longrightarrow> nanos (min 120000 (8000 * 2 ^ Suc i))
      \<le> [8000000001, 24000000001] ! Suc i - [8000000001, 24000000001] ! i"
    using dial_backoff [of 8000 120000 1 0 ?ticks "new_dial_retry 8000 120000" "[8000000001, 24000000001]" 0 1] ds
    by (simp add: new_dial_retry_def)
  from this [rule_format, of 0] ds show ?thesis
    by simp
qed

end
