(* ===== verification/Daemon.thy ===== *)
theory Daemon
  imports Cli State_Dir Router Scanner Dial_Retry
begin

text \<open>
  \<open>app/daemon.cpp\<close>: from the options of a run to its folders, their state directories, ignore rules and
  services, and the two periodic jobs of the watch loop, the rescan and the decision to dial, scan or exit.
\<close>

section \<open>Addresses\<close>

definition parse_hostport :: "bytes \<Rightarrow> (bytes \<times> u16) option" where
  "parse_hostport s =
     (case (if s \<noteq> [] \<and> hd s = 91 then
              (if 93 \<notin> set s then None
               else
                 let close = length (takeWhile (\<lambda>c. c \<noteq> 93) s); h = take (close - 1) (drop 1 s); rest = drop close s
                 in if colon \<notin> set rest then None else Some (h, tl (dropWhile (\<lambda>c. c \<noteq> colon) rest)))
            else if colon \<notin> set s then None
            else Some (rev (tl (dropWhile (\<lambda>c. c \<noteq> colon) (rev s))), rev (takeWhile (\<lambda>c. c \<noteq> colon) (rev s)))) of
        None \<Rightarrow> None
      | Some (h, p) \<Rightarrow>
          let (v, behind) = strtoul p
          in if h = [] \<or> behind \<noteq> [] \<or> v = 0 \<or> v > 65535 then None else Some (h, ucast v))"

section \<open>Paths\<close>

definition path_key :: "bytes \<Rightarrow> bytes" where
  "path_key p = strip_slashes (lexically_normal p)"

definition path_within :: "bytes \<Rightarrow> bytes \<Rightarrow> bool" where
  "path_within child parent =
     (if child = parent then True
      else if length child \<le> length parent then False
      else if take (length parent) child \<noteq> parent then False
      else last parent = slash \<or> child ! length parent = slash)"

section \<open>Folders\<close>

record watched =
  wd_name :: bytes
  wd_root :: bytes
  wd_root_key :: bytes
  wd_data_dir :: bytes
  wd_scanner :: scanner
  wd_synced_once :: bool

text \<open>What \<open>fs::is_directory\<close> says of a path once the code has tried to create it: the overload called throws
  when the status cannot be had, a parent that may not be searched for instance, and nothing catches that.\<close>

datatype dir_status = Is_directory | Not_directory | Status_error

text \<open>Why a run cannot start: the message of \<open>fail\<close>, or an exception that ends the program.\<close>

datatype failure = Fails bytes | Throws

definition resolve_folder :: "bytes option \<Rightarrow> (bytes \<Rightarrow> dir_status) \<Rightarrow> folder_options \<Rightarrow> failure + watched" where
  "resolve_folder cwd is_dir fo =
     (case fs_absolute cwd (fo_directory fo) of
        None \<Rightarrow> Inl (Fails (str ''bad directory: '' @ fo_directory fo))
      | Some root \<Rightarrow>
          (case is_dir root of
             Status_error \<Rightarrow> Inl Throws
           | Not_directory \<Rightarrow> Inl (Fails (str ''not a directory: '' @ root))
           | Is_directory \<Rightarrow>
               Inr \<lparr>wd_name = (if fo_name fo = [] then default_folder_name root else fo_name fo),
                 wd_root = root, wd_root_key = path_key root, wd_data_dir = [],
                 wd_scanner = \<lparr>sn_ignore = [], sn_follow = False\<rparr>, wd_synced_once = False\<rparr>))"

fun resolve_folders :: "bytes option \<Rightarrow> (bytes \<Rightarrow> dir_status) \<Rightarrow> folder_options list \<Rightarrow> failure + watched list" where
  "resolve_folders cwd is_dir [] = Inr []"
| "resolve_folders cwd is_dir (fo # fos) =
     (case resolve_folder cwd is_dir fo of Inl e \<Rightarrow> Inl e
      | Inr f \<Rightarrow> (case resolve_folders cwd is_dir fos of Inl e \<Rightarrow> Inl e | Inr fs \<Rightarrow> Inr (f # fs)))"

definition overlap_at :: "watched list \<Rightarrow> nat \<Rightarrow> nat \<Rightarrow> bytes option" where
  "overlap_at fs i j =
     (if i = j then None
      else if \<not> path_within (wd_root_key (fs ! i)) (wd_root_key (fs ! j)) then None
      else
        let same = (wd_root_key (fs ! i) = wd_root_key (fs ! j))
        in if same \<and> i > j then None
           else Some (if same then str ''the same directory is listed twice: '' @ wd_root (fs ! i)
                      else wd_root (fs ! i) @ str '' is inside '' @ wd_root (fs ! j)
                        @ [32] @ em_dash @ str '' a synced folder cannot contain another''))"

text \<open>The first pair in the order of the two loops.\<close>

definition check_overlap :: "watched list \<Rightarrow> bytes option" where
  "check_overlap fs =
     (case List.map_filter (\<lambda>(i, j). overlap_at fs i j) (List.product [0..<length fs] [0..<length fs]) of
        [] \<Rightarrow> None | e # _ \<Rightarrow> Some e)"

fun check_leaf_names :: "(bytes \<times> watched) list \<Rightarrow> watched list \<Rightarrow> bytes option" where
  "check_leaf_names seen [] = None"
| "check_leaf_names seen (f # fs) =
     (case map_of seen (wd_name f) of
        Some g \<Rightarrow> Some (str ''both '' @ wd_root g @ str '' and '' @ wd_root f @ str '' would be the folder '' @ [39] @ wd_name f @ [39, 32] @ em_dash
          @ str '' give one a different --name'')
      | None \<Rightarrow> check_leaf_names ((wd_name f, f) # seen) fs)"

definition resolve_all :: "bytes option \<Rightarrow> (bytes \<Rightarrow> dir_status) \<Rightarrow> folder_options list \<Rightarrow> failure + watched list" where
  "resolve_all cwd is_dir fos =
     (case resolve_folders cwd is_dir fos of
        Inl e \<Rightarrow> Inl e
      | Inr fs \<Rightarrow>
          (case check_overlap fs of Some e \<Rightarrow> Inl (Fails e)
           | None \<Rightarrow> (case check_leaf_names [] fs of Some e \<Rightarrow> Inl (Fails e) | None \<Rightarrow> Inr fs)))"

section \<open>State and services\<close>

text \<open>The node's directory and one directory per folder.\<close>

definition resolve_state ::
  "(bytes \<Rightarrow> bytes) \<Rightarrow> (bytes \<Rightarrow> bytes) \<Rightarrow> bytes option \<Rightarrow> bytes \<Rightarrow> watched list \<Rightarrow> bytes \<times> bytes list" where
  "resolve_state sha env cwd data_dir_opt folders =
     (if data_dir_opt = [] then
        let node = node_state_dir env; dirs = map (\<lambda>f. state_dir_for sha env cwd (wd_root f)) folders;
            node = (if node = [] \<and> dirs \<noteq> [] then hd dirs else node)
        in (node, dirs)
      else (fs_join data_dir_opt (str ''node''),
            map (\<lambda>f. fs_join (fs_join data_dir_opt (str ''dirs'')) (state_dir_name sha cwd (wd_root f))) folders))"

definition kTempDirName :: bytes where
  "kTempDirName = str ''.rasync-tmp''"

text \<open>\<open>read_file\<close> gives the contents of a file, if there is one.\<close>

definition folder_scanner :: "(bytes \<Rightarrow> bytes option) \<Rightarrow> folder_options \<Rightarrow> watched \<Rightarrow> scanner" where
  "folder_scanner read_file fo f =
     (let ignore = ignore_add (str ''.rasync'') [];
          ignore = ignore_add kTempDirName ignore;
          ignore_file = (if fo_ignore_file fo = [] then fs_join (wd_root f) (str ''.rasyncignore'') else fo_ignore_file fo);
          ignore = snd (ignore_add_file (read_file ignore_file) ignore);
          ignore = fold ignore_add (fo_ignores fo) ignore
      in \<lparr>sn_ignore = ignore, sn_follow = fo_follow_symlinks fo\<rparr>)"

text \<open>\<open>from_hex\<close> is librats' reading of a peer id.\<close>

fun read_peers :: "(bytes \<Rightarrow> peer_id option) \<Rightarrow> bytes list \<Rightarrow> bytes + peer_id list" where
  "read_peers from_hex [] = Inr []"
| "read_peers from_hex (hex # hexes) =
     (case from_hex hex of None \<Rightarrow> Inl (str ''bad --allow peer id: '' @ hex)
      | Some p \<Rightarrow> (case read_peers from_hex hexes of Inl e \<Rightarrow> Inl e | Inr ps \<Rightarrow> Inr (p # ps)))"

definition folder_config :: "(bytes \<Rightarrow> peer_id option) \<Rightarrow> bytes list \<Rightarrow> folder_options \<Rightarrow> watched \<Rightarrow> bytes + sync_config" where
  "folder_config from_hex allow fo f =
     (let cfg = default_config\<lparr>cf_root := wd_root f, cf_data_dir := wd_data_dir f, cf_folder := wd_name f,
            cf_mode := fo_mode fo, cf_conflict := fo_conflict fo, cf_source := fo_source fo,
            cf_propagate_deletes := \<not> fo_no_delete fo, cf_use_delta := \<not> fo_no_delta fo,
            cf_follow_symlinks := fo_follow_symlinks fo\<rparr>
      in case read_peers from_hex allow of Inl e \<Rightarrow> Inl e
         | Inr ps \<Rightarrow> Inr (cfg\<lparr>cf_allowed_peers := ps\<rparr>))"

section \<open>The watch loop\<close>

definition all_synced :: "watched list \<Rightarrow> bool" where
  "all_synced folders \<longleftrightarrow> list_all wd_synced_once folders"

record watch =
  wt_retry :: dial_retry
  wt_last_rescan :: int
  wt_started :: int

datatype watch_action = Dial_again | Rescan | Leave

text \<open>One tick at \<open>now\<close> nanoseconds, with the number of peers and the time of the last sync in milliseconds.\<close>

definition watch_tick ::
  "options \<Rightarrow> bool \<Rightarrow> watched list \<Rightarrow> int \<Rightarrow> int \<Rightarrow> int \<Rightarrow> watch \<Rightarrow> watch_action list \<times> watch" where
  "watch_tick q targets folders now peers last_sync_ms wt =
     (let (dial, retry) = (if targets then due now peers (wt_retry wt) else (False, wt_retry wt));
          wt = wt\<lparr>wt_retry := retry\<rparr>;
          acts = (if dial then [Dial_again] else []);
          leave = opt_once q \<and>
            (all_synced folders \<and> now div 1000000 - last_sync_ms > 1500
             \<or> peers = 0 \<and> now - wt_started wt > 30 * 1000000000)
      in if leave then (acts @ [Leave], wt)
         else if now - wt_last_rescan wt < sint (opt_interval q) * 1000000000 then (acts, wt)
         else (acts @ [Rescan], wt\<lparr>wt_last_rescan := now\<rparr>))"

text \<open>A rescan of one folder: the patch from the tree as it was when the scan began to what the scan found,
  applied to the folder as it is when the scan ends.\<close>

definition rescan_patch :: "os \<Rightarrow> scanner \<Rightarrow> bytes \<Rightarrow> manifest \<Rightarrow> manifest_patch option" where
  "rescan_patch os sc root before =
     map_option (\<lambda>(fresh, stats). diff_manifests before fresh) (scan_tree os sc root (Some before))"

definition publish :: "platform \<Rightarrow> peer_id list \<Rightarrow> manifest_patch \<Rightarrow> folder \<Rightarrow> folder" where
  "publish pf order patch fd = (if patch_empty patch then fd else folder_patched pf order patch fd)"

section \<open>Which folders overlap\<close>

lemma path_within_names:
  assumes "list_all plain_name xs" "list_all plain_name ys"
  shows "path_within (path_of xs) (path_of ys) \<longleftrightarrow> (\<exists>zs. xs = ys @ zs)"
proof (cases "ys = []")
  case True
  have "path_within (path_of xs) [slash]"
    by (cases xs) (auto simp: path_within_def path_of_def join_slash_Cons)
  with True show ?thesis by (simp add: path_of_def)
next
  case False
  have last: "last (path_of ys) \<noteq> slash"
    using join_slash_last [OF assms(2) False] by (simp add: path_of_def)
  have ext: "path_within c p \<longleftrightarrow> c = p \<or> (\<exists>rest. c = p @ slash # rest)" if "last p \<noteq> slash" for c p
  proof
    assume w: "path_within c p"
    show "c = p \<or> (\<exists>rest. c = p @ slash # rest)"
    proof (cases "c = p")
      case ne: False
      with w that have c: "length p < length c" "take (length p) c = p" "c ! length p = slash"
        by (auto simp: path_within_def split: if_splits)
      then have "c = p @ slash # drop (Suc (length p)) c"
        by (metis append_take_drop_id Cons_nth_drop_Suc)
      then show ?thesis by blast
    qed simp
  qed (auto simp: path_within_def)
  have "path_of xs = path_of ys \<or> (\<exists>rest. path_of xs = path_of ys @ slash # rest) \<longleftrightarrow> (\<exists>zs. xs = ys @ zs)"
    using path_of_inject [OF assms] path_of_prefix [OF assms False] by (metis append_Nil2)
  with ext [OF last] show ?thesis by simp
qed

lemma resolve_folder_root:
  assumes "is_absolute d" "resolve_folder (Some d) is_dir fo = Inr f"
  shows "is_absolute (wd_root f) \<and> wd_root_key f = path_of (names_of (wd_root f))"
proof -
  have "is_absolute (fs_join d p)" for p
    using assms(1) by (cases d) (auto simp: fs_join_def is_absolute_def)
  then show ?thesis
    using assms(2) by (auto simp: resolve_folder_def fs_absolute_def path_key_def strip_normal split: if_splits option.splits dir_status.splits)
qed

lemma resolve_folders_roots:
  "resolve_folders (Some d) is_dir fos = Inr fs \<Longrightarrow> is_absolute d \<Longrightarrow>
   \<forall>f \<in> set fs. is_absolute (wd_root f) \<and> wd_root_key f = path_of (names_of (wd_root f))"
  by (induction fos arbitrary: fs) (auto split: sum.splits dest: resolve_folder_root)

lemma check_overlap_None:
  "check_overlap fs = None \<longleftrightarrow> (\<forall>i < length fs. \<forall>j < length fs. overlap_at fs i j = None)"
proof -
  have "check_overlap fs = None \<longleftrightarrow>
      List.map_filter (\<lambda>(i, j). overlap_at fs i j) (List.product [0..<length fs] [0..<length fs]) = []"
    by (simp add: check_overlap_def split: list.split)
  moreover have "List.map_filter f xs = [] \<longleftrightarrow> (\<forall>x \<in> set xs. f x = None)" for f :: "nat \<times> nat \<Rightarrow> bytes option" and xs
    by (induction xs) (auto simp: map_filter_simps split: option.splits)
  ultimately show ?thesis
    by (auto simp: atLeast0LessThan)
qed

lemma overlap_free:
  "(\<forall>i < n. \<forall>j < n. overlap_at fs i j = None) \<longleftrightarrow>
   (\<forall>i < n. \<forall>j < n. i \<noteq> j \<longrightarrow> \<not> path_within (wd_root_key (fs ! i)) (wd_root_key (fs ! j)))"
proof
  assume free: "\<forall>i < n. \<forall>j < n. overlap_at fs i j = None"
  have "\<not> path_within (wd_root_key (fs ! i)) (wd_root_key (fs ! j))" if "i < n" "j < n" "i \<noteq> j" for i j
  proof
    assume within: "path_within (wd_root_key (fs ! i)) (wd_root_key (fs ! j))"
    have "overlap_at fs i j = None"
      using free that by blast
    with within that(3) have "wd_root_key (fs ! i) = wd_root_key (fs ! j) \<and> i > j"
      by (simp add: overlap_at_def Let_def split: if_splits)
    moreover have "overlap_at fs j i = None"
      using free that by blast
    ultimately show False
      by (simp add: overlap_at_def path_within_def)
  qed
  then show "\<forall>i < n. \<forall>j < n. i \<noteq> j \<longrightarrow> \<not> path_within (wd_root_key (fs ! i)) (wd_root_key (fs ! j))" by blast
qed (simp add: overlap_at_def)

lemma check_leaf_names_None:
  "check_leaf_names seen fs = None \<longleftrightarrow> distinct (map wd_name fs) \<and> fst ` set seen \<inter> wd_name ` set fs = {}"
proof (induction fs arbitrary: seen)
  case (Cons f fs)
  have "map_of seen (wd_name f) = None \<longleftrightarrow> wd_name f \<notin> fst ` set seen"
    by (simp add: map_of_eq_None_iff)
  with Cons [of "(wd_name f, f) # seen"] show ?case
    by (auto split: option.split)
qed simp

section \<open>Numbers\<close>

lemma decimal_digits: "decimal n \<noteq> [] \<and> (\<forall>c \<in> set (decimal n). is_digit c) \<and> digits_value (decimal n) = int n"
proof (induction n rule: decimal.induct)
  case (1 n)
  have digit: "is_digit (48 + of_nat k)" "uint (48 + of_nat k :: u8) = 48 + int k" if "k < 10" for k
  proof -
    have "uint (48 + of_nat k :: u8) = 48 + int k"
      using that by (simp add: uint_word_ariths unsigned_of_nat take_bit_eq_mod)
    with that show "uint (48 + of_nat k :: u8) = 48 + int k" "is_digit (48 + of_nat k)"
      by (simp_all add: is_digit_def word_le_def)
  qed
  show ?case
  proof (cases "n < 10")
    case True
    with digit [OF True] show ?thesis
      by (subst decimal.simps, simp)+ (simp add: digits_value_def decimal.simps)
  next
    case False
    have m: "n mod 10 < 10" by simp
    have "10 * int (n div 10) + int (n mod 10) = int n" by presburger
    with 1 [OF False] digit [OF m] False show ?thesis
      by (simp add: decimal.simps [of n] digits_value_def)
  qed
qed

lemma digit_plain: "is_digit c \<Longrightarrow> c \<noteq> colon \<and> \<not> is_space c \<and> c \<noteq> 43 \<and> c \<noteq> 45"
  by (auto simp: is_digit_def is_space_def word_le_nat_alt)

lemma strtoul_decimal:
  assumes "n < 2 ^ 64"
  shows "strtoul (decimal n) = (of_nat n, [])"
proof -
  have d: "decimal n \<noteq> []" "\<forall>c \<in> set (decimal n). is_digit c" "digits_value (decimal n) = int n"
    using decimal_digits by blast+
  then have "hd (decimal n) \<in> set (decimal n)" by simp
  then have h: "\<not> is_space (hd (decimal n))" "hd (decimal n) \<noteq> 43" "hd (decimal n) \<noteq> 45"
    using d(2) digit_plain by blast+
  have space: "dropWhile is_space (decimal n) = decimal n"
    using d(1) h(1) by (cases "decimal n") auto
  have digits: "takeWhile is_digit (decimal n) = decimal n" "dropWhile is_digit (decimal n) = []"
    using d(2) by (simp_all add: takeWhile_eq_all_conv)
  show ?thesis
    using d(1,3) h(2,3) assms by (simp add: strtoul_def Let_def space digits)
qed

section \<open>A patch between two scans, applied to a third tree\<close>

lemma apply_diff_find:
  assumes "om_inv a" "om_inv b" "om_inv c"
  shows "om_find (man_apply (diff_manifests a b) c) k = (if om_find a k = om_find b k then om_find c k else om_find b k)"
proof -
  let ?set = "filter (\<lambda>e. om_find a (fst e) \<noteq> Some (snd e)) b"
  have inv: "om_inv ?set"
    using assms(2) by (simp add: om_inv_iff sorted_wrt_map sorted_wrt_filter)
  have rev: "map_of (rev ?set) k = om_find ?set k"
    unfolding om_find_map_of [of ?set] by (rule fun_cong [OF map_of_rev_distinct [OF om_distinct [OF inv]]])
  have set: "map_of (rev ?set) k = (if om_find a k = om_find b k then None else om_find b k)"
  proof (rule option.exhaust [of "om_find b k"])
    assume none: "om_find b k = None"
    then have "om_find ?set k = None"
      by (auto simp: om_find_None)
    with none show ?thesis
      unfolding rev by simp
  next
    fix v assume some: "om_find b k = Some v"
    have only: "(k, w) \<in> set b \<longleftrightarrow> w = v" for w
      using om_find_Some [OF assms(2), of k w] some by auto
    have "om_find ?set k = Some w \<longleftrightarrow> w = v \<and> om_find a k \<noteq> Some v" for w
      unfolding om_find_Some [OF inv] using only by auto
    then have "om_find ?set k = (if om_find a k = Some v then None else Some v)"
      by (cases "om_find ?set k") auto
    with some show ?thesis
      unfolding rev by simp
  qed
  have removed: "k \<in> set (mp_removed (diff_manifests a b)) \<longleftrightarrow> om_find a k \<noteq> None \<and> om_find b k = None"
    by (simp add: diff_manifests_removed [OF assms(1,2)] om_find_None)
  show ?thesis
    unfolding man_find_apply [OF assms(3)] diff_manifests_set [OF assms(1,2)]
    using removed set by (auto simp: restrict_map_def map_add_def split: option.split)
qed

section \<open>The rules every folder starts with\<close>

lemma ignore_add_keeps: "set rules \<subseteq> set (ignore_add raw rules)"
  by (auto simp: ignore_add_def Let_def)

lemma ignore_adds_keep: "set rules \<subseteq> set (fold ignore_add raws rules)"
  using ignore_add_keeps by (induction raws arbitrary: rules) (simp, fastforce)

abbreviation own_rule :: "bytes \<Rightarrow> rule" where
  "own_rule n \<equiv> \<lparr>r_pattern = n, r_negate = False, r_dir_only = False, r_anchored = False\<rparr>"

lemma own_rules:
  assumes "n \<in> {str ''.rasync'', kTempDirName}"
  shows "own_rule n \<in> set (sn_ignore (folder_scanner read_file fo f)) \<and> seg_match n n"
proof -
  have start: "ignore_add kTempDirName (ignore_add (str ''.rasync'') []) = [own_rule (str ''.rasync''), own_rule kTempDirName]"
    by code_simp
  have "seg_match (str ''.rasync'') (str ''.rasync'')" "seg_match kTempDirName kTempDirName"
    by code_simp+
  moreover have "set rules \<subseteq> set (snd (ignore_add_file content rules))" for content rules
    using ignore_adds_keep by (auto simp: ignore_add_file_def ignore_add_lines_def split: option.split)
  ultimately show ?thesis
    using assms ignore_adds_keep unfolding folder_scanner_def Let_def start by fastforce
qed

lemma kept_by_negation:
  assumes "own_rule n \<in> set rules \<and> seg_match n n" "n \<in> set (pieces slash p)" "\<not> ignore_matches rules p is_dir"
  shows "\<exists>r \<in> set rules. r_negate r \<and> applies r p is_dir"
proof -
  have "applies (own_rule n) p is_dir"
    using assms by (auto simp: applies_def glob_match_def list_ex_iff split_pieces)
  then have "\<exists>r. find (\<lambda>r. applies r p is_dir) (rev rules) = Some r"
    using assms(1) by (metis find_None_iff not_None_eq set_rev)
  then obtain r where r: "find (\<lambda>r. applies r p is_dir) (rev rules) = Some r"
    by blast
  then have "r \<in> set rules" "applies r p is_dir"
    unfolding find_last by auto
  with r assms(3) show ?thesis
    by (auto simp: ignore_matches_last)
qed

section \<open>Properties\<close>

text \<open>C15. A run syncs disjoint trees under distinct names: once the directories are resolved, they are accepted
  exactly when no root lies in another or is one, compared as directories and not as strings, and no two
  folders have the same name.\<close>

theorem folders_disjoint:
  assumes "is_absolute d" "resolve_folders (Some d) is_dir fos = Inr fs"
  shows "resolve_all (Some d) is_dir fos = Inr fs \<longleftrightarrow>
    (\<forall>i < length fs. \<forall>j < length fs. i \<noteq> j \<longrightarrow>
       \<not> (\<exists>zs. names_of (wd_root (fs ! i)) = names_of (wd_root (fs ! j)) @ zs))
    \<and> distinct (map wd_name fs)"
proof -
  have key: "wd_root_key (fs ! i) = path_of (names_of (wd_root (fs ! i)))" if "i < length fs" for i
    using resolve_folders_roots [OF assms(2,1)] that by simp
  have "check_overlap fs = None \<longleftrightarrow> (\<forall>i < length fs. \<forall>j < length fs. i \<noteq> j \<longrightarrow>
      \<not> (\<exists>zs. names_of (wd_root (fs ! i)) = names_of (wd_root (fs ! j)) @ zs))"
    unfolding check_overlap_None overlap_free
    by (simp add: key path_within_names [OF names_plain names_plain] cong: imp_cong)
  then show ?thesis
    using assms(2) check_leaf_names_None [of "[]" fs] by (auto simp: resolve_all_def split: option.split)
qed

theorem folders_disjoint_witness:
  "\<exists>e. resolve_folders (Some (str ''/h'')) (\<lambda>p. Is_directory) [default_folder\<lparr>fo_directory := str ''a''\<rparr>,
      default_folder\<lparr>fo_directory := str ''/h/a/../a/b''\<rparr>] = Inr e
    \<and> resolve_all (Some (str ''/h'')) (\<lambda>p. Is_directory) [default_folder\<lparr>fo_directory := str ''a''\<rparr>,
      default_folder\<lparr>fo_directory := str ''/h/a/../a/b''\<rparr>] \<noteq> Inr e"
proof -
  let ?fos = "[default_folder\<lparr>fo_directory := str ''a''\<rparr>, default_folder\<lparr>fo_directory := str ''/h/a/../a/b''\<rparr>]"
  obtain f g where fs: "resolve_folders (Some (str ''/h'')) (\<lambda>p. Is_directory) ?fos = Inr [f, g]"
    and roots: "wd_root f = str ''/h/a''" "wd_root g = str ''/h/a/../a/b''"
    by (simp add: resolve_folder_def fs_absolute_def is_absolute_def fs_join_def str_def)
  have "names_of (wd_root g) = names_of (wd_root f) @ [[98]]"
    by (simp add: roots str_def)
  then have "\<not> (\<forall>i < length [f, g]. \<forall>j < length [f, g]. i \<noteq> j \<longrightarrow>
      \<not> (\<exists>zs. names_of (wd_root ([f, g] ! i)) = names_of (wd_root ([f, g] ! j)) @ zs))"
    by (metis (no_types, lifting) One_nat_def length_Cons less_Suc_eq list.size(3) nth_Cons_0 nth_Cons_Suc zero_less_Suc zero_neq_one)
  moreover have "is_absolute (str ''/h'')"
    by (simp add: is_absolute_def str_def)
  ultimately have "resolve_all (Some (str ''/h'')) (\<lambda>p. Is_directory) ?fos \<noteq> Inr [f, g]"
    using folders_disjoint [OF _ fs] by blast
  with fs show ?thesis by blast
qed

text \<open>Every address is read as it is written: a host and a port joined by a colon, with the host in brackets
  when it has colons of its own, is taken apart into that host and that port, for every port but zero.\<close>

theorem hostport_roundtrip:
  assumes "host \<noteq> []" "port \<noteq> 0"
  shows "(hd host \<noteq> 91 \<longrightarrow> parse_hostport (host @ [colon] @ decimal (unat port)) = Some (host, port))
    \<and> (93 \<notin> set host \<longrightarrow> parse_hostport ([91] @ host @ [93, colon] @ decimal (unat port)) = Some (host, port))"
proof -
  have "unat port < 2 ^ 16"
    using unsigned_less [of port] by simp
  then have "strtoul (decimal (unat port)) = (of_nat (unat port), [])"
    by (intro strtoul_decimal) simp
  moreover have "(of_nat (unat port) :: u64) = ucast port"
    by simp
  ultimately have num: "strtoul (decimal (unat port)) = (ucast port, [])"
    by simp
  have range: "(ucast port :: u64) \<noteq> 0" "\<not> (ucast port :: u64) > 65535" "ucast (ucast port :: u64) = port"
  proof -
    have u: "unat (ucast port :: u64) = unat port"
      using \<open>unat port < 2 ^ 16\<close> by (simp add: unsigned_ucast_eq take_bit_nat_eq_self)
    show "(ucast port :: u64) \<noteq> 0"
      using assms(2) u by (metis unat_0 unat_eq_zero)
    show "\<not> (ucast port :: u64) > 65535"
      using \<open>unat port < 2 ^ 16\<close> u by (simp add: word_less_nat_alt)
    show "ucast (ucast port :: u64) = port"
      by (rule bit_word_eqI) (simp add: bit_simps)
  qed
  have plain: "colon \<notin> set (decimal (unat port))"
    using decimal_digits [of "unat port"] digit_plain by blast
  have cut: "takeWhile (\<lambda>c. c \<noteq> s) (xs @ s # ys) = xs" "dropWhile (\<lambda>c. c \<noteq> s) (xs @ s # ys) = s # ys"
    if "s \<notin> set xs" for s and xs ys :: bytes
    using that by (induction xs) auto
  show ?thesis
  proof (intro conjI impI)
    assume "hd host \<noteq> 91"
    then show "parse_hostport (host @ [colon] @ decimal (unat port)) = Some (host, port)"
      using assms(1) cut [of colon "rev (decimal (unat port))" "rev host"] plain
      by (simp add: parse_hostport_def num range hd_append)
  next
    assume "93 \<notin> set host"
    then show "parse_hostport ([91] @ host @ [93, colon] @ decimal (unat port)) = Some (host, port)"
      using assms(1) cut [of 93 host "colon # decimal (unat port)"]
      by (simp add: parse_hostport_def num range Let_def)
  qed
qed

theorem hostport_roundtrip_witness:
  "parse_hostport ([91] @ str ''::1'' @ [93, colon] @ decimal 9000) = Some (str ''::1'', 9000)"
  using hostport_roundtrip [of "str ''::1''" 9000] by (simp add: str_def)

text \<open>C19. A rescan publishes what changed between its two ends and nothing else: at every path the scan found
  as it was when it began, the folder keeps what it has now, so a file that landed or was removed while
  the scan walked stays so; at every other path it gets what the scan found.\<close>

theorem rescan_keeps_landed:
  assumes "om_inv before" "om_inv (sv_local sv)"
    and "sane_names os" "finitely_many_dirs os sc root"
  shows "\<exists>fresh stats. scan_tree os sc root (Some before) = Some (fresh, stats)
    \<and> (\<exists>patch. rescan_patch os sc root before = Some patch
        \<and> (\<forall>p. man_find (sv_local (apply_local_patch patch sv)) p =
            (if man_find before p = man_find fresh p then man_find (sv_local sv) p else man_find fresh p)))"
proof -
  obtain fresh stats where scan: "scan_tree os sc root (Some before) = Some (fresh, stats)" "om_inv fresh"
    using scan_tree_result [OF assms(3,4)] by blast
  have "om_find (man_apply (diff_manifests before fresh) (sv_local sv)) p =
      (if om_find before p = om_find fresh p then om_find (sv_local sv) p else om_find fresh p)" for p
    by (rule apply_diff_find [OF assms(1) scan(2) assms(2)])
  moreover have "sv_local (apply_local_patch patch sv) = man_apply patch (sv_local sv)" for patch
    by (auto simp: apply_local_patch_def bump_def patch_empty_def man_apply_def)
  ultimately show ?thesis
    using scan by (auto simp: rescan_patch_def man_find_def)
qed

theorem rescan_keeps_landed_witness:
  "\<forall>sha. \<exists>patch. rescan_patch cyclic_os follower [114] [] = Some patch
     \<and> man_find (sv_local (apply_local_patch patch (new_service sha (\<lambda>x. x) default_config (\<lambda>x. None) None
         \<lparr>sv_local := [([98], sample_meta)]\<rparr>))) [98] \<noteq> None"
proof
  fix sha
  let ?sv = "new_service sha (\<lambda>x. x) default_config (\<lambda>x. None) None\<lparr>sv_local := [([98], sample_meta)]\<rparr>"
  have "om_inv ([] :: manifest)" "om_inv (sv_local ?sv)"
    by (simp_all add: om_inv_iff)
  from rescan_keeps_landed [OF this cyclic_sane cyclic_finite [OF follower_follows]]
  obtain fresh patch where "rescan_patch cyclic_os follower [114] [] = Some patch"
    and "man_find (sv_local (apply_local_patch patch ?sv)) [98] =
      (if man_find [] [98] = man_find fresh [98] then man_find (sv_local ?sv) [98] else man_find fresh [98])"
    by blast
  then show "\<exists>patch. rescan_patch cyclic_os follower [114] [] = Some patch
     \<and> man_find (sv_local (apply_local_patch patch ?sv)) [98] \<noteq> None"
    by (cases "man_find fresh [98]") (auto simp: man_find_def)
qed

text \<open>C31. rasync's own directories reach the peer only where the user's rules bring them back: in every scan of
  a folder, a path with a segment that is the scratch directory or an older version's state directory, at
  any depth, is one that some negated rule of the folder applies to. All other rules, negated or not,
  change nothing for such a path.\<close>

theorem scratch_never_scanned:
  assumes "sane_names os" "finitely_many_dirs os (folder_scanner read_file fo f) root"
  shows "\<exists>out stats. scan_tree os (folder_scanner read_file fo f) root previous = Some (out, stats)
    \<and> (\<forall>(p, m) \<in> set out. {str ''.rasync'', kTempDirName} \<inter> set (pieces slash p) \<noteq> {} \<longrightarrow>
        (\<exists>r \<in> set (sn_ignore (folder_scanner read_file fo f)). r_negate r \<and> applies r p False))"
proof -
  let ?sc = "folder_scanner read_file fo f"
  obtain out stats where scan: "scan_tree os ?sc root previous = Some (out, stats)" "om_inv out"
    "\<And>p m. man_find out p = Some m \<longleftrightarrow> (\<exists>v. visited os ?sc root v \<and> (p, m) \<in> set (files_in os ?sc root previous v))"
    using scan_tree_result [OF assms(1,2), of previous] by auto
  have "\<exists>r \<in> set (sn_ignore ?sc). r_negate r \<and> applies r p False"
    if out: "(p, m) \<in> set out" and n: "n \<in> {str ''.rasync'', kTempDirName}" "n \<in> set (pieces slash p)" for p m n
  proof -
    obtain v e where e: "p = entry_rel v e" "entry_file os ?sc root previous v e = Some m"
      using out scan(3) [of p m] om_find_Some [OF scan(2), of p m] unfolding files_in_set man_find_def by blast
    then have "\<not> ignore_matches (sn_ignore ?sc) p False"
      by (auto simp: entry_file_def file_of_def split: if_splits option.splits)
    with own_rules [OF n(1)] n(2) show ?thesis
      by (rule kept_by_negation)
  qed
  with scan(1) show ?thesis by blast
qed

text \<open>With the rules of the sample file in the README, which has a negated one, nothing is brought back.\<close>

theorem scratch_never_scanned_witness:
  "\<forall>w. \<exists>out stats. scan_tree cyclic_os (folder_scanner (\<lambda>p. Some (str ''*.log'' @ [10] @ str ''!keep.log''))
        (default_folder\<lparr>fo_follow_symlinks := True\<rparr>) w) [114] None = Some (out, stats)
    \<and> list_all (\<lambda>(p, m). kTempDirName \<noteq> p) out"
proof
  fix w
  let ?sc = "folder_scanner (\<lambda>p. Some (str ''*.log'' @ [10] @ str ''!keep.log'')) (default_folder\<lparr>fo_follow_symlinks := True\<rparr>) w"
  have rules: "snd (ignore_add_file (Some (str ''*.log'' @ [10] @ str ''!keep.log'')) (ignore_add kTempDirName (ignore_add (str ''.rasync'') []))) =
      [own_rule (str ''.rasync''), own_rule kTempDirName, own_rule (str ''*.log''), (own_rule (str ''keep.log''))\<lparr>r_negate := True\<rparr>]"
    by code_simp
  then have sc: "sn_follow ?sc" "set (sn_ignore ?sc) =
      {own_rule (str ''.rasync''), own_rule kTempDirName, own_rule (str ''*.log''), (own_rule (str ''keep.log''))\<lparr>r_negate := True\<rparr>}"
    by (simp_all add: folder_scanner_def default_folder_def)
  obtain out stats where scan: "scan_tree cyclic_os ?sc [114] None = Some (out, stats)"
    "\<forall>(p, m) \<in> set out. {str ''.rasync'', kTempDirName} \<inter> set (pieces slash p) \<noteq> {} \<longrightarrow>
        (\<exists>r \<in> set (sn_ignore ?sc). r_negate r \<and> applies r p False)"
    using scratch_never_scanned [OF cyclic_sane cyclic_finite [OF sc(1)], where previous = None] by blast
  have "\<not> applies ((own_rule (str ''keep.log''))\<lparr>r_negate := True\<rparr>) kTempDirName False" "kTempDirName \<in> set (pieces slash kTempDirName)"
    by code_simp+
  then have "(kTempDirName, m) \<notin> set out" for m
    using scan(2) unfolding sc(2) by fastforce
  with scan(1) show "\<exists>out stats. scan_tree cyclic_os ?sc [114] None = Some (out, stats) \<and> list_all (\<lambda>(p, m). kTempDirName \<noteq> p) out"
    by (auto simp: list_all_iff)
qed

text \<open>They can be brought back: with \<open>--ignore !.rasync-tmp\<close> as the last rule nothing in the scratch directory
  is left out, which the README says it always is.\<close>

theorem scratch_reincluded:
  assumes "fo_ignores fo = earlier @ [str ''!.rasync-tmp'']" "kTempDirName \<in> set (pieces slash p)"
  shows "\<not> ignore_matches (sn_ignore (folder_scanner read_file fo f)) p is_dir"
proof -
  have "ignore_add (str ''!.rasync-tmp'') [] = [(own_rule kTempDirName)\<lparr>r_negate := True\<rparr>]"
    by code_simp
  then have "ignore_add (str ''!.rasync-tmp'') rules = rules @ [(own_rule kTempDirName)\<lparr>r_negate := True\<rparr>]" for rules
    by (simp add: ignore_add_def Let_def split: if_splits)
  then have "\<exists>rules. sn_ignore (folder_scanner read_file fo f) = rules @ [(own_rule kTempDirName)\<lparr>r_negate := True\<rparr>]"
    using assms(1) by (auto simp: folder_scanner_def Let_def)
  moreover have "seg_match kTempDirName kTempDirName"
    by code_simp
  then have "applies ((own_rule kTempDirName)\<lparr>r_negate := True\<rparr>) p is_dir"
    using assms(2) by (auto simp: applies_def glob_match_def list_ex_iff split_pieces)
  ultimately show ?thesis
    by (auto simp: ignore_matches_snoc)
qed

text \<open>An interval is not always waited for: a number of seconds that is a multiple of \<open>2 ^ 32\<close>, or negative,
  is accepted, cut to 32 bits and then never in the future, so every tick of the watch loop rescans every
  folder, however little time has passed.\<close>

theorem cut_interval_rescans:
  "pr_action (parse_args [[114], str ''--interval=4294967296'', [97]]) = Run
    \<and> Rescan \<in> set (fst (watch_tick (pr_options (parse_args [[114], str ''--interval=4294967296'', [97]]))
        targets folders (wt_last_rescan wt + int elapsed) peers last_sync wt))
    \<and> pr_action (parse_args [[114], str ''--interval'', str ''-5'', [97]]) = Run
    \<and> Rescan \<in> set (fst (watch_tick (pr_options (parse_args [[114], str ''--interval'', str ''-5'', [97]]))
        targets folders (wt_last_rescan wt + int elapsed) peers last_sync wt))"
proof -
  have "Rescan \<in> set (fst (watch_tick q targets folders (wt_last_rescan wt + int elapsed) peers last_sync wt))"
    if "\<not> opt_once q" "sint (opt_interval q) \<le> 0" for q
    using that by (simp add: watch_tick_def Let_def split: prod.split)
  then show ?thesis
    using interval_cut by simp
qed

end
