(* ===== verification/Scanner_Cache.thy ===== *)
theory Scanner_Cache
  imports Scanner
begin

text \<open>
  What a scan gives when it is handed a cache, when it is repeated, and which paths it can name. The
  properties rest on the exact result of a scan and on one induction over the loop.
\<close>

section \<open>Caching\<close>

text \<open>A cache that tells the truth: an entry with the size and mtime of a file has its content's hash.\<close>

definition truthful :: "os \<Rightarrow> scanner \<Rightarrow> bytes \<Rightarrow> manifest \<Rightarrow> bool" where
  "truthful os sc root cache \<longleftrightarrow> (\<forall>v e m c. visited os sc root v \<longrightarrow> e \<in> set (entries_of os root v) \<longrightarrow>
     file_of os sc root v e = Some m \<longrightarrow> man_find cache (entry_rel v e) = Some c \<longrightarrow>
     fm_size c = fm_size m \<longrightarrow> fm_mtime c = fm_mtime m \<longrightarrow>
     os_hash os (os_combine os root (entry_rel v e)) = Some (fm_hash c))"

lemma truthful_entry:
  assumes "truthful os sc root cache" "visited os sc root v" "e \<in> set (entries_of os root v)"
  shows "entry_file os sc root (Some cache) v e = entry_file os sc root None v e"
proof (cases "file_of os sc root v e")
  case (Some m)
  have "hash_of os root (Some cache) (entry_rel v e) m = os_hash os (os_combine os root (entry_rel v e))"
    using assms Some unfolding hash_of_def truthful_def by (auto split: option.split)
  with Some show ?thesis
    by (simp add: entry_file_def hash_of_def)
qed (simp add: entry_file_def)

lemma truthful_files:
  assumes "truthful os sc root cache" "visited os sc root v"
  shows "set (files_in os sc root (Some cache) v) = set (files_in os sc root None v)"
  using truthful_entry [OF assms] by (auto simp: files_in_set)

section \<open>Names a peer accepts\<close>

text \<open>File names that mean the same on every platform.\<close>

definition portable :: "bytes \<Rightarrow> bool" where
  "portable n \<longleftrightarrow> n \<noteq> [] \<and> slash \<notin> set n \<and> backslash \<notin> set n \<and> colon \<notin> set n"

definition portable_names :: "os \<Rightarrow> bool" where
  "portable_names os \<longleftrightarrow> (\<forall>d es. os_list os d = Some es \<longrightarrow> list_all (\<lambda>e. portable (de_name e)) es)"

definition tame :: "path \<Rightarrow> bool" where
  "tame p \<longleftrightarrow> p = [] \<or> is_safe_relpath p \<and> colon \<notin> set p"

lemma pieces_snoc:
  assumes "slash \<notin> set n"
  shows "pieces slash (b @ slash # n) = pieces slash b @ [n]"
  using pieces_no_sep [OF assms] by (induction b) auto

lemma no_drive: "colon \<notin> set p \<Longrightarrow> \<not> (2 \<le> length p \<and> p ! 1 = colon)"
  by (cases p; cases "tl p") auto

lemma tame_join:
  assumes "tame b" "portable n" "\<not> skipped_name n"
  shows "is_safe_relpath (join_rel b n)" "tame (join_rel b n)"
proof -
  have n: "n \<noteq> []" "hd n \<noteq> slash" "hd n \<noteq> backslash" "slash \<notin> set n" "backslash \<notin> set n" "colon \<notin> set n"
    using assms(2) by (auto simp: portable_def dest: hd_in_set)
  have dots: "n \<noteq> [dot]" "n \<noteq> [dot, dot]"
    using assms(3) by (auto simp: skipped_name_def str_def)
  show safe: "is_safe_relpath (join_rel b n)"
  proof (cases "b = []")
    case True
    then have "join_rel b n = n"
      by (simp add: join_rel_def)
    with n dots no_drive [of n] show ?thesis
      by (simp add: safe_relpath_iff pieces_no_sep)
  next
    case False
    then have b: "is_safe_relpath b" "colon \<notin> set b" and j: "join_rel b n = b @ slash # n"
      using assms(1) by (auto simp: tame_def join_rel_def str_def)
    have "colon \<notin> set (join_rel b n)"
      using b(2) n by (simp add: j)
    from no_drive [OF this] show ?thesis
      using b(1) n dots False by (simp add: j safe_relpath_iff pieces_snoc)
  qed
  show "tame (join_rel b n)"
    using safe assms(1) n by (auto simp: tame_def join_rel_def str_def)
qed

lemma portable_entry:
  assumes "portable_names os" "e \<in> set (entries_of os root item)"
  shows "portable (de_name e)"
  using assms by (cases "os_list os (if pn_rel item = [] then root else os_combine os root (pn_rel item))")
    (auto simp: entries_of_def portable_names_def list_all_iff)

lemma visited_tame:
  assumes "portable_names os" "visited os sc root v"
  shows "tame (pn_rel v)"
  using assms(2) unfolding visited_def
proof (induction rule: rtranclp_induct)
  case base
  then show ?case by (simp add: scan_start_def tame_def)
next
  case (step item sub)
  then obtain e where e: "e \<in> set (entries_of os root item)" "entry_dir os sc root item e = Some sub"
    by (auto simp: subdirs_set)
  then have "pn_rel sub = entry_rel item e" "\<not> skipped_name (de_name e)"
    by (auto simp: entry_dir_def dir_of_def Let_def split: if_splits)
  with tame_join(2) [OF step.IH portable_entry [OF assms(1) e(1)]] show ?case by simp
qed

section \<open>What a run of the loop keeps\<close>

text \<open>A property of the state that every entry of every visited directory keeps holds when the loop ends.\<close>

lemma scan_loop_keeps:
  assumes loop: "scan_loop os sc root previous st = Some st'"
    and entry: "\<And>v e st. visited os sc root v \<Longrightarrow> e \<in> set (entries_of os root v) \<Longrightarrow> I st
      \<Longrightarrow> I (scan_entry os sc root previous v e st)"
    and pend: "\<And>st items. I (st\<lparr>sc_pending := items\<rparr>) = I st"
    and start: "\<forall>item \<in> set (sc_pending st). visited os sc root item" "I st"
  shows "I st'"
proof -
  have item: "I (scan_item os sc root previous v st)" if "visited os sc root v" "I st" for v st
  proof -
    have "set es \<subseteq> set (entries_of os root v) \<Longrightarrow> I st \<Longrightarrow> I (fold (scan_entry os sc root previous v) es st)" for es st
      by (induction es arbitrary: st) (simp_all add: entry [OF that(1)])
    then show ?thesis
      using that(2) by (simp add: scan_item_def)
  qed
  have "os' = os \<longrightarrow> sc' = sc \<longrightarrow> root' = root \<longrightarrow> previous' = previous \<longrightarrow>
      (\<forall>item \<in> set (sc_pending st). visited os sc root item) \<longrightarrow> I st \<longrightarrow> I st'"
    if "scan_loop os' sc' root' previous' st = Some st'" for os' sc' root' previous' st st'
    using that
  proof (induction rule: scan_loop.raw_induct [rotated, consumes 1, case_names step])
    case (step loop os' sc' root' previous' st st')
    show ?case
    proof (intro impI)
      assume eq: "os' = os" "sc' = sc" "root' = root" "previous' = previous"
        and vis: "\<forall>item \<in> set (sc_pending st). visited os sc root item" and I: "I st"
      show "I st'"
      proof (cases "sc_pending st")
        case (Cons v rest)
        let ?st = "scan_item os sc root previous v (st\<lparr>sc_pending := rest\<rparr>)"
        have "visited os sc root v" "\<forall>i \<in> set (sc_pending ?st). visited os sc root i"
          using vis Cons by (auto simp: scan_item_effect visited_sub)
        moreover have "loop os sc root previous ?st = Some st'"
          using step.hyps(1) Cons eq by simp
        ultimately show ?thesis
          using step.IH I eq item pend by metis
      qed (use step.hyps(1) I in simp)
    qed
  qed
  with loop start show ?thesis by blast
qed

text \<open>An entry reads its file only when the cache has no match, and a scan's own manifest is a match for
  every file it recorded.\<close>

lemma scan_entry_hashed:
  "files_hashed (sc_stats (scan_entry os sc root previous v e st)) = files_hashed (sc_stats st) +
     (if entry_file os sc root previous v e \<noteq> None \<and>
         \<not> (\<exists>m c man. previous = Some man \<and> file_of os sc root v e = Some m \<and> man_find man (entry_rel v e) = Some c
            \<and> fm_size c = fm_size m \<and> fm_mtime c = fm_mtime m) then 1 else 0)"
proof (cases "de_is_directory e \<or> skipped_name (de_name e)")
  case True
  then show ?thesis
    by (cases "sn_follow sc") (auto simp: scan_entry_def skipped_name_def entry_file_def scan_directory_def skip_link_def
        follow_link_def push_def Let_def)
next
  case False
  then show ?thesis
    by (cases "sn_follow sc"; cases "pb_symlink (entry_info os sc root v e)"; cases previous)
      (auto simp: scan_entry_def skipped_name_def entry_file_def scan_file_def file_of_def entry_info_def
        hash_of_def skip_link_def follow_link_def Let_def split: option.splits)
qed

lemma option_eqI: "(\<And>y. a = Some y \<longleftrightarrow> b = Some y) \<Longrightarrow> a = b"
  by (cases a; cases b) auto

lemma own_entry:
  assumes sane: "sane_names os" and out: "\<And>p m. man_find out p = Some m \<longleftrightarrow>
      (\<exists>v. visited os sc root v \<and> (p, m) \<in> set (files_in os sc root previous v))"
    and v: "visited os sc root v" "e \<in> set (entries_of os root v)"
  shows "entry_file os sc root (Some out) v e = entry_file os sc root previous v e"
    and "entry_file os sc root (Some out) v e \<noteq> None \<Longrightarrow> \<exists>m c. file_of os sc root v e = Some m
      \<and> man_find out (entry_rel v e) = Some c \<and> fm_size c = fm_size m \<and> fm_mtime c = fm_mtime m"
proof -
  have find: "man_find out (entry_rel v e) = entry_file os sc root previous v e"
  proof (rule option_eqI)
    fix c
    have "entry_file os sc root previous v e = Some c"
      if "visited os sc root w" "f \<in> set (entries_of os root w)" "entry_rel v e = entry_rel w f"
        "entry_file os sc root previous w f = Some c" for w f
      using entry_at [OF sane v(2) that(2,3)] that(4) entry_file_rel [of v w] by simp
    then show "man_find out (entry_rel v e) = Some c \<longleftrightarrow> entry_file os sc root previous v e = Some c"
      unfolding out files_in_set using v by blast
  qed
  have "entry_file os sc root (Some out) v e = entry_file os sc root previous v e
    \<and> (entry_file os sc root (Some out) v e \<noteq> None \<longrightarrow> (\<exists>m c. file_of os sc root v e = Some m
        \<and> man_find out (entry_rel v e) = Some c \<and> fm_size c = fm_size m \<and> fm_mtime c = fm_mtime m))"
  proof (cases "file_of os sc root v e")
    case (Some m)
    then show ?thesis
      using find
      by (cases "hash_of os root previous (entry_rel v e) m")
        (auto simp: entry_file_def hash_of_def split: option.splits if_splits)
  qed (simp add: entry_file_def)
  then show "entry_file os sc root (Some out) v e = entry_file os sc root previous v e"
    and "entry_file os sc root (Some out) v e \<noteq> None \<Longrightarrow> \<exists>m c. file_of os sc root v e = Some m
      \<and> man_find out (entry_rel v e) = Some c \<and> fm_size c = fm_size m \<and> fm_mtime c = fm_mtime m"
    by blast+
qed

lemma man_same:
  assumes "om_inv a" "om_inv b" "\<And>p m. man_find a p = Some m \<longleftrightarrow> man_find b p = Some m"
  shows "a = b"
  by (rule om.find_inject [OF assms(1,2)]) (use option_eqI [OF assms(3)] in \<open>simp add: man_find_def fun_eq_iff\<close>)

section \<open>Properties\<close>

text \<open>C25. The cache changes nothing but the work: if every cached entry whose size and mtime still match
  the file holds the hash of its content, a scan with the cache gives the manifest of a scan without.\<close>

theorem scan_cache_sound:
  assumes "sane_names os" "finitely_many_dirs os sc root" "truthful os sc root cache"
  shows "\<exists>out s1 s2. scan_tree os sc root (Some cache) = Some (out, s1) \<and> scan_tree os sc root None = Some (out, s2)"
proof -
  obtain out s1 out' s2 where
    1: "scan_tree os sc root (Some cache) = Some (out, s1)" "om_inv out" "\<And>p m. man_find out p = Some m \<longleftrightarrow>
        (\<exists>v. visited os sc root v \<and> (p, m) \<in> set (files_in os sc root (Some cache) v))" and
    2: "scan_tree os sc root None = Some (out', s2)" "om_inv out'" "\<And>p m. man_find out' p = Some m \<longleftrightarrow>
        (\<exists>v. visited os sc root v \<and> (p, m) \<in> set (files_in os sc root None v))"
    using scan_tree_result [OF assms(1,2), of "Some cache"] scan_tree_result [OF assms(1,2), of None] by auto
  have "man_find out p = Some m \<longleftrightarrow> man_find out' p = Some m" for p m
    unfolding 1(3) 2(3) using truthful_files [OF assms(3)] by blast
  with 1 2 man_same [of out out'] show ?thesis by auto
qed

theorem scan_cache_sound_witness:
  "\<exists>out s1 s2. scan_tree cyclic_os follower [114]
      (Some [([97], \<lparr>fm_size = 3, fm_mtime = 5, fm_mode = 9, fm_hash = replicate 32 1\<rparr>)]) = Some (out, s1)
    \<and> scan_tree cyclic_os follower [114] None = Some (out, s2)"
  by (rule scan_cache_sound [OF cyclic_sane cyclic_finite [OF follower_follows]])
    (simp add: truthful_def man_find_def cyclic_os_def)

text \<open>C26. A steady-state rescan hashes nothing: scanning again with the first scan's manifest as the cache,
  on an unchanged file system, reads no file and returns the same manifest.\<close>

theorem rescan_steady:
  assumes "sane_names os" "finitely_many_dirs os sc root"
  shows "\<exists>out s1 s2. scan_tree os sc root previous = Some (out, s1)
    \<and> scan_tree os sc root (Some out) = Some (out, s2) \<and> files_hashed s2 = 0"
proof -
  obtain out s1 where 1: "scan_tree os sc root previous = Some (out, s1)" "om_inv out"
    "\<And>p m. man_find out p = Some m \<longleftrightarrow> (\<exists>v. visited os sc root v \<and> (p, m) \<in> set (files_in os sc root previous v))"
    using scan_tree_result [OF assms, of previous] by auto
  obtain out' s2 where 2: "scan_tree os sc root (Some out) = Some (out', s2)" "om_inv out'"
    "\<And>p m. man_find out' p = Some m \<longleftrightarrow> (\<exists>v. visited os sc root v \<and> (p, m) \<in> set (files_in os sc root (Some out) v))"
    using scan_tree_result [OF assms, of "Some out"] by auto
  note own = own_entry [OF assms(1) 1(3)]
  have "set (files_in os sc root (Some out) v) = set (files_in os sc root previous v)" if "visited os sc root v" for v
    using own(1) [OF that] by (auto simp: files_in_set)
  then have "man_find out p = Some m \<longleftrightarrow> man_find out' p = Some m" for p m
    unfolding 1(3) 2(3) by blast
  then have same: "out = out'"
    by (rule man_same [OF 1(2) 2(2)])
  obtain st where st: "scan_loop os sc root (Some out) \<lparr>sc_pending = [scan_start os sc root], sc_out = [],
      sc_stats = \<lparr>files_seen = 0, files_hashed = 0, symlinks_skipped = 0, symlinks_followed = 0\<rparr>\<rparr> = Some st"
    "sc_stats st = s2"
    using 2(1) by (auto simp: scan_tree_def)
  have "files_hashed (sc_stats st) = 0"
  proof (rule scan_loop_keeps [OF st(1), where I = "\<lambda>st. files_hashed (sc_stats st) = 0"])
    fix v e and st :: scan_state
    assume "visited os sc root v" "e \<in> set (entries_of os root v)" and st: "files_hashed (sc_stats st) = 0"
    from own(2) [OF this(1,2)] st show "files_hashed (sc_stats (scan_entry os sc root (Some out) v e st)) = 0"
      by (cases "entry_file os sc root (Some out) v e") (auto simp: scan_entry_hashed)
  qed simp_all
  with 1 2 same st show ?thesis by auto
qed

theorem rescan_steady_witness:
  "\<exists>out s1 s2. scan_tree cyclic_os follower [114] None = Some (out, s1)
    \<and> scan_tree cyclic_os follower [114] (Some out) = Some (out, s2) \<and> files_hashed s2 = 0"
  by (rule rescan_steady [OF cyclic_sane cyclic_finite [OF follower_follows]])

text \<open>C29. Only names that are no names elsewhere stop a file from being synced: if no listing holds a name with
  a separator, a backslash or a colon, every path in a scan's manifest is one that a peer accepts.\<close>

theorem scanned_paths_safe:
  assumes "sane_names os" "finitely_many_dirs os sc root" "portable_names os"
  shows "\<exists>out stats. scan_tree os sc root previous = Some (out, stats) \<and> list_all (\<lambda>(p, m). is_safe_relpath p) out"
proof -
  obtain out stats where 1: "scan_tree os sc root previous = Some (out, stats)" "om_inv out"
    "\<And>p m. man_find out p = Some m \<longleftrightarrow> (\<exists>v. visited os sc root v \<and> (p, m) \<in> set (files_in os sc root previous v))"
    using scan_tree_result [OF assms(1,2), of previous] by auto
  have "is_safe_relpath p" if "(p, m) \<in> set out" for p m
  proof -
    have "man_find out p = Some m"
      using that 1(2) by (simp add: man_find_def om_find_Some)
    then obtain v e where "visited os sc root v" "e \<in> set (entries_of os root v)" "p = entry_rel v e"
      "entry_file os sc root previous v e = Some m"
      unfolding 1(3) files_in_set by blast
    moreover from this(4) have "\<not> skipped_name (de_name e)"
      by (auto simp: entry_file_def)
    ultimately show ?thesis
      using tame_join(1) [OF visited_tame portable_entry] assms(3) by metis
  qed
  with 1(1) show ?thesis by (auto simp: list_all_iff)
qed

theorem scanned_paths_safe_witness:
  "\<exists>out stats. scan_tree cyclic_os follower [114] None = Some (out, stats) \<and> list_all (\<lambda>(p, m). is_safe_relpath p) out"
  by (rule scanned_paths_safe [OF cyclic_sane cyclic_finite [OF follower_follows]]) (simp add: portable_names_def cyclic_os_def portable_def)

end
