(* ===== verification/Send_Gate.thy ===== *)
theory Send_Gate
  imports Prelude
begin

text \<open>
  \<open>net/send_gate.h\<close> / \<open>.cpp\<close>: the wait of a background thread for room in a peer's send queue. What the
  thread reads in one round of its loop - the flags, the node's answer, the clock - is an observation, and
  the rounds of a wait are a list of them; a second model takes the sleep itself apart, step by step.
\<close>

section \<open>The gate\<close>

record gate =
  gt_generation :: u64
  gt_stopped :: bool
  gt_offers :: u64
  gt_waits :: u64
  gt_timeouts :: u64

definition new_gate :: gate where
  "new_gate = \<lparr>gt_generation = 0, gt_stopped = False, gt_offers = 0, gt_waits = 0, gt_timeouts = 0\<rparr>"

definition kPoll :: int where
  "kPoll = 5"

text \<open>One round: the stop flag, the caller's \<open>keep_waiting\<close> (true when there is none), the node's
  \<open>peer_writable\<close>, the clock in nanoseconds, and whether a wake-up cut the sleep before it short.\<close>

record observation =
  ob_stopped :: bool
  ob_keep :: bool
  ob_writable :: bool
  ob_now :: int
  ob_woken :: bool

text \<open>The rounds seen so far may not decide it: then the thread still waits.\<close>

fun wait_loop :: "int \<Rightarrow> observation list \<Rightarrow> gate \<Rightarrow> (bool \<times> gate) option" where
  "wait_loop deadline [] g = None"
| "wait_loop deadline (ob # obs) g =
     (if ob_stopped ob then Some (False, g)
      else if \<not> ob_keep ob then Some (False, g)
      else if ob_writable ob then Some (True, g)
      else if ob_now ob \<ge> deadline then Some (False, g\<lparr>gt_timeouts := gt_timeouts g + 1\<rparr>)
      else wait_loop deadline obs g)"

definition wait_writable :: "int \<Rightarrow> int \<Rightarrow> observation list \<Rightarrow> gate \<Rightarrow> (bool \<times> gate) option" where
  "wait_writable timeout now obs g =
     (if gt_stopped g then Some (False, g)
      else
        let deadline = now + timeout * 1000000;
            g = g\<lparr>gt_waits := gt_waits g + 1\<rparr>
        in wait_loop deadline obs g)"

text \<open>\<open>accepted\<close> is the answer of \<open>Node::send\<close>: the message goes out either way.\<close>

definition gate_send :: "bool \<Rightarrow> int \<Rightarrow> int \<Rightarrow> observation list \<Rightarrow> gate \<Rightarrow> (bool \<times> gate) option" where
  "gate_send accepted timeout now obs g =
     (let g = g\<lparr>gt_offers := gt_offers g + 1\<rparr>
      in if accepted then Some (True, g) else wait_writable timeout now obs g)"

text \<open>\<open>SyncService::send_paced\<close>: without a gate the message goes straight out.\<close>

definition send_paced :: "gate option \<Rightarrow> bool \<Rightarrow> int \<Rightarrow> int \<Rightarrow> observation list \<Rightarrow> (bool \<times> gate option) option" where
  "send_paced gate accepted stall_timeout_ms now obs =
     (case gate of None \<Rightarrow> Some (accepted, None)
      | Some g \<Rightarrow> map_option (\<lambda>(room, g). (room, Some g)) (gate_send accepted stall_timeout_ms now obs g))"

definition wake_all :: "gate \<Rightarrow> gate" where
  "wake_all g = g\<lparr>gt_generation := gt_generation g + 1\<rparr>"

definition gate_stop :: "gate \<Rightarrow> gate" where
  "gate_stop g = (if gt_stopped g then g else g\<lparr>gt_stopped := True, gt_generation := gt_generation g + 1\<rparr>)"

section \<open>How long a wait lasts\<close>

text \<open>A sleep lasts the poll interval or what is left to the deadline, rounded up to milliseconds.\<close>

definition ceil_ms :: "int \<Rightarrow> int" where
  "ceil_ms ns = - ((- ns) div 1000000)"

definition sleep_ns :: "int \<Rightarrow> int \<Rightarrow> int" where
  "sleep_ns deadline now = min kPoll (ceil_ms (deadline - now)) * 1000000"

text \<open>What the clock and the condition variable promise of consecutive rounds: time does not run backwards,
  and a sleep that no wake-up cut short lasted its time.\<close>

fun timeline :: "int \<Rightarrow> observation list \<Rightarrow> bool" where
  "timeline deadline (a # b # obs) \<longleftrightarrow>
     ob_now a \<le> ob_now b \<and> (ob_woken b \<or> ob_now a + sleep_ns deadline (ob_now a) \<le> ob_now b)
     \<and> timeline deadline (b # obs)"
| "timeline deadline _ \<longleftrightarrow> True"

definition wake_ups :: "observation list \<Rightarrow> nat" where
  "wake_ups obs = length (filter ob_woken (tl obs))"

text \<open>The sleeps that fit between a time and the deadline.\<close>

definition sleeps_left :: "int \<Rightarrow> int \<Rightarrow> nat" where
  "sleeps_left deadline now = nat (- ((now - deadline) div (kPoll * 1000000)))"

lemma sleeps_left_mono: "t \<le> u \<Longrightarrow> sleeps_left deadline u \<le> sleeps_left deadline t"
  by (simp add: sleeps_left_def kPoll_def nat_mono zdiv_mono1)

lemma sleeps_left_less:
  assumes "now < deadline" "now + sleep_ns deadline now \<le> later"
  shows "sleeps_left deadline later < sleeps_left deadline now"
proof -
  have "deadline \<le> now + ceil_ms (deadline - now) * 1000000"
    unfolding ceil_ms_def using div_mult_mod_eq [of "now - deadline" 1000000] pos_mod_sign [of 1000000 "now - deadline"]
    by (simp only: minus_diff_eq)
  then have "now + 5000000 \<le> later \<or> deadline \<le> later"
    using assms(2) by (auto simp: sleep_ns_def kPoll_def min_def split: if_splits)
  moreover have "(now + 5000000 - deadline) div 5000000 = (now - deadline) div 5000000 + 1"
    using div_add_self2 [of 5000000 "now - deadline"] by (simp add: algebra_simps)
  moreover have "(now - deadline) div 5000000 < 0"
    using assms(1) by (simp add: div_neg_pos_less0)
  ultimately show ?thesis
    using zdiv_mono1 [of "now + 5000000 - deadline" "later - deadline" 5000000]
      zdiv_mono1 [of 0 "later - deadline" 5000000]
    by (auto simp: sleeps_left_def kPoll_def)
qed

lemma wait_loop_returns:
  assumes "timeline deadline obs" "obs \<noteq> []" "wake_ups obs + sleeps_left deadline (ob_now (hd obs)) < length obs"
  shows "wait_loop deadline obs g \<noteq> None"
  using assms
proof (induction obs)
  case (Cons a obs)
  show ?case
  proof (cases obs)
    case Nil
    with Cons.prems(3) have "sleeps_left deadline (ob_now a) = 0"
      by simp
    then have "deadline \<le> ob_now a"
      using sleeps_left_less [of "ob_now a" deadline "ob_now a + sleep_ns deadline (ob_now a)"] by force
    with Nil show ?thesis by (simp del: not_None_eq)
  next
    case (Cons b rest)
    show ?thesis
    proof (cases "deadline \<le> ob_now a")
      case False
      have t: "timeline deadline obs" "ob_now a \<le> ob_now b"
        "ob_woken b \<or> ob_now a + sleep_ns deadline (ob_now a) \<le> ob_now b"
        using Cons.prems(1) Cons by auto
      have "wake_ups obs + sleeps_left deadline (ob_now (hd obs)) < length obs"
        using t(2,3) Cons.prems(3) Cons sleeps_left_mono [OF t(2), of deadline]
          sleeps_left_less [of "ob_now a" deadline "ob_now b"] False
        by (cases "ob_woken b") (auto simp: wake_ups_def)
      with Cons.IH [OF t(1)] Cons show ?thesis by (simp del: not_None_eq)
    qed (simp del: not_None_eq)
  qed
qed simp

lemma wait_loop_meaning:
  assumes "wait_loop deadline obs g = Some (room, g')"
  shows "gt_offers g' = gt_offers g \<and> (room \<longrightarrow> (\<exists>ob \<in> set obs. ob_writable ob))
    \<and> (\<not> room \<longrightarrow> (\<exists>ob \<in> set obs. ob_stopped ob \<or> \<not> ob_keep ob \<or> deadline \<le> ob_now ob))"
  using assms by (induction obs) (auto split: if_splits)

section \<open>One sleep, step by step\<close>

text \<open>The waiter reads the generation, decides to wait, tests the condition of \<open>wait_for\<close>, and only then
  blocks; \<open>wake_all\<close> counts the generation up and notifies, and takes no lock.\<close>

datatype waiter = Reading | Seen u64 | Blocking u64 | Blocked u64
datatype waker = Idle | Notifying

record race =
  rc_generation :: u64
  rc_waiter :: waiter
  rc_waker :: waker

inductive race_step :: "race \<Rightarrow> race \<Rightarrow> bool" where
  read: "rc_waiter s = Reading \<Longrightarrow> race_step s (s\<lparr>rc_waiter := Seen (rc_generation s)\<rparr>)"
| moved: "rc_waiter s = Seen g \<Longrightarrow> rc_generation s \<noteq> g \<Longrightarrow> race_step s (s\<lparr>rc_waiter := Reading\<rparr>)"
| unmoved: "rc_waiter s = Seen g \<Longrightarrow> rc_generation s = g \<Longrightarrow> race_step s (s\<lparr>rc_waiter := Blocking g\<rparr>)"
| block: "rc_waiter s = Blocking g \<Longrightarrow> race_step s (s\<lparr>rc_waiter := Blocked g\<rparr>)"
| poll: "rc_waiter s = Blocked g \<Longrightarrow> race_step s (s\<lparr>rc_waiter := Reading\<rparr>)"
| bump: "rc_waker s = Idle \<Longrightarrow> race_step s (s\<lparr>rc_generation := rc_generation s + 1, rc_waker := Notifying\<rparr>)"
| notify: "rc_waker s = Notifying \<Longrightarrow> race_step s
    (s\<lparr>rc_waker := Idle, rc_waiter := (case rc_waiter s of Blocked g \<Rightarrow> Seen g | w \<Rightarrow> w)\<rparr>)"

definition race_start :: race where
  "race_start = \<lparr>rc_generation = 0, rc_waiter = Reading, rc_waker = Idle\<rparr>"

inductive_cases race_stepE: "race_step s t"

section \<open>Properties\<close>

text \<open>C22. A paced send always returns: whatever the node answers, once the rounds outnumber the wake-ups by the
  sleeps that fit into the time limit, the call has returned, having counted the offer once; it reports
  room only if the node took the message or was seen writable, and gives up only after a stop, a refusal
  of the caller or the deadline.\<close>

theorem gate_send_returns:
  assumes "0 \<le> timeout" "deadline = now + timeout * 1000000"
    and "timeline deadline obs" "now \<le> ob_now (hd obs)" "wake_ups obs + nat timeout div 5 + 2 \<le> length obs"
  shows "\<exists>room g'. gate_send accepted timeout now obs g = Some (room, g')
    \<and> gt_offers g' = gt_offers g + 1
    \<and> (room \<longrightarrow> accepted \<or> (\<exists>ob \<in> set obs. ob_writable ob))
    \<and> (\<not> room \<longrightarrow> gt_stopped g \<or> (\<exists>ob \<in> set obs. ob_stopped ob \<or> \<not> ob_keep ob \<or> deadline \<le> ob_now ob))"
proof (cases "accepted \<or> gt_stopped g")
  case False
  have "- ((- (timeout * 1000000)) div 5000000) \<le> timeout div 5 + 1"
    by linarith
  then have "sleeps_left deadline now \<le> nat timeout div 5 + 1"
    using assms(1) by (simp add: sleeps_left_def kPoll_def assms(2) nat_le_iff zdiv_int)
  with sleeps_left_mono [OF assms(4), of deadline] assms(5)
  have "wake_ups obs + sleeps_left deadline (ob_now (hd obs)) < length obs"
    by linarith
  then obtain room g' where w: "wait_loop deadline obs (g\<lparr>gt_offers := gt_offers g + 1, gt_waits := gt_waits g + 1\<rparr>) = Some (room, g')"
    using wait_loop_returns [OF assms(3)] assms(5) by fastforce
  with wait_loop_meaning [OF w] False show ?thesis
    by (simp add: gate_send_def wait_writable_def Let_def assms(2))
qed (auto simp: gate_send_def wait_writable_def Let_def)

theorem gate_send_returns_witness:
  "\<exists>room g'. gate_send False 3 0
     [\<lparr>ob_stopped = False, ob_keep = True, ob_writable = False, ob_now = 1, ob_woken = False\<rparr>,
      \<lparr>ob_stopped = False, ob_keep = True, ob_writable = False, ob_now = 3000001, ob_woken = False\<rparr>]
     new_gate = Some (room, g') \<and> gt_offers g' = 1"
  using gate_send_returns [of 3 3000000 0
     "[\<lparr>ob_stopped = False, ob_keep = True, ob_writable = False, ob_now = 1, ob_woken = False\<rparr>,
      \<lparr>ob_stopped = False, ob_keep = True, ob_writable = False, ob_now = 3000001, ob_woken = False\<rparr>]" False new_gate]
  by (auto simp: wake_ups_def sleep_ns_def ceil_ms_def kPoll_def new_gate_def)

text \<open>The generation counter does not keep every wake-up: a whole \<open>wake_all\<close> can fall between the test of
  the condition and the block, and then the thread sleeps although the generation has moved and nobody is
  left to notify it. Only the poll interval ends that sleep.\<close>

theorem wake_up_lost:
  "\<exists>s g. race_step\<^sup>*\<^sup>* race_start s \<and> rc_waiter s = Blocked g \<and> rc_generation s \<noteq> g \<and> rc_waker s = Idle
    \<and> (\<forall>t. race_step s t \<longrightarrow> rc_waiter t \<noteq> rc_waiter s \<longrightarrow> t = s\<lparr>rc_waiter := Reading\<rparr>)"
proof -
  let ?s = "\<lambda>n w k. \<lparr>rc_generation = n, rc_waiter = w, rc_waker = k\<rparr>"
  have steps: "race_step race_start (?s 0 (Seen 0) Idle)" "race_step (?s 0 (Seen 0) Idle) (?s 0 (Blocking 0) Idle)"
    "race_step (?s 0 (Blocking 0) Idle) (?s 1 (Blocking 0) Notifying)"
    "race_step (?s 1 (Blocking 0) Notifying) (?s 1 (Blocking 0) Idle)"
    "race_step (?s 1 (Blocking 0) Idle) (?s 1 (Blocked 0) Idle)"
    using read [of race_start] unmoved [of "?s 0 (Seen 0) Idle" 0] bump [of "?s 0 (Blocking 0) Idle"]
      notify [of "?s 1 (Blocking 0) Notifying"] block [of "?s 1 (Blocking 0) Idle" 0]
    by (simp_all add: race_start_def)
  have "race_step\<^sup>*\<^sup>* race_start (?s 1 (Blocked 0) Idle)"
    using steps by (meson converse_rtranclp_into_rtranclp rtranclp.rtrancl_refl)
  moreover have "\<forall>t. race_step (?s 1 (Blocked 0) Idle) t \<longrightarrow> rc_waiter t \<noteq> rc_waiter (?s 1 (Blocked 0) Idle)
      \<longrightarrow> t = ?s 1 (Blocked 0) Idle\<lparr>rc_waiter := Reading\<rparr>"
    by (auto elim!: race_stepE)
  ultimately show ?thesis
    by (intro exI [of _ "?s 1 (Blocked 0) Idle"] exI [of _ 0]) simp
qed

end
