(* ===== verification/Session_Sync.thy ===== *)
theory Session_Sync
  imports Session_Safety
begin

text \<open>
  The two ends of a connection together: what one session sends is delivered to the other, in order.
  On top of the exactness of an update and of one transfer, the sessions' turns are put into a
  sequence that carries a whole synchronisation from the first message to agreement.
\<close>

section \<open>The link\<close>

text \<open>Everything one end has sent reaches the other.\<close>

definition hand_over :: "platform \<Rightarrow> session \<Rightarrow> session \<Rightarrow> session \<times> session" where
  "hand_over pf src dst = (src\<lparr>ss_out := []\<rparr>, fold (deliver pf) (ss_out src) dst)"

text \<open>One pull: the requester takes the next path of its queue, the request (and what was sent before
  it) travels, the sender serves it, and the file travels back.\<close>

definition pull_turn :: "platform \<Rightarrow> platform \<Rightarrow> session \<times> session \<Rightarrow> session \<times> session" where
  "pull_turn pfs pfr link =
     (let (sd, rc) = link;
          rc = requester_step pfr rc;
          (rc, sd) = hand_over pfs rc sd;
          sd = sender_step pfs sd
      in hand_over pfr sd rc)"

text \<open>A round of updates and \<open>n\<close> pulls.\<close>

definition sync_run :: "platform \<Rightarrow> platform \<Rightarrow> nat \<Rightarrow> session \<times> session \<Rightarrow> session \<times> session" where
  "sync_run pfs pfr n link =
     (pull_turn pfs pfr ^^ n) (hand_over pfr (advertise (fst link)) (snd link))"

section \<open>A request\<close>

definition offered_sig :: "platform \<Rightarrow> session \<Rightarrow> path \<Rightarrow> signature option" where
  "offered_sig pf rc p =
     (if cf_use_delta (config rc) then
        (case disk rc p of
           Some f \<Rightarrow>
             if of_nat (length (df_data f)) \<le> cf_delta_max_bytes (config rc) \<and> pf_open_read pf p
             then Some (signature_of (pf_sha pf) (df_data f) (cf_block_size (config rc))) else None
         | None \<Rightarrow> None)
      else None)"

definition request_message :: "u32 \<Rightarrow> path \<Rightarrow> signature option \<Rightarrow> bytes" where
  "request_message t p sig =
     (let w = w_str16 p (message t Request)
      in case sig of Some s \<Rightarrow> sig_encode s (w_u8 1 w) | None \<Rightarrow> w_u8 0 w)"

lemma send_request_message:
  "send_request pf p rc = send_msg (request_message (sv_tag (ss_service rc)) p (offered_sig pf rc p)) rc"
  by (simp add: send_request_def Let_def offered_sig_def request_message_def msg_def split: option.split)

lemma request_queued:
  assumes "\<not> ss_incompatible sd" "is_safe_relpath p" "length p < 65536"
    and "\<And>s. sig = Some s \<Longrightarrow> valid_signature s"
  shows "deliver pf (request_message (sv_tag (ss_service sd)) p sig) sd =
    sd\<lparr>ss_outstanding_serves := ss_outstanding_serves sd + 1,
      ss_serve_q := ss_serve_q sd @ [\<lparr>sj_rel_path = p, sj_sig = sig, sj_xid = ss_next_xid sd\<rparr>],
      ss_next_xid := ss_next_xid sd + 1\<rparr>"
proof -
  let ?tail = "case sig of Some s \<Rightarrow> 1 # sig_encode s [] | None \<Rightarrow> [0]"
  have "request_message (sv_tag (ss_service sd)) p sig =
      be32 (sv_tag (ss_service sd)) @ op_code Request # be16 (of_nat (length p)) @ p @ ?tail"
    by (cases sig) (simp_all add: request_message_def Let_def codec_simps sig_encode_bytes)
  then have "deliver pf (request_message (sv_tag (ss_service sd)) p sig) sd =
      handle_request (rd (be16 (of_nat (length p)) @ p @ ?tail)) sd"
    using deliver_message [OF assms(1), of pf Request] assms(1) by (simp add: handle_def)
  then show ?thesis
    using assms(2,4) sig_decode_encode [of _ "[]"]
    by (cases sig) (simp_all add: handle_request_def Let_def r_str16_rd [OF assms(3)] r_u8_rd)
qed

section \<open>What a pull needs\<close>

text \<open>What the platforms are taken to do: every operation works, the two ends agree on SHA-256, and the
  multimap of a delta holds the blocks that were put into it.\<close>

definition platforms_ok :: "platform \<Rightarrow> platform \<Rightarrow> bool" where
  "platforms_ok pfs pfr \<longleftrightarrow> all_works pfs \<and> all_works pfr \<and> pf_sha pfr = pf_sha pfs
     \<and> (\<forall>bs. bucket_of (pf_bucket pfs) bs)"

text \<open>A file the source can serve and the puller can take: a safe path, a size the counters hold, and
  contents SHA-256 tells from the puller's own copy.\<close>

definition servable :: "platform \<Rightarrow> session \<Rightarrow> session \<Rightarrow> path \<Rightarrow> bool" where
  "servable pf sd rc p \<longleftrightarrow> is_safe_relpath p \<and> length p < 65536 \<and>
     (case disk sd p of None \<Rightarrow> False
      | Some f \<Rightarrow> length (df_data f) < 2 ^ 32 \<and>
          (case disk rc p of None \<Rightarrow> True
           | Some g \<Rightarrow> length (df_data g) < 2 ^ 32 \<and>
               separates (pf_sha pf) (unat (or_default (cf_block_size (config rc)))) (df_data g) (df_data f)))"

text \<open>What a request offers is the signature of the puller's own copy.\<close>

lemma offered_sig_own:
  assumes "offered_sig pf rc p = Some s"
  obtains g where "disk rc p = Some g" "s = signature_of (pf_sha pf) (df_data g) (cf_block_size (config rc))"
  using assms that by (auto simp: offered_sig_def split: if_splits option.splits)

lemma offered_sig_offers:
  assumes "sj_sig job = offered_sig pfr rc (sj_rel_path job)" "platforms_ok pfs pfr" "disk rc' = disk rc"
    and "\<And>g. disk rc (sj_rel_path job) = Some g \<Longrightarrow> length (df_data g) < 2 ^ 32 \<and>
       separates (pf_sha pfs) (unat (or_default (cf_block_size (config rc)))) (df_data g) d"
  shows "offers pfs rc' job" "tells_apart pfs rc' job d"
proof -
  have own: "\<exists>g. disk rc (sj_rel_path job) = Some g \<and> s = signature_of (pf_sha pfs) (df_data g) (cf_block_size (config rc))"
    if "sj_sig job = Some s" for s
    using that assms(1,2) offered_sig_own [of pfr rc "sj_rel_path job" s] by (auto simp: platforms_ok_def)
  show "offers pfs rc' job"
    using own assms(2-4) by (fastforce simp: offers_def platforms_ok_def split: option.splits)
  show "tells_apart pfs rc' job d"
    using own assms(3,4) by (fastforce simp: tells_apart_def signature_of_def split: option.splits)
qed

lemma servable_cong:
  "disk sd' p = disk sd p \<Longrightarrow> disk rc' p = disk rc p \<Longrightarrow> config rc' = config rc \<Longrightarrow>
   servable pf sd' rc' p = servable pf sd rc p"
  unfolding servable_def by (simp only:)

text \<open>The puller between two pulls: the paths still wanted, and nothing under way.\<close>

definition puller :: "session \<Rightarrow> path list \<Rightarrow> session \<Rightarrow> bool" where
  "puller sd ps rc \<longleftrightarrow> ss_running rc \<and> \<not> ss_incompatible rc \<and> sv_tag (ss_service rc) = sv_tag (ss_service sd)
     \<and> cf_max_pending_pulls (config rc) \<noteq> 0 \<and> ss_incoming rc = [] \<and> ss_outstanding_serves rc = 0
     \<and> ss_pulling rc = ps \<and> ss_pull_queue rc = ps \<and> distinct ps"

lemma om_empty: "om_inv m \<Longrightarrow> om_find m = om_find [] \<Longrightarrow> m = []"
  by (rule om.find_inject) simp_all

section \<open>Nothing under way\<close>

lemma maybe_synced_keeps:
  "ss_running (maybe_synced pf st) = ss_running st"
  "ss_outstanding_serves (maybe_synced pf st) = ss_outstanding_serves st"
proof -
  have "ss_running (evaluate pf s) = ss_running s \<and> ss_outstanding_serves (evaluate pf s) = ss_outstanding_serves s" for s
    by (simp add: evaluate_def announce_synced_def Let_def emit_def)
  moreover have "ss_running (advertise st) = ss_running st \<and> ss_outstanding_serves (advertise st) = ss_outstanding_serves st"
    by (simp add: advertise_def Let_def frame)
  ultimately show "ss_running (maybe_synced pf st) = ss_running st"
    "ss_outstanding_serves (maybe_synced pf st) = ss_outstanding_serves st"
    by (simp_all add: maybe_synced_def)
qed

lemma maybe_synced_waits: "ss_pulling st \<noteq> [] \<Longrightarrow> ss_last_eval (maybe_synced pf st) = None"
  by (simp add: maybe_synced_def)

text \<open>Nothing under way and the trees agree: the agreement is announced.\<close>

lemma maybe_synced_announces:
  assumes "ss_pulling st = []" "ss_incoming st = []" "ss_outstanding_serves st = 0" "ss_have_remote st"
    and "\<And>v. ss_last_eval st \<noteq> Some (v, ss_remote_version st)" "same_tree (sv_local (ss_service st)) (ss_remote st)"
  shows "ss_last_synced (maybe_synced pf st) = Some (fingerprint (pf_sha pf) (sv_local (ss_service st)))"
proof -
  have "ss_last_synced (evaluate pf s) = Some (fingerprint (pf_sha pf) (sv_local (ss_service s)))"
    if "ss_have_remote s" "\<And>v. ss_last_eval s \<noteq> Some (v, ss_remote_version s)"
      "same_tree (sv_local (ss_service s)) (ss_remote s)" for s
    using that agree_plan_empty [OF that(3)]
    by (auto simp: evaluate_def announce_synced_def Let_def emit_def set_base_manifest_def bump_def)
  moreover have "ss_last_eval (advertise st) = ss_last_eval st" "view (advertise st) = view st"
    "sv_local (ss_service (advertise st)) = sv_local (ss_service st)"
    by (simp_all add: frame) (simp add: advertise_def Let_def frame)
  ultimately show ?thesis
    using assms by (simp add: maybe_synced_def view_def)
qed

text \<open>What the pulls of \<open>ps\<close> make of the puller, before its last convergence check.\<close>

definition drained :: "platform \<Rightarrow> session \<Rightarrow> path list \<Rightarrow> session \<Rightarrow> session \<Rightarrow> bool" where
  "drained pf sd ps rc S \<longleftrightarrow>
     disk S = (\<lambda>p. if p \<in> set ps then disk sd p else disk rc p) \<and> om_inv (sv_local (ss_service S))
     \<and> om_find (sv_local (ss_service S)) = (\<lambda>p. if p \<in> set ps then Some (served_meta pf sd p (the (disk sd p)))
         else om_find (sv_local (ss_service rc)) p)
     \<and> ss_incoming S = [] \<and> aside S = (view rc, [], [], True, None, 0, told rc) \<and> list_all is_ack (ss_out S)
     \<and> sv_version (ss_service S) = sv_version (ss_service rc) + of_nat (length ps) \<and> ss_advertise_pending S"

definition announced :: "platform \<Rightarrow> session \<Rightarrow> bool" where
  "announced pf rc \<longleftrightarrow> ss_last_synced rc = Some (fingerprint (pf_sha pf) (sv_local (ss_service rc)))"

text \<open>Between two pulls the convergence check has nothing to do, and the rest can be pulled as before.\<close>

lemma next_pull:
  assumes pull: "puller sd (p # ps) rc" and "ps \<noteq> []"
    and S: "aside S = (view rc, ps, ps, True, ss_last_eval rc, 0, told rc)" "ss_incoming S = []" "disk S = (disk rc)(p \<mapsto> f)"
    and service: "ss_service sd' = ss_service sd" and files: "\<forall>q \<in> set (p # ps). servable pfs sd rc q"
  shows "maybe_synced pfr S = S\<lparr>ss_last_eval := None\<rparr>" "puller sd' ps (S\<lparr>ss_last_eval := None\<rparr>)"
    "\<forall>q \<in> set ps. servable pfs sd' (S\<lparr>ss_last_eval := None\<rparr>) q"
proof -
  have fields: "view S = view rc" "ss_pulling S = ps" "ss_pull_queue S = ps" "ss_running S" "ss_outstanding_serves S = 0"
    using S(1) by (simp_all add: aside_def)
  note seen = view_fields [OF fields(1)]
  show "maybe_synced pfr S = S\<lparr>ss_last_eval := None\<rparr>"
    using assms(2) fields by (simp add: maybe_synced_def)
  show "puller sd' ps (S\<lparr>ss_last_eval := None\<rparr>)"
    using pull service S(2) fields seen by (simp add: puller_def)
  show "\<forall>q \<in> set ps. servable pfs sd' (S\<lparr>ss_last_eval := None\<rparr>) q"
  proof
    fix q
    assume "q \<in> set ps"
    moreover from this have "q \<noteq> p"
      using pull by (auto simp: puller_def)
    ultimately show "servable pfs sd' (S\<lparr>ss_last_eval := None\<rparr>) q"
      using servable_cong [of sd' q sd "S\<lparr>ss_last_eval := None\<rparr>" rc pfs] files service S(3) seen(7) by simp
  qed
qed

section \<open>Pulling from an end that serves\<close>

text \<open>What the puller relies on at the other end, whichever mode the two run in: it waits for requests, the
  messages it hears between them move nothing, and serving a file moves only what it sends. \<open>same\<close> is the
  part of its state that stays.\<close>

locale serving_end =
  fixes ready :: "session \<Rightarrow> bool"
    and heard :: "bytes \<Rightarrow> bool"
    and same :: "session \<Rightarrow> session \<Rightarrow> bool"
  assumes same_refl: "same sd sd"
    and same_trans: "same s t \<Longrightarrow> same t u \<Longrightarrow> same s u"
    and same_service: "same s t \<Longrightarrow> ss_service s = ss_service t"
    and idle: "ready sd \<Longrightarrow> ss_running sd \<and> \<not> ss_incompatible sd \<and> ss_serve_q sd = []"
    and hears_ack: "is_ack m \<Longrightarrow> heard m"
    and hears: "ready sd \<Longrightarrow> heard m \<Longrightarrow>
      ready (deliver pf m sd) \<and> same (deliver pf m sd) sd \<and> ss_out (deliver pf m sd) = ss_out sd"
    and flushed: "ready sd \<Longrightarrow> ready (sd\<lparr>ss_out := []\<rparr>) \<and> same (sd\<lparr>ss_out := []\<rparr>) sd"
    and serves: "ready sd \<Longrightarrow> queued = sd\<lparr>ss_outstanding_serves := ss_outstanding_serves sd + 1,
        ss_serve_q := [job], ss_next_xid := x\<rparr> \<Longrightarrow>
      ready (sender_step pf queued) \<and> same (sender_step pf queued) sd
      \<and> ss_out (sender_step pf queued) = ss_out (serve_one pf job (queued\<lparr>ss_serve_q := []\<rparr>))"
begin

lemma hears_all:
  assumes "ready sd" "list_all heard ms"
  shows "ready (fold (deliver pf) ms sd) \<and> same (fold (deliver pf) ms sd) sd
    \<and> ss_out (fold (deliver pf) ms sd) = ss_out sd"
  using assms
proof (induction ms arbitrary: sd)
  case Nil
  then show ?case by (simp add: same_refl)
next
  case (Cons m ms)
  then have one: "ready (deliver pf m sd)" "same (deliver pf m sd) sd" "ss_out (deliver pf m sd) = ss_out sd"
    using hears [of sd m pf] by simp_all
  from Cons.IH [OF this(1)] Cons.prems(2) one show ?case
    using same_trans by auto
qed

lemma request_travels:
  assumes ready: "ready sd" "ss_out sd = []" and pull: "puller sd (p # ps) rc" "list_all heard (ss_out rc)"
    and held: "disk sd p = Some f" "servable pfs sd rc p" and works: "platforms_ok pfs pfr"
  obtains sd1 job where "hand_over pfs (requester_step pfr rc) sd = (rc\<lparr>ss_pull_queue := ps, ss_out := []\<rparr>,
      sd1\<lparr>ss_outstanding_serves := ss_outstanding_serves sd1 + 1, ss_serve_q := [job], ss_next_xid := ss_next_xid sd1 + 1\<rparr>)"
    "ready sd1" "same sd1 sd" "ss_out sd1 = []" "sj_rel_path job = p" "sj_sig job = offered_sig pfr rc p"
proof -
  define rc1 where "rc1 = rc\<lparr>ss_pull_queue := ps\<rparr>"
  define req where "req = request_message (sv_tag (ss_service sd)) p (offered_sig pfr rc p)"
  define sd1 where "sd1 = fold (deliver pfs) (ss_out rc) sd"
  have rc: "ss_running rc" "sv_tag (ss_service rc) = sv_tag (ss_service sd)" "cf_max_pending_pulls (config rc) \<noteq> 0"
    "ss_pulling rc = p # ps" "ss_pull_queue rc = p # ps"
    using pull(1) by (simp_all add: puller_def)
  have "may_request rc"
    using rc(3-5) by (simp add: may_request_def unat_gt_0)
  moreover have "offered_sig pfr rc1 p = offered_sig pfr rc p"
    by (cases "disk rc p") (simp_all add: offered_sig_def rc1_def)
  ultimately have "requester_step pfr rc = send_msg req rc1"
    using rc(1,2,5) by (simp add: requester_step_def send_request_message rc1_def req_def)
  then have handed: "hand_over pfs (requester_step pfr rc) sd = (rc\<lparr>ss_pull_queue := ps, ss_out := []\<rparr>, deliver pfs req sd1)"
    by (simp add: hand_over_def send_msg_def sd1_def rc1_def)
  have sd1: "ready sd1" "same sd1 sd" "ss_out sd1 = []"
    unfolding sd1_def using hears_all [OF ready(1) pull(2)] ready(2) by simp_all
  have served: "is_safe_relpath p" "length p < 65536" "\<And>g. disk rc p = Some g \<Longrightarrow> length (df_data g) < 2 ^ 32"
    using held by (simp_all add: servable_def)
  have "valid_signature s" if "offered_sig pfr rc p = Some s" for s
    using offered_sig_own [OF that] served(3) works signature_valid [of "pf_sha pfs"]
    by (fastforce simp: platforms_ok_def all_works_def)
  then have "deliver pfs req sd1 = sd1\<lparr>ss_outstanding_serves := ss_outstanding_serves sd1 + 1,
      ss_serve_q := [\<lparr>sj_rel_path = p, sj_sig = offered_sig pfr rc p, sj_xid = ss_next_xid sd1\<rparr>], ss_next_xid := ss_next_xid sd1 + 1\<rparr>"
    using request_queued [of sd1 p "offered_sig pfr rc p" pfs] served(1,2) idle [OF sd1(1)] same_service [OF sd1(2)]
    by (simp add: req_def)
  then show thesis
    using that [of _ "\<lparr>sj_rel_path = p, sj_sig = offered_sig pfr rc p, sj_xid = ss_next_xid sd1\<rparr>"] handed sd1 by simp
qed

lemma pull_turn_settles:
  assumes ready: "ready sd" "ss_out sd = []" "cf_chunk_size (config sd) \<noteq> 0"
    and pull: "puller sd (p # ps) rc" "list_all heard (ss_out rc)" and held: "disk sd p = Some f" "servable pfs sd rc p"
    and works: "platforms_ok pfs pfr"
  obtains sd' S where "pull_turn pfs pfr (sd, rc) = (sd', maybe_synced pfr S)"
    "ready sd'" "same sd' sd" "ss_out sd' = []"
    "disk S = (disk rc)(p \<mapsto> f)"
    "sv_local (ss_service S) = man_set p (served_meta pfs sd p f) (sv_local (ss_service rc))"
    "ss_incoming S = []" "aside S = (view rc, ps, ps, True, ss_last_eval rc, 0, told rc)"
    "list_all is_ack (ss_out S)" "sv_version (ss_service S) = sv_version (ss_service rc) + 1" "ss_advertise_pending S"
proof -
  let ?rc = "rc\<lparr>ss_pull_queue := ps, ss_out := []\<rparr>"
  obtain sd1 job where handed: "hand_over pfs (requester_step pfr rc) sd = (?rc, sd1\<lparr>
      ss_outstanding_serves := ss_outstanding_serves sd1 + 1, ss_serve_q := [job], ss_next_xid := ss_next_xid sd1 + 1\<rparr>)"
    and sd1: "ready sd1" "same sd1 sd" "ss_out sd1 = []" and job: "sj_rel_path job = p" "sj_sig job = offered_sig pfr rc p"
    by (rule request_travels [OF ready(1,2) pull held works])
  have rc: "ss_running rc" "\<not> ss_incompatible rc" "sv_tag (ss_service rc) = sv_tag (ss_service sd)" "ss_incoming rc = []"
    "ss_outstanding_serves rc = 0" "ss_pulling rc = p # ps" "distinct (p # ps)"
    using pull(1) by (simp_all add: puller_def)
  have served: "is_safe_relpath p" "length p < 65536" "length (df_data f) < 2 ^ 32"
    "\<And>g. disk rc p = Some g \<Longrightarrow> length (df_data g) < 2 ^ 32 \<and>
       separates (pf_sha pfs) (unat (or_default (cf_block_size (config rc)))) (df_data g) (df_data f)"
    using held by (simp_all add: servable_def)
  let ?queued = "sd1\<lparr>ss_outstanding_serves := ss_outstanding_serves sd1 + 1, ss_serve_q := [job], ss_next_xid := ss_next_xid sd1 + 1\<rparr>"
  let ?st = "?queued\<lparr>ss_serve_q := []\<rparr>" and ?sd = "sender_step pfs ?queued"
  have sd': "ready ?sd" "same ?sd sd" "ss_out ?sd = ss_out (serve_one pfs job ?st)"
    using serves [OF sd1(1) refl, where job = job and x = "ss_next_xid sd1 + 1" and pf = pfs] same_trans [OF _ sd1(2)] by simp_all
  have st: "ss_service ?st = ss_service sd" "ss_out ?st = []" "ss_running ?st"
    using sd1(3) same_service [OF sd1(2)] idle [OF sd1(1)] by simp_all
  have offer: "offers pfs ?rc job" "tells_apart pfs ?rc job (df_data f)"
    using offered_sig_offers [of job pfr rc pfs ?rc "df_data f"] job served(4) works by simp_all
  obtain S where S: "fold (deliver pfr) (ss_out (serve_one pfs job ?st)) ?rc = maybe_synced pfr S"
    "disk S = (disk ?rc)(p \<mapsto> f)"
    "sv_local (ss_service S) = man_set p (served_meta pfs ?st p f) (sv_local (ss_service ?rc))"
    "om_inv (ss_incoming S)" "om_find (ss_incoming S) = om_find (ss_incoming ?rc)"
    "aside S = (case aside ?rc of (v, qs, rest) \<Rightarrow> (v, removeAll p qs, rest))" "acked ?rc S"
    "sv_version (ss_service S) = sv_version (ss_service ?rc) + 1" "ss_advertise_pending S"
    by (rule serve_settles [of ?st job f pfs pfr ?rc, unfolded job(1)])
      (use ready(3) held(1) st rc served(1-3) works offer in \<open>simp_all add: platforms_ok_def\<close>)
  have "pull_turn pfs pfr (sd, rc) = (?sd\<lparr>ss_out := []\<rparr>, maybe_synced pfr S)"
    using handed sd'(3) S(1) by (simp add: pull_turn_def hand_over_def)
  moreover have "ready (?sd\<lparr>ss_out := []\<rparr>)" "same (?sd\<lparr>ss_out := []\<rparr>) sd"
    using flushed [OF sd'(1)] same_trans [OF _ sd'(2)] by simp_all
  moreover have "ss_incoming S = []"
    using om_empty [OF S(4)] S(5) rc(4) by simp
  moreover have "aside S = (view rc, ps, ps, True, ss_last_eval rc, 0, told rc)"
    using S(6) rc(1,5-7) by (simp add: aside_def told_def view_def)
  moreover have "list_all is_ack (ss_out S)"
    using S(7) by (simp add: acked_def)
  moreover have "served_meta pfs ?st p f = served_meta pfs sd p f"
    unfolding served_meta_def st(1) ..
  ultimately show thesis
    using that S(2,3,8,9) by simp
qed

lemma pulls_drain:
  assumes "ready sd" "ss_out sd = []" "cf_chunk_size (config sd) \<noteq> 0" "platforms_ok pfs pfr"
    and "puller sd ps rc" "list_all heard (ss_out rc)" "\<forall>p \<in> set ps. servable pfs sd rc p"
    and "om_inv (sv_local (ss_service rc))" "ps \<noteq> []" "ss_last_eval rc = None"
  shows "\<exists>sd' S. (pull_turn pfs pfr ^^ length ps) (sd, rc) = (sd', maybe_synced pfr S) \<and> ready sd' \<and> same sd' sd
    \<and> ss_out sd' = [] \<and> drained pfs sd ps rc S"
  using assms
proof (induction ps arbitrary: sd rc)
  case (Cons p ps)
  obtain f where f: "disk sd p = Some f" "servable pfs sd rc p"
    using Cons.prems(7) by (auto simp: servable_def split: option.splits)
  obtain sd1 S where S: "pull_turn pfs pfr (sd, rc) = (sd1, maybe_synced pfr S)"
    "ready sd1" "same sd1 sd" "ss_out sd1 = []" "disk S = (disk rc)(p \<mapsto> f)"
    "sv_local (ss_service S) = man_set p (served_meta pfs sd p f) (sv_local (ss_service rc))"
    "ss_incoming S = []" "aside S = (view rc, ps, ps, True, ss_last_eval rc, 0, told rc)"
    "list_all is_ack (ss_out S)" "sv_version (ss_service S) = sv_version (ss_service rc) + 1" "ss_advertise_pending S"
    by (rule pull_turn_settles [OF Cons.prems(1-3,5,6) f Cons.prems(4)])
  note service = same_service [OF S(3)]
  have local: "om_inv (sv_local (ss_service S))"
    "om_find (sv_local (ss_service S)) = (om_find (sv_local (ss_service rc)))(p \<mapsto> served_meta pfs sd p f)"
    unfolding S(6) man_set_def
    by (rule om.inv_assign [OF Cons.prems(8)], rule om.find_assign [OF Cons.prems(8)])
  show ?case
  proof (cases "ps = []")
    case True
    then have "drained pfs sd (p # ps) rc S"
      using S local f(1) Cons.prems(10) by (auto simp: drained_def fun_eq_iff)
    then show ?thesis
      using True S(1-4) by auto
  next
    case False
    define rc1 where "rc1 = S\<lparr>ss_last_eval := None\<rparr>"
    note goes_on = next_pull [OF Cons.prems(5) False S(8,7,5) service Cons.prems(7), folded rc1_def]
    have rc1: "ss_service rc1 = ss_service S" "ss_out rc1 = ss_out S" "view rc1 = view rc" "told rc1 = told rc"
      using S(8) by (simp_all add: rc1_def aside_def view_def told_def)
    have "list_all heard (ss_out rc1)"
      using S(9) hears_ack by (auto simp: rc1(2) list_all_iff)
    then obtain sd' T where run: "(pull_turn pfs pfr ^^ length ps) (sd1, rc1) = (sd', maybe_synced pfr T)"
      "ready sd'" "same sd' sd1" "ss_out sd' = []" "drained pfs sd1 ps rc1 T"
      using Cons.IH [OF S(2,4) _ Cons.prems(4), of rc1] goes_on(2,3) Cons.prems(3) service local(1) False rc1(1)
      by (auto simp: rc1_def)
    have "(pull_turn pfs pfr ^^ length (p # ps)) (sd, rc) = (sd', maybe_synced pfr T)"
      using run(1) S(1) goes_on(1) by (simp add: funpow_Suc_right del: funpow.simps(2))
    moreover have "served_meta pfs sd1 = served_meta pfs sd"
      by (simp add: served_meta_def service fun_eq_iff)
    then have "drained pfs sd (p # ps) rc T"
      using run(5) service local(2) f(1) S(5,10) rc1(1,3,4) by (auto simp: drained_def fun_eq_iff)
    ultimately show ?thesis
      using run(2-4) same_trans [OF run(3) S(3)] by blast
  qed
qed simp

end

section \<open>The source of a mirror\<close>

text \<open>The authoritative side of a mirror, waiting for requests.\<close>

definition source_ready :: "session \<Rightarrow> bool" where
  "source_ready sd \<longleftrightarrow> cf_mode (config sd) = Mirror \<and> cf_source (config sd) \<and> ss_running sd
     \<and> \<not> ss_incompatible sd \<and> ss_serve_q sd = [] \<and> ss_pulling sd = [] \<and> \<not> ss_advertise_pending sd"

text \<open>What it keeps whatever quiet messages arrive.\<close>

definition seat :: "session \<Rightarrow> service \<times> serve list \<times> u64 \<times> bool \<times> bool \<times> path list \<times> bool" where
  "seat sd = (ss_service sd, ss_serve_q sd, ss_next_xid sd, ss_running sd, ss_incompatible sd, ss_pulling sd,
     ss_advertise_pending sd)"

definition core :: "session \<Rightarrow> (service \<times> serve list \<times> u64 \<times> bool \<times> bool \<times> path list \<times> bool) \<times> bytes list" where
  "core sd = (seat sd, ss_out sd)"

lemma core_ready: "core s = core t \<Longrightarrow> source_ready s = source_ready t"
  by (simp add: core_def seat_def source_ready_def)

lemma core_evaluate:
  assumes "cf_mode (config sd) = Mirror"
  shows "core (evaluate pf sd) = core sd"
  using assms by (simp add: evaluate_def announce_synced_def Let_def core_def seat_def emit_def)

lemma core_maybe_synced:
  assumes "cf_mode (config sd) = Mirror" "\<not> ss_advertise_pending sd"
  shows "core (maybe_synced pf sd) = core sd"
  using assms by (simp add: maybe_synced_def core_evaluate) (simp add: core_def seat_def)

lemma source_plan:
  assumes "ro_mode opt = Mirror" "ro_source opt"
  shows "pl_pull (reconcile b l r opt) = []" "pl_delete_local (reconcile b l r opt) = []"
  using assms by (simp_all add: reconcile_lists filter_empty_conv kind_of_mirror decide_mirror_def)

lemma core_update:
  assumes "source_ready sd"
  shows "core (handle_manifest_update pf r sd) = core sd"
proof -
  have "core (reconcile_and_act pf s) = core s" if "core s = core sd" for s
  proof -
    have "source_ready s" using core_ready [OF that] assms by simp
    then have opt: "ro_mode (opts_of (config s)) = Mirror" "ro_source (opts_of (config s))"
      and s: "cf_mode (config s) = Mirror" "\<not> ss_advertise_pending s"
      by (simp_all add: source_ready_def opts_of_def)
    have "core (maybe_synced pf (emit ev s)) = core s" for ev
      using core_maybe_synced [of "emit ev s" pf] s by (simp add: emit_def core_def seat_def)
    then show ?thesis
      by (simp add: reconcile_and_act_def Let_def source_plan [OF opt])
  qed
  moreover have "core s = core sd" if "stage_update flags patch sd = (s, c)" for flags patch s c
    using that by (auto simp: stage_update_def core_def seat_def Let_def split: if_splits)
  ultimately show ?thesis
    by (auto simp: handle_manifest_update_def Let_def split: prod.splits option.splits)
qed

lemma core_ack: "core (handle_file_ack r sd) = core sd"
  by (simp add: handle_file_ack_def Let_def core_def seat_def split: prod.splits)

lemma core_quiet:
  assumes "source_ready sd" "quiet m"
  shows "core (deliver pf m sd) = core sd"
proof -
  obtain t op body where m: "m = message t op @ body" "op = ManifestUpdate \<or> op = FileAck"
    using assms(2) by (auto simp: quiet_def)
  have "deliver pf m sd = (if t = sv_tag (ss_service sd) then handle pf op (rd body) sd else sd)"
    by (simp add: m(1) deliver_def reader_of_def codec_simps kHeaderBytes_def Let_def)
  then show ?thesis
    using m(2) core_update [OF assms(1)] core_ack by (auto simp: handle_def)
qed

text \<open>Serving a file leaves the end that serves as it is, messages, events and the send window aside.\<close>

definition still :: "session \<Rightarrow> session" where
  "still st = st\<lparr>ss_out := [], ss_events := [], ss_cur_xid := 0, ss_cur_sent := 0, ss_cur_acked := 0\<rparr>"

lemma still_sends [simp]: "still (send_msg w st) = still st" "still (emit ev st) = still st"
  by (simp_all add: still_def send_msg_def emit_def)

lemma still_literals: "still (fold (send_literal xid) ds st) = still st"
proof (induction ds arbitrary: st)
  case (Cons d ds)
  have "still (send_literal xid d st) = still st"
    by (simp add: send_literal_def note_sent_def still_def send_msg_def)
  with Cons show ?case by simp
qed simp

lemma still_ops: "still (fold (send_op chunk xid) ops st) = still st"
  by (induction ops arbitrary: st) (simp_all add: send_op_def still_literals)

lemma still_serve_whole: "still (serve_whole pf job f mode st) = still st"
  by (simp add: serve_whole_def decline_def Let_def still_literals)

lemma still_serve_delta: "still (serve_delta pf job sig f mode st) = still st"
  by (simp add: serve_delta_def Let_def still_serve_whole still_ops)

lemma still_serve_one: "still (serve_one pf job st) = still st"
  by (simp add: serve_one_def decline_def Let_def still_serve_whole still_serve_delta split: option.split)
    (simp add: still_def)

lemma still_seat: "still s = still t \<Longrightarrow> seat s = seat t"
  by (cases s; cases t) (simp add: still_def seat_def)

lemma seat_serve_one: "seat (serve_one pf job st) = seat st"
  by (rule still_seat [OF still_serve_one])

lemma sender_turn:
  assumes "source_ready (st\<lparr>ss_serve_q := []\<rparr>)" "ss_serve_q st = [job]"
  shows "core (sender_step pf st) = (seat (st\<lparr>ss_serve_q := []\<rparr>), ss_out (serve_one pf job (st\<lparr>ss_serve_q := []\<rparr>)))"
proof -
  let ?S = "serve_one pf job (st\<lparr>ss_serve_q := []\<rparr>)"
  have seat: "seat ?S = seat (st\<lparr>ss_serve_q := []\<rparr>)"
    by (rule seat_serve_one)
  then have "cf_mode (config ?S) = Mirror" "\<not> ss_advertise_pending ?S"
    using assms(1) by (simp_all add: seat_def source_ready_def)
  then have "core (maybe_synced pf (?S\<lparr>ss_outstanding_serves := n\<rparr>)) = core ?S" for n
    using core_maybe_synced [of "?S\<lparr>ss_outstanding_serves := n\<rparr>" pf] by (simp add: core_def seat_def)
  then show ?thesis
    using assms(2) seat by (simp add: sender_step_def Let_def core_def)
qed

text \<open>It is an end that serves, whatever quiet messages it hears.\<close>

interpretation mirror_source: serving_end source_ready quiet "\<lambda>s t. ss_service s = ss_service t"
proof
  fix sd m pf
  assume ready: "source_ready sd" and "quiet m"
  then have core: "core (deliver pf m sd) = core sd"
    by (rule core_quiet)
  then show "source_ready (deliver pf m sd) \<and> ss_service (deliver pf m sd) = ss_service sd
      \<and> ss_out (deliver pf m sd) = ss_out sd"
    using core_ready [OF core] ready by (simp add: core_def seat_def)
next
  fix sd queued job x pf
  assume ready: "source_ready sd" and queued: "queued = sd\<lparr>ss_outstanding_serves := ss_outstanding_serves sd + 1,
        ss_serve_q := [job], ss_next_xid := x\<rparr>"
  let ?st = "queued\<lparr>ss_serve_q := []\<rparr>"
  have st: "source_ready ?st" "ss_service ?st = ss_service sd"
    using ready by (simp_all add: queued source_ready_def)
  have turn: "core (sender_step pf queued) = (seat ?st, ss_out (serve_one pf job ?st))"
    by (rule sender_turn [OF st(1)]) (simp add: queued)
  then have "seat (sender_step pf queued) = seat ?st"
    by (simp add: core_def)
  then have "source_ready (sender_step pf queued) \<and> ss_service (sender_step pf queued) = ss_service sd"
    using st by (simp add: seat_def source_ready_def)
  with turn show "source_ready (sender_step pf queued) \<and> ss_service (sender_step pf queued) = ss_service sd
      \<and> ss_out (sender_step pf queued) = ss_out (serve_one pf job ?st)"
    by (simp add: core_def)
qed (auto simp: source_ready_def is_ack_def quiet_ack)

text \<open>The replica's pulls from it, with the convergence check behind the last one.\<close>

lemma mirror_pulls:
  assumes "source_ready sd" "ss_out sd = []" "cf_chunk_size (config sd) \<noteq> 0" "platforms_ok pfs pfr"
    and "puller sd ps rc" "hushed rc" "\<forall>p \<in> set ps. servable pfs sd rc p" "om_inv (sv_local (ss_service rc))"
    and "ps \<noteq> [] \<longrightarrow> ss_last_eval rc = None"
  obtains sd' rc' where "(pull_turn pfs pfr ^^ length ps) (sd, rc) = (sd', rc')" "ss_service sd' = ss_service sd"
    "view rc' = view rc" "ss_pulling rc' = []" "ss_incoming rc' = []"
    "disk rc' = (\<lambda>p. if p \<in> set ps then disk sd p else disk rc p)" "om_inv (sv_local (ss_service rc'))"
    "om_find (sv_local (ss_service rc')) = (\<lambda>p. if p \<in> set ps then Some (served_meta pfs sd p (the (disk sd p)))
       else om_find (sv_local (ss_service rc)) p)"
    "ps \<noteq> [] \<and> ss_have_remote rc \<and> same_tree (sv_local (ss_service rc')) (ss_remote rc') \<longrightarrow> announced pfr rc'"
proof (cases "ps = []")
  case True
  then show thesis
    using that [of sd rc] assms(5,8) by (simp add: puller_def)
next
  case False
  obtain sd' S where run: "(pull_turn pfs pfr ^^ length ps) (sd, rc) = (sd', maybe_synced pfr S)"
    "ss_service sd' = ss_service sd" "drained pfs sd ps rc S"
    using mirror_source.pulls_drain [OF assms(1-5) _ assms(7,8) False] assms(6,9) False by (auto simp: hushed_def)
  let ?rc = "maybe_synced pfr S"
  have S: "view S = view rc" "ss_pulling S = []" "ss_incoming S = []" "ss_outstanding_serves S = 0" "ss_last_eval S = None"
    using run(3) by (simp_all add: drained_def aside_def)
  have "announced pfr ?rc" if "ss_have_remote rc" "same_tree (sv_local (ss_service ?rc)) (ss_remote ?rc)"
    using maybe_synced_announces [of S pfr] S that view_fields(1,2) [OF S(1)]
    by (simp add: announced_def frame own_fields [OF own_maybe_synced] view_fields [OF view_maybe_synced])
  then show thesis
    using that [OF run(1,2)] run(3) S
    by (simp add: drained_def frame own_fields [OF own_maybe_synced])
qed

section \<open>The round that starts them\<close>

lemma deletes_done:
  assumes "\<And>p. pf_remove pf p"
  shows "fst (fold (delete_local pf) ps sm) = on_service (\<lambda>sv. sv\<lparr>
      sv_disk := (\<lambda>q. if q \<in> set ps then None else sv_disk sv q), sv_local := fold man_remove ps (sv_local sv),
      sv_version := sv_version sv + of_nat (length ps)\<rparr>) (fst sm)"
    and "snd (fold (delete_local pf) ps sm) \<longleftrightarrow> ps \<noteq> [] \<or> snd sm"
proof (induction ps arbitrary: sm)
  case (Cons p ps)
  case 1
  show ?case
    using Cons assms by (auto simp: delete_local_def note_local_removed_def bump_def fun_eq_iff intro!: session.equality service.equality)
  case 2
  show ?case
    using Cons assms by (simp add: delete_local_def)
qed simp_all

lemma pulls_queued:
  assumes "distinct (ss_pulling st @ ps)"
  shows "fold queue_pull ps st = st\<lparr>ss_pulling := ss_pulling st @ ps, ss_pull_queue := ss_pull_queue st @ ps\<rparr>"
  using assms
proof (induction ps arbitrary: st)
  case (Cons p ps)
  have "queue_pull p st = st\<lparr>ss_pulling := ss_pulling st @ [p], ss_pull_queue := ss_pull_queue st @ [p]\<rparr>"
    using Cons.prems by (simp add: queue_pull_def)
  with Cons.IH [of "queue_pull p st"] Cons.prems show ?case
    by simp
qed simp

lemma plan_distinct: "distinct (pl_pull (reconcile b l r opt))"
  using union_keys_sorted by (simp add: reconcile_lists round_keys_def strict_sorted_iff)

text \<open>A replica with nothing under way.\<close>

definition replica_ready :: "session \<Rightarrow> bool" where
  "replica_ready rc \<longleftrightarrow> cf_mode (config rc) = Mirror \<and> \<not> cf_source (config rc) \<and> cf_propagate_deletes (config rc)
     \<and> cf_max_pending_pulls (config rc) \<noteq> 0 \<and> ss_running rc \<and> \<not> ss_incompatible rc \<and> \<not> ss_staging_active rc
     \<and> ss_pulling rc = [] \<and> ss_pull_queue rc = [] \<and> ss_incoming rc = [] \<and> ss_outstanding_serves rc = 0
     \<and> hushed rc \<and> (\<forall>v. ss_last_eval rc \<noteq> Some (v, ss_remote_version rc + 1))"

abbreviation plan_of :: "session \<Rightarrow> manifest \<Rightarrow> sync_plan" where
  "plan_of rc m \<equiv> reconcile (sv_base (ss_service rc)) (sv_local (ss_service rc)) m (opts_of (config rc))"

text \<open>The state a round leaves before its convergence check, and before what it has to tell when it deleted
  something.\<close>

definition round_done :: "session \<Rightarrow> session" where
  "round_done c =
     (let plan = plan_of c (ss_remote c)
      in (on_service (\<lambda>sv. sv\<lparr>sv_disk := (\<lambda>p. if p \<in> set (pl_delete_local plan) then None else sv_disk sv p),
            sv_local := fold man_remove (pl_delete_local plan) (sv_local sv),
            sv_version := sv_version sv + of_nat (length (pl_delete_local plan))\<rparr>) (emit (Round plan) c))
           \<lparr>ss_pulling := pl_pull plan, ss_pull_queue := pl_pull plan\<rparr>)"

lemma round_moves:
  assumes "ss_have_remote c" "ss_pulling c = []" "ss_pull_queue c = []" "\<And>p. pf_remove pf p"
  shows "reconcile_and_act pf c = maybe_synced pf
    (if pl_delete_local (plan_of c (ss_remote c)) = [] then round_done c else advertise (round_done c))"
proof -
  let ?plan = "plan_of c (ss_remote c)"
  obtain s1 mutated where del: "fold (delete_local pf) (pl_delete_local ?plan) (emit (Round ?plan) c, False) = (s1, mutated)"
    by force
  have s1: "s1 = on_service (\<lambda>sv. sv\<lparr>
      sv_disk := (\<lambda>q. if q \<in> set (pl_delete_local ?plan) then None else sv_disk sv q),
      sv_local := fold man_remove (pl_delete_local ?plan) (sv_local sv),
      sv_version := sv_version sv + of_nat (length (pl_delete_local ?plan))\<rparr>) (emit (Round ?plan) c)"
    and mutated: "mutated \<longleftrightarrow> pl_delete_local ?plan \<noteq> []"
    using deletes_done [OF assms(4), of "pl_delete_local ?plan" "(emit (Round ?plan) c, False)"]
    unfolding del fst_conv snd_conv by simp_all
  have "fold queue_pull (pl_pull ?plan) s1 = s1\<lparr>ss_pulling := pl_pull ?plan, ss_pull_queue := pl_pull ?plan\<rparr>"
    using pulls_queued [of s1 "pl_pull ?plan"] assms(2,3) plan_distinct by (simp add: s1 emit_def)
  also have "\<dots> = round_done c"
    by (simp only: s1 round_done_def Let_def)
  finally show ?thesis
    using assms(1) del mutated by (simp add: reconcile_and_act_def Let_def)
qed

lemma round_acts:
  assumes "replica_ready rc" "\<And>p. pf_remove pf p" "rc1 = committed staged m rc"
  obtains S where "reconcile_and_act pf rc1 = maybe_synced pf S"
    "disk S = (\<lambda>p. if p \<in> set (pl_delete_local (plan_of rc m)) then None else disk rc p)"
    "sv_local (ss_service S) = fold man_remove (pl_delete_local (plan_of rc m)) (sv_local (ss_service rc))"
    "ss_incoming S = []" "view S = view rc1" "ss_running S" "ss_outstanding_serves S = 0" "hushed S"
    "ss_pulling S = pl_pull (plan_of rc m)" "ss_pull_queue S = pl_pull (plan_of rc m)" "ss_last_eval S = ss_last_eval rc"
proof -
  let ?plan = "plan_of rc m" and ?s = "round_done rc1"
  have rc1: "ss_service rc1 = ss_service rc" "ss_have_remote rc1" "ss_remote rc1 = m" "ss_incoming rc1 = []"
    "ss_running rc1" "ss_outstanding_serves rc1 = 0" "ss_pulling rc1 = []" "ss_pull_queue rc1 = []"
    "ss_last_eval rc1 = ss_last_eval rc" "hushed rc1"
    using assms(1) by (simp_all add: assms(3) committed_def replica_ready_def hushed_def)
  define S where "S = (if pl_delete_local ?plan = [] then ?s else advertise ?s)"
  have "reconcile_and_act pf rc1 = maybe_synced pf S"
    using round_moves [OF rc1(2,7,8) assms(2)] rc1(1,3) by (simp add: S_def)
  moreover have "own S = own ?s" "view S = view ?s" "ss_running S = ss_running ?s"
    "ss_outstanding_serves S = ss_outstanding_serves ?s" "ss_last_eval S = ss_last_eval ?s"
    by (simp_all add: S_def frame) (simp_all add: advertise_def Let_def frame)
  moreover have "hushed ?s"
    using rc1(10) by (simp add: round_done_def Let_def hushed_def emit_def)
  then have "hushed S"
    by (simp add: S_def hushed_advertise)
  moreover have "own ?s = ((\<lambda>p. if p \<in> set (pl_delete_local ?plan) then None else disk rc p),
      fold man_remove (pl_delete_local ?plan) (sv_local (ss_service rc)), sv_temp (ss_service rc), pl_pull ?plan, pl_pull ?plan, [])"
    "view ?s = view rc1" "ss_running ?s" "ss_outstanding_serves ?s = 0" "ss_last_eval ?s = ss_last_eval rc"
    using rc1 by (simp_all add: own_def round_done_def Let_def emit_def view_def cong: if_cong)
  ultimately show thesis
    using that by (simp add: own_def)
qed

section \<open>From the first message to agreement\<close>

text \<open>A manifest that describes the tree, a tree of files the 32-bit counters hold, and contents SHA-256
  tells apart, whole and block by block.\<close>

definition truthful :: "platform \<Rightarrow> session \<Rightarrow> bool" where
  "truthful pf st \<longleftrightarrow> (\<forall>p m. man_find (sv_local (ss_service st)) p = Some m \<longrightarrow>
     (\<exists>f. disk st p = Some f \<and> fm_size m = of_nat (length (df_data f)) \<and> fm_mtime m = df_mtime f
        \<and> fm_hash m = pf_sha pf (df_data f)))"

lemma truthful_file:
  assumes "truthful pf st" "om_find (sv_local (ss_service st)) p = Some m"
  obtains f where "disk st p = Some f" "fm_size m = of_nat (length (df_data f))" "fm_mtime m = df_mtime f"
    "fm_hash m = pf_sha pf (df_data f)"
  using assms unfolding truthful_def man_find_om by blast

definition small_files :: "session \<Rightarrow> bool" where
  "small_files st \<longleftrightarrow> (\<forall>p f. disk st p = Some f \<longrightarrow> length (df_data f) < 2 ^ 32)"

definition told_apart :: "platform \<Rightarrow> session \<Rightarrow> session \<Rightarrow> bool" where
  "told_apart pf sd rc \<longleftrightarrow> (\<forall>p f g. disk sd p = Some f \<longrightarrow> disk rc p = Some g \<longrightarrow>
     (pf_sha pf (df_data f) = pf_sha pf (df_data g) \<longrightarrow> df_data f = df_data g)
     \<and> separates (pf_sha pf) (unat (or_default (cf_block_size (config rc)))) (df_data g) (df_data f))"

text \<open>What an end tracks it can serve, as long as neither end's file has changed or the puller's is gone.\<close>

lemma tracked_servable:
  assumes "om_find (sv_local (ss_service sd)) p \<noteq> None" "syncable (sv_local (ss_service sd))"
    and "truthful pfs sd" "small_files sd" "small_files rc" "told_apart pfs sd rc"
    and "disk rc' p = disk rc p \<or> disk rc' p = None" "config rc' = config rc" "disk sd' p = disk sd p"
  shows "servable pfs sd' rc' p"
proof -
  obtain m where m: "om_find (sv_local (ss_service sd)) p = Some m"
    using assms(1) by blast
  obtain f where f: "disk sd p = Some f"
    by (rule truthful_file [OF assms(3) m])
  then have len: "length (df_data f) < 2 ^ 32"
    using assms(4) by (simp add: small_files_def)
  have inv: "om_inv (sv_local (ss_service sd))"
    using assms(2) by (simp add: syncable_def valid_manifest_def)
  have "(p, m) \<in> set (sv_local (ss_service sd))"
    using om_find_Some [OF inv, of p m] m by blast
  then have "is_safe_relpath p" "length p < 65536"
    using assms(2) by (auto simp: syncable_def valid_manifest_def valid_entry_def list_all_iff)
  then show ?thesis
    using f len assms(5-9) unfolding servable_def
    by (auto simp: small_files_def told_apart_def split: option.split)
qed

text \<open>A replica's plan, path by path.\<close>

lemma replica_kind:
  assumes "ro_mode opt = Mirror" "\<not> ro_source opt" "ro_propagate_deletes opt"
  shows "kind_of opt b l r p = (case om_find r p of None \<Rightarrow> DeleteLocal
    | Some m \<Rightarrow> if agree (om_find l p) (Some m) then NoAction else Pull)"
  using assms by (cases "om_find l p"; cases "om_find r p") (simp_all add: kind_of_mirror decide_mirror_def)

lemma replica_plan:
  assumes "ro_mode opt = Mirror" "\<not> ro_source opt" "ro_propagate_deletes opt"
  shows "p \<in> set (pl_pull (reconcile b l r opt)) \<longleftrightarrow> om_find r p \<noteq> None \<and> \<not> agree (om_find l p) (om_find r p)"
    and "p \<in> set (pl_delete_local (reconcile b l r opt)) \<longleftrightarrow> om_find r p = None \<and> om_find l p \<noteq> None"
  unfolding reconcile_lists set_filter mem_Collect_eq replica_kind [OF assms] round_keys_set
  using assms(1) by (auto simp: round_base_def split: option.splits)

text \<open>The first update of a connection, handed over.\<close>

lemma first_update:
  assumes "source_ready sd" "ss_out sd = []" "\<not> ss_last_sent_valid sd" "syncable (sv_local (ss_service sd))"
    and "replica_ready rc" "sv_tag (ss_service rc) = sv_tag (ss_service sd)"
  obtains sd0 staged where "hand_over pf (advertise sd) rc =
      (sd0, reconcile_and_act pf (committed staged (sv_local (ss_service sd)) rc))"
    "source_ready sd0" "ss_out sd0 = []" "disk sd0 = disk sd" "sv_local (ss_service sd0) = sv_local (ss_service sd)"
    "config sd0 = config sd" "sv_tag (ss_service sd0) = sv_tag (ss_service sd)"
proof -
  let ?sd = "sd\<lparr>ss_last_sent_version := sv_version (ss_service sd)\<rparr>" and ?m = "sv_local (ss_service sd)"
  have patch: "next_patch sd = \<lparr>mp_set = ?m, mp_removed = []\<rparr>" "good_patch (next_patch sd)"
    "man_apply (next_patch sd) [] = ?m"
    using assms(3,4) good_patch_whole man_apply_whole by (simp_all add: next_patch_def syncable_def valid_manifest_def)
  have out: "ss_out (send_update (next_patch sd) True ?sd) = ss_out ?sd @ ss_out (advertise sd)"
    using assms(2,3) by (cases rule: advertise_cases [of sd]) simp_all
  have "\<not> ss_incompatible rc" "\<not> ss_staging_active rc"
    "sv_tag (ss_service rc) = sv_tag (ss_service ?sd)"
    using assms by (simp_all add: replica_ready_def)
  from update_arrives [OF patch(2) this(1,3,2) out, of pf] obtain staged where
    "fold (deliver pf) (ss_out (advertise sd)) rc = reconcile_and_act pf (committed staged ?m rc)"
    using patch(3) by auto
  moreover have "source_ready ((advertise sd)\<lparr>ss_out := []\<rparr>)"
    using assms(1) by (simp add: source_ready_def advertise_def Let_def frame)
  moreover have "disk (advertise sd) = disk sd" "config (advertise sd) = config sd"
    using own_fields(1) [OF own_advertise] view_fields(7) [OF view_advertise] by simp_all
  ultimately show thesis
    using that [of "(advertise sd)\<lparr>ss_out := []\<rparr>" staged] by (simp add: hand_over_def frame)
qed

text \<open>The whole run: the update, the round it starts, and one pull for each path the plan asks for.\<close>

definition sync_ready :: "platform \<Rightarrow> platform \<Rightarrow> session \<Rightarrow> session \<Rightarrow> bool" where
  "sync_ready pfs pfr sd rc \<longleftrightarrow> source_ready sd \<and> ss_out sd = [] \<and> \<not> ss_last_sent_valid sd
     \<and> syncable (sv_local (ss_service sd)) \<and> cf_chunk_size (config sd) \<noteq> 0 \<and> replica_ready rc
     \<and> om_inv (sv_local (ss_service rc)) \<and> sv_tag (ss_service rc) = sv_tag (ss_service sd)
     \<and> platforms_ok pfs pfr \<and> (\<forall>p. pf_remove pfr p)
     \<and> truthful pfs sd \<and> truthful pfr rc \<and> small_files sd \<and> small_files rc \<and> told_apart pfs sd rc"

lemma wanted_servable:
  assumes "sync_ready pfs pfr sd rc" "p \<in> set (pl_pull (plan_of rc (sv_local (ss_service sd))))"
    and "disk rc' p = disk rc p \<or> disk rc' p = None" "config rc' = config rc" "disk sd' p = disk sd p"
  shows "servable pfs sd' rc' p"
proof (rule tracked_servable [OF _ _ _ _ _ _ assms(3-5)])
  show "om_find (sv_local (ss_service sd)) p \<noteq> None"
    using assms(1,2) replica_plan(1) [of "opts_of (config rc)"]
    by (auto simp: sync_ready_def replica_ready_def opts_of_def)
qed (use assms(1) in \<open>simp_all add: sync_ready_def\<close>)

text \<open>A served entry is the source's own.\<close>

lemma served_meta_truthful:
  assumes "truthful pf sd" "om_find (sv_local (ss_service sd)) p = Some m"
  shows "served_meta pf sd p (the (disk sd p)) = m"
proof (rule truthful_file [OF assms])
  fix f
  assume "disk sd p = Some f" "fm_size m = of_nat (length (df_data f))" "fm_mtime m = df_mtime f"
    "fm_hash m = pf_sha pf (df_data f)"
  then show ?thesis
    using assms(2) by (cases m) (simp add: served_meta_def man_find_om)
qed

text \<open>Where the manifests agree, the files do.\<close>

lemma same_data:
  assumes "truthful pf sd" "truthful pf' rc" "told_apart pf sd rc" "pf_sha pf' = pf_sha pf"
    and "agree (om_find (sv_local (ss_service rc)) p) (om_find (sv_local (ss_service sd)) p)"
    and "om_find (sv_local (ss_service sd)) p \<noteq> None"
  shows "map_option df_data (disk rc p) = map_option df_data (disk sd p)"
proof -
  obtain m n where mn: "om_find (sv_local (ss_service sd)) p = Some m" "om_find (sv_local (ss_service rc)) p = Some n"
    "same_content n m"
    using assms(5,6) by (cases "om_find (sv_local (ss_service sd)) p"; cases "om_find (sv_local (ss_service rc)) p") auto
  obtain f where f: "disk sd p = Some f" "fm_hash m = pf_sha pf (df_data f)"
    by (rule truthful_file [OF assms(1) mn(1)])
  obtain g where g: "disk rc p = Some g" "fm_hash n = pf_sha pf' (df_data g)"
    by (rule truthful_file [OF assms(2) mn(2)])
  have "df_data f = df_data g"
    using assms(3,4) f g mn(3) by (auto simp: told_apart_def same_content_def)
  then show ?thesis
    using f(1) g(1) by simp
qed

text \<open>The replica behind the first round: what it deleted is gone, and its pulls can be served.\<close>

lemma replica_starts:
  assumes ready: "sync_ready pfs pfr sd rc"
  defines "plan \<equiv> plan_of rc (sv_local (ss_service sd))"
  obtains sd0 rc0 where "hand_over pfr (advertise sd) rc = (sd0, rc0)" "source_ready sd0" "ss_out sd0 = []"
    "disk sd0 = disk sd" "sv_local (ss_service sd0) = sv_local (ss_service sd)" "cf_chunk_size (config sd0) \<noteq> 0"
    "puller sd0 (pl_pull plan) rc0" "hushed rc0" "\<forall>p \<in> set (pl_pull plan). servable pfs sd0 rc0 p"
    "disk rc0 = (\<lambda>p. if p \<in> set (pl_delete_local plan) then None else disk rc p)"
    "sv_local (ss_service rc0) = fold man_remove (pl_delete_local plan) (sv_local (ss_service rc))"
    "ss_remote rc0 = sv_local (ss_service sd)" "ss_have_remote rc0" "pl_pull plan \<noteq> [] \<longrightarrow> ss_last_eval rc0 = None"
    "pl_pull plan = [] \<and> same_tree (sv_local (ss_service rc0)) (sv_local (ss_service sd)) \<longrightarrow> announced pfr rc0"
proof -
  let ?m = "sv_local (ss_service sd)"
  have r: "source_ready sd" "ss_out sd = []" "\<not> ss_last_sent_valid sd" "syncable ?m" "replica_ready rc"
    "sv_tag (ss_service rc) = sv_tag (ss_service sd)" "\<And>p. pf_remove pfr p" "cf_chunk_size (config sd) \<noteq> 0"
    using ready by (simp_all add: sync_ready_def)
  obtain sd0 staged where start: "hand_over pfr (advertise sd) rc = (sd0, reconcile_and_act pfr (committed staged ?m rc))"
    "source_ready sd0" "ss_out sd0 = []" "disk sd0 = disk sd" "sv_local (ss_service sd0) = ?m"
    "config sd0 = config sd" "sv_tag (ss_service sd0) = sv_tag (ss_service sd)"
    by (rule first_update [OF r(1-6)])
  obtain S where S: "reconcile_and_act pfr (committed staged ?m rc) = maybe_synced pfr S"
    "disk S = (\<lambda>p. if p \<in> set (pl_delete_local plan) then None else disk rc p)"
    "sv_local (ss_service S) = fold man_remove (pl_delete_local plan) (sv_local (ss_service rc))"
    "ss_incoming S = []" "view S = view (committed staged ?m rc)" "ss_running S" "ss_outstanding_serves S = 0" "hushed S"
    "ss_pulling S = pl_pull plan" "ss_pull_queue S = pl_pull plan" "ss_last_eval S = ss_last_eval rc"
    unfolding plan_def by (rule round_acts [OF r(5,7) refl])
  let ?rc = "maybe_synced pfr S"
  have view: "view ?rc = view (committed staged ?m rc)"
    using S(5) by (simp add: frame)
  note fields = own_fields [OF own_maybe_synced [of pfr S]]
  have seen: "config ?rc = config rc" "ss_remote ?rc = ?m" "ss_have_remote ?rc" "\<not> ss_incompatible ?rc"
    "sv_tag (ss_service ?rc) = sv_tag (ss_service rc)"
    using view_fields [OF view] r(5) by (simp_all add: committed_def replica_ready_def)
  have "puller sd0 (pl_pull plan) ?rc"
    using fields maybe_synced_keeps [of pfr S] S(4,6,7,9,10) seen start(7) r(5,6) plan_distinct
    by (simp add: puller_def replica_ready_def plan_def)
  moreover have "\<forall>p \<in> set (pl_pull plan). servable pfs sd0 ?rc p"
    using wanted_servable [OF ready] seen(1) start(4) fields(1) S(2) by (simp add: plan_def)
  moreover have "announced pfr ?rc" if "pl_pull plan = []" "same_tree (sv_local (ss_service ?rc)) ?m"
  proof -
    have "ss_remote S = ?m" "ss_have_remote S" "ss_remote_version S = ss_remote_version rc + 1"
      using S(5) by (simp_all add: view_def committed_def)
    then have "ss_last_synced ?rc = Some (fingerprint (pf_sha pfr) (sv_local (ss_service S)))"
      using S(4,7,9,11) that fields(2) r(5) by (intro maybe_synced_announces) (simp_all add: replica_ready_def)
    then show ?thesis
      using fields(2) by (simp add: announced_def)
  qed
  ultimately show thesis
    using that [of sd0 ?rc] start S(1-3) fields(1,2) seen(2,3) r(8) hushed_maybe_synced [OF S(8)]
      maybe_synced_waits [of S pfr] S(9) by simp
qed

lemma sync_run_result:
  assumes ready: "sync_ready pfs pfr sd rc"
  defines "plan \<equiv> plan_of rc (sv_local (ss_service sd))"
  obtains sd' rc' where "sync_run pfs pfr (length (pl_pull plan)) (sd, rc) = (sd', rc')"
    "disk sd' = disk sd" "sv_local (ss_service sd') = sv_local (ss_service sd)"
    "disk rc' = (\<lambda>p. if p \<in> set (pl_pull plan) then disk sd p else if p \<in> set (pl_delete_local plan) then None else disk rc p)"
    "om_inv (sv_local (ss_service rc'))"
    "\<forall>p. om_find (sv_local (ss_service rc')) p = (if p \<in> set (pl_pull plan) then om_find (sv_local (ss_service sd)) p
       else if p \<in> set (pl_delete_local plan) then None else om_find (sv_local (ss_service rc)) p)"
    "ss_pulling rc' = []" "ss_incoming rc' = []" "ss_remote rc' = sv_local (ss_service sd)"
    "same_tree (sv_local (ss_service rc')) (sv_local (ss_service sd)) \<longrightarrow> announced pfr rc'"
proof -
  let ?m = "sv_local (ss_service sd)"
  have r: "truthful pfs sd" "replica_ready rc" "platforms_ok pfs pfr" "om_inv (sv_local (ss_service rc))"
    using ready by (simp_all add: sync_ready_def)
  obtain sd0 rc0 where start: "hand_over pfr (advertise sd) rc = (sd0, rc0)" "source_ready sd0" "ss_out sd0 = []"
    "disk sd0 = disk sd" "sv_local (ss_service sd0) = ?m" "cf_chunk_size (config sd0) \<noteq> 0"
    "puller sd0 (pl_pull plan) rc0" "hushed rc0" "\<forall>p \<in> set (pl_pull plan). servable pfs sd0 rc0 p"
    "disk rc0 = (\<lambda>p. if p \<in> set (pl_delete_local plan) then None else disk rc p)"
    "sv_local (ss_service rc0) = fold man_remove (pl_delete_local plan) (sv_local (ss_service rc))"
    "ss_remote rc0 = ?m" "ss_have_remote rc0" "pl_pull plan \<noteq> [] \<longrightarrow> ss_last_eval rc0 = None"
    "pl_pull plan = [] \<and> same_tree (sv_local (ss_service rc0)) ?m \<longrightarrow> announced pfr rc0"
    unfolding plan_def by (rule replica_starts [OF ready])
  have inv: "om_inv (sv_local (ss_service rc0))"
    using removes_find(1) [OF r(4)] start(11) by simp
  obtain sd' rc' where run: "(pull_turn pfs pfr ^^ length (pl_pull plan)) (sd0, rc0) = (sd', rc')" "ss_service sd' = ss_service sd0"
    and rc': "view rc' = view rc0" "ss_pulling rc' = []" "ss_incoming rc' = []"
      "disk rc' = (\<lambda>p. if p \<in> set (pl_pull plan) then disk sd0 p else disk rc0 p)" "om_inv (sv_local (ss_service rc'))"
      "om_find (sv_local (ss_service rc')) = (\<lambda>p. if p \<in> set (pl_pull plan) then Some (served_meta pfs sd0 p (the (disk sd0 p)))
         else om_find (sv_local (ss_service rc0)) p)"
    and told: "pl_pull plan \<noteq> [] \<and> ss_have_remote rc0 \<and> same_tree (sv_local (ss_service rc')) (ss_remote rc') \<longrightarrow> announced pfr rc'"
    by (rule mirror_pulls [OF start(2,3,6) r(3) start(7-9) inv start(14)])
  have remote: "ss_remote rc' = ?m"
    using view_fields(1) [OF rc'(1)] start(12) by simp
  have true: "truthful pfs sd0"
    using r(1) start(4,5) by (simp add: truthful_def)
  have "Some (served_meta pfs sd0 p (the (disk sd0 p))) = om_find ?m p" if "p \<in> set (pl_pull plan)" for p
    using that replica_plan(1) [of "opts_of (config rc)"] r(2) served_meta_truthful [OF true, of p] start(5)
    by (auto simp: plan_def replica_ready_def opts_of_def)
  then have "\<forall>p. om_find (sv_local (ss_service rc')) p = (if p \<in> set (pl_pull plan) then om_find ?m p
       else if p \<in> set (pl_delete_local plan) then None else om_find (sv_local (ss_service rc)) p)"
    using rc'(6) start(11) removes_find(2) [OF r(4)] by simp
  moreover have "announced pfr rc'" if "same_tree (sv_local (ss_service rc')) ?m"
    using told remote start(13,15) that run(1) by (cases "pl_pull plan = []") simp_all
  moreover have "disk rc' = (\<lambda>p. if p \<in> set (pl_pull plan) then disk sd p else if p \<in> set (pl_delete_local plan) then None else disk rc p)"
    using rc'(4) start(4,10) by (simp only: cong: if_cong)
  ultimately show thesis
    using that [of sd' rc'] run start(1,4,5) rc'(2,3,5) remote by (simp add: sync_run_def)
qed

text \<open>A source with one file, and a replica with an old version of it and a file of its own.\<close>

definition as_replica :: "session \<Rightarrow> session" where
  "as_replica st = on_service (\<lambda>sv. sv\<lparr>sv_config := (sv_config sv)\<lparr>cf_mode := Mirror, cf_source := False\<rparr>\<rparr>) st"

definition sample_entry :: "bytes \<Rightarrow> file_meta" where
  "sample_entry d = \<lparr>fm_size = of_nat (length d), fm_mtime = 5, fm_mode = 0, fm_hash = pf_sha sample_platform d\<rparr>"

definition sample_source :: session where
  "sample_source = as_source (holding [97] [1, 2] (sample_session [([97], sample_entry [1, 2])]))"

definition sample_replica :: session where
  "sample_replica = as_replica (holding [98] [7] (holding [97] [9]
     (sample_session [([97], sample_entry [9]), ([98], sample_entry [7])])))"

lemmas sample_defs = sample_source_def sample_replica_def as_source_def as_replica_def holding_def set_disk_def
  sample_session_def new_session_def new_service_def with_defaults_def default_config_def Let_def

lemma sample_disk:
  "disk sample_source = [[97] \<mapsto> \<lparr>df_data = [1, 2], df_mtime = 5\<rparr>]"
  "disk sample_replica = [[97] \<mapsto> \<lparr>df_data = [9], df_mtime = 5\<rparr>, [98] \<mapsto> \<lparr>df_data = [7], df_mtime = 5\<rparr>]"
  by (simp_all add: sample_defs fun_upd_twist)

lemma sample_find:
  "man_find (sv_local (ss_service sample_source)) p = (if p = [97] then Some (sample_entry [1, 2]) else None)"
  "man_find (sv_local (ss_service sample_replica)) p =
     (if p = [97] then Some (sample_entry [9]) else if p = [98] then Some (sample_entry [7]) else None)"
  "disk sample_source [97] = Some \<lparr>df_data = [1, 2], df_mtime = 5\<rparr>"
  by (simp_all add: sample_defs man_find_om)

lemma sample_ready: "sync_ready sample_platform sample_platform sample_source sample_replica"
proof -
  have "source_ready sample_source" "replica_ready sample_replica"
    by (simp_all add: source_ready_def replica_ready_def sample_defs hushed_def)
  moreover have "syncable (sv_local (ss_service sample_source))" "om_inv (sv_local (ss_service sample_replica))"
    by (simp_all add: sample_defs syncable_def valid_manifest_def valid_entry_def is_safe_relpath_def
        safe_segments.simps sample_entry_def sample_platform_def)
  moreover have "truthful sample_platform sample_source" "truthful sample_platform sample_replica"
    by (auto simp: truthful_def sample_find sample_disk sample_entry_def)
  moreover have "small_files sample_source" "small_files sample_replica"
    by (auto simp: small_files_def sample_disk split: if_splits)
  moreover have "unat (or_default (cf_block_size (config sample_replica))) > 2"
    by (simp add: sample_defs or_default_def kDefaultBlockSize_def)
  then have "told_apart sample_platform sample_source sample_replica"
    by (auto simp: told_apart_def sample_disk separates_def sample_platform_def split: if_splits)
  moreover have "pf_bucket sample_platform = ascending_bucket" "\<forall>p. pf_remove sample_platform p"
    by (simp_all add: sample_platform_def)
  moreover from this(1) have "platforms_ok sample_platform sample_platform"
    using sample_platform_works by (simp add: platforms_ok_def)
  ultimately show ?thesis
    by (simp add: sync_ready_def) (simp add: sample_defs)
qed

section \<open>Properties\<close>

text \<open>C1. A mirror reaches its source. When a source and a replica connect, the first update, the round it starts
  and one request for each path the plan asks for - whatever the two ends have on disk, whether files
  travel whole or as deltas, however the update is cut - bring the replica to the source: every file
  the source tracks is there with the source's bytes, every tracked file the source does not have is
  gone, files neither tracks are untouched, the replica's manifest is the one its plan promised and
  agrees with the source's, nothing is left under way, and the agreement is announced.\<close>

theorem mirror_reaches_source:
  assumes "sync_ready pfs pfr sd rc"
  shows "\<exists>sd' rc'. sync_run pfs pfr (length (pl_pull (plan_of rc (sv_local (ss_service sd))))) (sd, rc) = (sd', rc')
    \<and> disk sd' = disk sd \<and> sv_local (ss_service sd') = sv_local (ss_service sd)
    \<and> sv_local (ss_service rc') = follow (plan_of rc (sv_local (ss_service sd))) (sv_local (ss_service rc)) (sv_local (ss_service sd))
    \<and> same_tree (sv_local (ss_service rc')) (sv_local (ss_service sd))
    \<and> (\<forall>p. map_option df_data (disk rc' p) =
        (if man_find (sv_local (ss_service sd)) p \<noteq> None then map_option df_data (disk sd p)
         else if man_find (sv_local (ss_service rc)) p \<noteq> None then None else map_option df_data (disk rc p)))
    \<and> ss_pulling rc' = [] \<and> ss_incoming rc' = [] \<and> announced pfr rc'"
proof -
  let ?m = "sv_local (ss_service sd)" and ?l = "sv_local (ss_service rc)"
  let ?plan = "plan_of rc ?m"
  obtain sd' rc' where run: "sync_run pfs pfr (length (pl_pull ?plan)) (sd, rc) = (sd', rc')"
    "disk sd' = disk sd" "sv_local (ss_service sd') = ?m"
    "disk rc' = (\<lambda>p. if p \<in> set (pl_pull ?plan) then disk sd p else if p \<in> set (pl_delete_local ?plan) then None else disk rc p)"
    "om_inv (sv_local (ss_service rc'))"
    "\<forall>p. om_find (sv_local (ss_service rc')) p = (if p \<in> set (pl_pull ?plan) then om_find ?m p
       else if p \<in> set (pl_delete_local ?plan) then None else om_find ?l p)"
    "ss_pulling rc' = []" "ss_incoming rc' = []" "ss_remote rc' = ?m"
    "same_tree (sv_local (ss_service rc')) ?m \<longrightarrow> announced pfr rc'"
    by (rule sync_run_result [OF assms])
  have r: "truthful pfs sd" "truthful pfr rc" "told_apart pfs sd rc" "pf_sha pfr = pf_sha pfs" "om_inv ?l"
    "ro_mode (opts_of (config rc)) = Mirror" "\<not> ro_source (opts_of (config rc))"
    "ro_propagate_deletes (opts_of (config rc))"
    using assms by (simp_all add: sync_ready_def platforms_ok_def replica_ready_def opts_of_def)
  note plan = replica_plan [OF r(6-8), of _ "sv_base (ss_service rc)" ?l ?m]
  have "om_find (sv_local (ss_service rc')) p = om_find (follow ?plan ?l ?m) p" for p
    using plan(1) [of p] by (simp add: run(6) follow_find(2) [OF r(5)])
  then have "sv_local (ss_service rc') = follow ?plan ?l ?m"
    using om.find_inject [OF run(5) follow_find(1) [OF r(5)]] by blast
  moreover have "agree (om_find (sv_local (ss_service rc')) p) (om_find ?m p)" for p
    using plan(1,2) [of p] by (simp add: run(6))
  then have same: "same_tree (sv_local (ss_service rc')) ?m"
    by (simp add: same_tree_def)
  moreover have "map_option df_data (disk rc' p) = (if om_find ?m p \<noteq> None then map_option df_data (disk sd p)
      else if om_find ?l p \<noteq> None then None else map_option df_data (disk rc p))" for p
    using same_data [OF r(1-4), of p] by (auto simp: run(4) plan)
  ultimately show ?thesis
    using run by (auto simp: man_find_om)
qed

theorem mirror_reaches_source_witness:
  "\<exists>sd' rc'. sync_run sample_platform sample_platform (length (pl_pull (plan_of sample_replica
      (sv_local (ss_service sample_source))))) (sample_source, sample_replica) = (sd', rc')
    \<and> map_option df_data (disk rc' [97]) = Some [1, 2] \<and> map_option df_data (disk rc' [98]) = None"
proof -
  obtain sd' rc' where run: "sync_run sample_platform sample_platform (length (pl_pull (plan_of sample_replica
      (sv_local (ss_service sample_source))))) (sample_source, sample_replica) = (sd', rc')"
    and data: "\<forall>p. map_option df_data (disk rc' p) =
        (if man_find (sv_local (ss_service sample_source)) p \<noteq> None then map_option df_data (disk sample_source p)
         else if man_find (sv_local (ss_service sample_replica)) p \<noteq> None then None
         else map_option df_data (disk sample_replica p))"
    using mirror_reaches_source [OF sample_ready] by blast
  have "map_option df_data (disk rc' [97]) = Some [1, 2]"
    using data [rule_format, of "[97]"] sample_find by simp
  moreover have "map_option df_data (disk rc' [98]) = None"
    using data [rule_format, of "[98]"] sample_find by simp
  ultimately show ?thesis
    using run by blast
qed

end
