(* ===== verification/Standing.thy ===== *)
theory Standing
  imports Session_Sync
begin

text \<open>
  Where one end of a two-way synchronisation stands between two messages, and what each event makes of it:
  an update of the other's tree, an acknowledgement, the first round with its deletions, a file served,
  the last file pulled. The serving end meets the contract of \<open>serving_end\<close> in two-way mode too.
\<close>

section \<open>Where an end stands\<close>

text \<open>What one end has and knows between two messages: the baseline it started with, its disk and manifest,
  what the peer last told it, and the pulls it still has to make.\<close>

record standing =
  at_config :: sync_config
  at_tag :: u32
  at_base :: manifest
  at_disk :: "path \<Rightarrow> disk_file option"
  at_local :: manifest
  at_remote :: manifest
  at_pulls :: "path list"

lemma standing_same: "q\<lparr>at_remote := at_remote q\<rparr> = q"
  by (cases q) simp

text \<open>It waits with nothing under way, and the peer knows its tree.\<close>

definition waits :: "standing \<Rightarrow> session \<Rightarrow> bool" where
  "waits q x \<longleftrightarrow> config x = at_config q \<and> sv_tag (ss_service x) = at_tag q \<and> ss_running x
     \<and> \<not> ss_incompatible x \<and> \<not> ss_staging_active x \<and> ss_incoming x = [] \<and> ss_outstanding_serves x = 0
     \<and> ss_serve_q x = [] \<and> \<not> ss_advertise_pending x \<and> disk x = at_disk q
     \<and> sv_local (ss_service x) = at_local q \<and> ss_remote x = at_remote q
     \<and> ss_pulling x = at_pulls q \<and> ss_pull_queue x = at_pulls q
     \<and> ss_last_sent_valid x \<and> ss_last_sent x = at_local q"

text \<open>Before it has announced an agreement, and after.\<close>

definition unsettled :: "standing \<Rightarrow> session \<Rightarrow> bool" where
  "unsettled q x \<longleftrightarrow> ss_last_synced x = None \<and> sv_base (ss_service x) = at_base q
     \<and> ss_last_sent_version x = sv_version (ss_service x)"

definition baselined :: "platform \<Rightarrow> session \<Rightarrow> bool" where
  "baselined pf x \<longleftrightarrow> announced pf x \<and> sv_base (ss_service x) = sv_local (ss_service x)
     \<and> sv_baseline_file (ss_service x) = Some (man_save (sv_local (ss_service x)))"

definition at_rest :: "standing \<Rightarrow> bool" where
  "at_rest q \<longleftrightarrow> at_pulls q = [] \<and> same_tree (at_local q) (at_remote q)"

definition stands :: "platform \<Rightarrow> standing \<Rightarrow> session \<Rightarrow> bool" where
  "stands pf q x \<longleftrightarrow> waits q x \<and> ss_have_remote x \<and> (if at_rest q then baselined pf x else unsettled q x)
     \<and> (at_pulls q \<noteq> [] \<longrightarrow> ss_last_eval x = None) \<and> (\<forall>v. ss_last_eval x \<noteq> Some (v, ss_remote_version x + 1))"

definition two_way_options :: "standing \<Rightarrow> bool" where
  "two_way_options q \<longleftrightarrow> cf_mode (at_config q) = TwoWay \<and> cf_propagate_deletes (at_config q)"

text \<open>The convergence check brings an end that waits to where it stands.\<close>

lemma remote_moves [simp]: "v + 1 \<noteq> (v :: u64)" "v \<noteq> (v :: u64) + 1"
  by simp_all

lemma check_stands:
  assumes "waits q x" "ss_have_remote x" "two_way_options q"
    and "at_rest q \<and> baselined pf x \<or> unsettled q x" "\<And>v. ss_last_eval x \<noteq> Some (v, ss_remote_version x)"
  shows "stands pf q (maybe_synced pf x) \<and> ss_out (maybe_synced pf x) = ss_out x"
proof (cases "at_pulls q = []")
  case False
  then have "maybe_synced pf x = x\<lparr>ss_last_eval := None\<rparr>" "\<not> at_rest q"
    using assms(1) by (simp_all add: maybe_synced_def waits_def at_rest_def)
  then show ?thesis
    using assms(1,2,4) False by (simp add: stands_def waits_def unsettled_def)
next
  case True
  let ?x = "x\<lparr>ss_last_eval := Some (sv_version (ss_service x), ss_remote_version x)\<rparr>"
  have x: "ss_pulling x = []" "ss_incoming x = []" "ss_outstanding_serves x = 0" "\<not> ss_advertise_pending x"
    "cf_mode (config x) = TwoWay" "ro_propagate_deletes (opts_of (config x))"
    "sv_local (ss_service x) = at_local q" "ss_remote x = at_remote q"
    using assms(1,3) True by (simp_all add: waits_def two_way_options_def opts_of_def)
  have check: "maybe_synced pf x = (if same_tree (at_local q) (at_remote q) then announce_synced pf ?x else ?x)"
    using x assms(2,5) by (simp add: maybe_synced_def evaluate_def Let_def plan_empty_iff_same_tree)
  show ?thesis
  proof (cases "same_tree (at_local q) (at_remote q)")
    case False
    then show ?thesis
      using check assms(1,2,4) True by (auto simp: stands_def waits_def unsettled_def at_rest_def)
  next
    case same: True
    have "waits q (announce_synced pf ?x)" "ss_have_remote (announce_synced pf ?x)"
      "ss_last_eval (announce_synced pf ?x) = ss_last_eval ?x" "ss_remote_version (announce_synced pf ?x) = ss_remote_version x"
      using assms(1,2) by (auto simp: announce_synced_def Let_def waits_def set_base_manifest_def bump_def emit_def)
    moreover have "baselined pf (announce_synced pf ?x)"
      using assms(4) x(5)
      by (auto simp: announce_synced_def Let_def baselined_def announced_def unsettled_def set_base_manifest_def bump_def emit_def)
    ultimately show ?thesis
      using check same True by (simp add: stands_def at_rest_def out_announce)
  qed
qed

section \<open>What an end tells the other\<close>

text \<open>Messages that bring a peer which knows \<open>old\<close> to \<open>new\<close> and have it run one round, however they are cut.\<close>

definition updates :: "u32 \<Rightarrow> manifest \<Rightarrow> manifest \<Rightarrow> bytes list \<Rightarrow> bool" where
  "updates t old new ms \<longleftrightarrow> (\<forall>pf y. \<not> ss_incompatible y \<longrightarrow> sv_tag (ss_service y) = t \<longrightarrow> \<not> ss_staging_active y \<longrightarrow>
     ss_remote y = old \<longrightarrow> (\<exists>staged. fold (deliver pf) ms y = reconcile_and_act pf (committed staged new y)))"

definition tells :: "u32 \<Rightarrow> manifest \<Rightarrow> manifest \<Rightarrow> bytes list \<Rightarrow> bool" where
  "tells t old new ms \<longleftrightarrow> ms = [] \<and> old = new \<or> updates t old new ms"

lemma tells_nothing [simp]: "tells t m m []"
  by (simp add: tells_def)

lemma update_tells:
  assumes "good_patch patch" "man_apply patch (if reset then [] else old) = new"
    and "ss_out (send_update patch reset x) = ss_out x @ ms"
  shows "updates (sv_tag (ss_service x)) old new ms"
  unfolding updates_def
proof (intro allI impI)
  fix pf and y :: session
  assume "\<not> ss_incompatible y" "sv_tag (ss_service y) = sv_tag (ss_service x)" "\<not> ss_staging_active y" "ss_remote y = old"
  then show "\<exists>staged. fold (deliver pf) ms y = reconcile_and_act pf (committed staged new y)"
    using update_arrives [OF assms(1) _ _ _ assms(3), of y pf] assms(2) by metis
qed

lemma update_out:
  obtains ms where "ss_out (send_update patch reset x) = ss_out x @ ms"
  using send_update_chunks [of patch reset x] that by auto

text \<open>An advertisement after which the peer knows the local tree.\<close>

abbreviation advertised :: "session \<Rightarrow> session" where
  "advertised x \<equiv> x\<lparr>ss_last_sent_version := sv_version (ss_service x), ss_last_sent := sv_local (ss_service x),
     ss_last_sent_valid := True, ss_advertise_pending := False\<rparr>"

lemma mute_sent:
  assumes "mute s = mute t"
  shows "mute (s\<lparr>ss_last_sent := m, ss_last_sent_valid := True, ss_advertise_pending := False\<rparr>)
    = mute (t\<lparr>ss_last_sent := m, ss_last_sent_valid := True, ss_advertise_pending := False\<rparr>)"
  using assms by (cases s; cases t) (simp add: mute_def)

lemma advertise_first:
  assumes "\<not> ss_last_sent_valid x" "syncable (sv_local (ss_service x))"
  obtains ms where "ss_out (advertise x) = ss_out x @ ms" "\<forall>old. updates (sv_tag (ss_service x)) old (sv_local (ss_service x)) ms"
    "mute (advertise x) = mute (advertised x)"
proof -
  let ?x = "x\<lparr>ss_last_sent_version := sv_version (ss_service x)\<rparr>" and ?patch = "\<lparr>mp_set = sv_local (ss_service x), mp_removed = []\<rparr>"
  obtain ms where ms: "ss_out (send_update ?patch True ?x) = ss_out ?x @ ms"
    by (rule update_out)
  have adv: "advertise x = (send_update ?patch True ?x)
      \<lparr>ss_last_sent := sv_local (ss_service x), ss_last_sent_valid := True, ss_advertise_pending := False\<rparr>"
    using assms(1) by (simp add: advertise_def Let_def)
  have "updates (sv_tag (ss_service x)) old (sv_local (ss_service x)) ms" for old
    using update_tells [OF good_patch_whole [OF assms(2)] _ ms, of old] man_apply_whole assms(2)
    by (simp add: syncable_def valid_manifest_def)
  moreover have "mute (advertise x) = mute (advertised x)"
    using mute_sent [OF send_update_mute [of ?patch True ?x]] by (simp add: adv)
  ultimately show thesis
    using that ms by (simp add: adv)
qed

lemma advertise_next:
  assumes "ss_last_sent_valid x" "ss_last_sent_version x \<noteq> sv_version (ss_service x)"
    and "valid_manifest (ss_last_sent x)" "syncable (sv_local (ss_service x))"
  obtains ms where "ss_out (advertise x) = ss_out x @ ms"
    "tells (sv_tag (ss_service x)) (ss_last_sent x) (sv_local (ss_service x)) ms" "mute (advertise x) = mute (advertised x)"
proof -
  let ?x = "x\<lparr>ss_last_sent_version := sv_version (ss_service x)\<rparr>"
  let ?patch = "diff_manifests (ss_last_sent x) (sv_local (ss_service x))"
  have inv: "om_inv (ss_last_sent x)" "om_inv (sv_local (ss_service x))"
    using assms(3,4) by (simp_all add: syncable_def valid_manifest_def)
  show thesis
  proof (cases "patch_empty ?patch")
    case True
    then have "advertise x = ?x\<lparr>ss_advertise_pending := False\<rparr>" "ss_last_sent x = sv_local (ss_service x)"
      using assms(1,2) diff_manifests_empty_iff [OF inv] by (simp_all add: advertise_def Let_def)
    then show thesis
      using that [of "[]"] assms(1) by (simp add: mute_def)
  next
    case False
    obtain ms where ms: "ss_out (send_update ?patch False ?x) = ss_out ?x @ ms"
      by (rule update_out)
    have adv: "advertise x = (send_update ?patch False ?x)
        \<lparr>ss_last_sent := sv_local (ss_service x), ss_last_sent_valid := True, ss_advertise_pending := False\<rparr>"
      using assms(1,2) False by (simp add: advertise_def Let_def)
    have "updates (sv_tag (ss_service x)) (ss_last_sent x) (sv_local (ss_service x)) ms"
      using update_tells [OF good_patch_diff [OF assms(3,4)] _ ms, of "ss_last_sent x"] man_apply_diff [OF inv] by simp
    moreover have "mute (advertise x) = mute (advertised x)"
      using mute_sent [OF send_update_mute [of ?patch False ?x]] by (simp add: adv)
    ultimately show thesis
      using that ms by (simp add: adv tells_def)
  qed
qed

section \<open>What an end hears\<close>

lemma stands_still:
  assumes "still s = still t"
  shows "stands pf q s = stands pf q t"
  using assms by (cases s; cases t) (simp add: still_def stands_def waits_def baselined_def announced_def unsettled_def)

lemma deliver_ack:
  assumes "is_ack m"
  shows "still (deliver pf m y) = still y \<and> ss_out (deliver pf m y) = ss_out y"
proof -
  obtain s xid n where "m = file_ack s xid n"
    using assms by (auto simp: is_ack_def)
  then have m: "m = be32 (sv_tag (ss_service s)) @ op_code FileAck # be64 xid @ be64 n"
    by (simp add: file_ack_def msg_def codec_simps)
  have "still (handle_file_ack r y) = still y \<and> ss_out (handle_file_ack r y) = ss_out y" for r
    by (simp add: handle_file_ack_def Let_def still_def split: prod.splits)
  then show ?thesis
    by (simp add: m deliver_def reader_of_def codec_simps kHeaderBytes_def Let_def handle_def)
qed

lemma deliver_acks:
  assumes "list_all is_ack ms"
  shows "still (fold (deliver pf) ms y) = still y \<and> ss_out (fold (deliver pf) ms y) = ss_out y"
  using assms
proof (induction ms arbitrary: y)
  case (Cons m ms)
  then show ?case
    using deliver_ack [of m pf y] by simp
qed simp

text \<open>A round that asks for nothing that is not already asked for.\<close>

abbreviation plan_at :: "standing \<Rightarrow> manifest \<Rightarrow> sync_plan" where
  "plan_at q new \<equiv> reconcile (at_base q) (at_local q) new (opts_of (at_config q))"

definition nothing_new :: "standing \<Rightarrow> manifest \<Rightarrow> bool" where
  "nothing_new q new \<longleftrightarrow> same_tree (at_local q) new \<or>
     \<not> at_rest q \<and> pl_delete_local (plan_at q new) = [] \<and> set (pl_pull (plan_at q new)) \<subseteq> set (at_pulls q)"

lemma queue_queued: "set ps \<subseteq> set (ss_pulling st) \<Longrightarrow> fold queue_pull ps st = st"
  by (induction ps) (simp_all add: queue_pull_def)

lemma hears_update:
  assumes stands: "stands pf q y" and opts: "two_way_options q" and "nothing_new q new"
  shows "stands pf (q\<lparr>at_remote := new\<rparr>) (reconcile_and_act pf (committed staged new y))
    \<and> ss_out (reconcile_and_act pf (committed staged new y)) = ss_out y"
proof -
  let ?q = "q\<lparr>at_remote := new\<rparr>" and ?c = "committed staged new y"
  let ?plan = "plan_of y new"
  have y: "waits q y" "if at_rest q then baselined pf y else unsettled q y" "\<And>v. ss_last_eval y \<noteq> Some (v, ss_remote_version y + 1)"
    using stands by (simp_all add: stands_def)
  have "pl_delete_local ?plan = [] \<and> set (pl_pull ?plan) \<subseteq> set (at_pulls q)"
  proof (cases "same_tree (at_local q) new")
    case True
    then have "same_tree (sv_local (ss_service y)) new"
      using y(1) by (simp add: waits_def)
    then show ?thesis
      using agree_plan_empty [of _ new "sv_base (ss_service y)" "opts_of (config y)"] by (simp add: plan_empty_def)
  next
    case False
    then show ?thesis
      using assms(3) y(1,2) by (auto simp: nothing_new_def waits_def unsettled_def)
  qed
  moreover from this have "fold queue_pull (pl_pull ?plan) (emit (Round ?plan) ?c) = emit (Round ?plan) ?c"
    using y(1) by (intro queue_queued) (simp add: committed_def emit_def waits_def)
  ultimately have acts: "reconcile_and_act pf ?c = maybe_synced pf (emit (Round ?plan) ?c)"
    by (simp add: reconcile_and_act_def Let_def committed_def)
  let ?e = "emit (Round ?plan) ?c"
  have "at_rest ?q \<and> baselined pf ?e \<or> unsettled ?q ?e"
    using y(2) assms(3) by (auto simp: baselined_def announced_def unsettled_def at_rest_def nothing_new_def
        committed_def emit_def split: if_splits)
  then have "stands pf ?q (maybe_synced pf ?e) \<and> ss_out (maybe_synced pf ?e) = ss_out ?e"
    using y(1,3) opts by (intro check_stands) (simp_all add: waits_def committed_def emit_def two_way_options_def)
  moreover have "ss_out ?e = ss_out y"
    by (simp add: committed_def emit_def)
  ultimately show ?thesis
    by (simp only: acts)
qed

lemma hears:
  assumes "stands pf q y" "two_way_options q" "ms = [] \<and> at_remote q = new \<or> nothing_new q new"
    and "tells (at_tag q) (at_remote q) new ms" "list_all is_ack acks"
  shows "stands pf (q\<lparr>at_remote := new\<rparr>) (fold (deliver pf) (acks @ ms) y) \<and> ss_out (fold (deliver pf) (acks @ ms) y) = ss_out y"
proof -
  let ?y = "fold (deliver pf) acks y"
  have y: "stands pf q ?y" "ss_out ?y = ss_out y"
    using deliver_acks [OF assms(5), of pf y] stands_still [of ?y y] assms(1) by simp_all
  show ?thesis
  proof (cases "ms = [] \<and> at_remote q = new")
    case True
    then have same: "q\<lparr>at_remote := new\<rparr> = q"
      using standing_same [of q] by simp
    show ?thesis
      using y True unfolding same by simp
  next
    case False
    then have "updates (at_tag q) (at_remote q) new ms"
      using assms(4) by (auto simp: tells_def)
    moreover have "\<not> ss_incompatible ?y" "sv_tag (ss_service ?y) = at_tag q" "\<not> ss_staging_active ?y" "ss_remote ?y = at_remote q"
      using y(1) by (simp_all add: stands_def waits_def)
    ultimately obtain staged where "fold (deliver pf) ms ?y = reconcile_and_act pf (committed staged new ?y)"
      unfolding updates_def by blast
    then show ?thesis
      using hears_update [OF y(1) assms(2), of new staged] assms(3) False y(2) by simp
  qed
qed

section \<open>Two plans\<close>

lemma two_way_plan:
  assumes "ro_mode opt = TwoWay"
  shows "p \<in> set (pl_pull (reconcile b l r opt)) \<longleftrightarrow> kind_of opt b l r p = Pull"
    and "p \<in> set (pl_delete_local (reconcile b l r opt)) \<longleftrightarrow> kind_of opt b l r p = DeleteLocal"
proof -
  have "p \<in> set (round_keys opt b l r)" if "kind_of opt b l r p \<noteq> NoAction"
    using that assms by (auto simp: kind_of_two_way decide_two_way_cases round_keys_set split: if_splits)
  then show "p \<in> set (pl_pull (reconcile b l r opt)) \<longleftrightarrow> kind_of opt b l r p = Pull"
    "p \<in> set (pl_delete_local (reconcile b l r opt)) \<longleftrightarrow> kind_of opt b l r p = DeleteLocal"
    by (auto simp: reconcile_lists)
qed

lemma two_way_deletes_known:
  assumes "ro_mode opt = TwoWay" "p \<in> set (pl_delete_local (reconcile b l r opt))"
  shows "om_find l p \<noteq> None"
  using assms by (cases "om_find l p") (auto simp: two_way_plan kind_of_two_way decide_two_way_cases adopt_def keep_def split: if_splits)

lemma keys_short:
  assumes "distinct ps" "\<And>p. p \<in> set ps \<Longrightarrow> om_find m p \<noteq> None"
  shows "length ps \<le> length m"
proof -
  have "set ps \<subseteq> set (map fst m)"
    using assms(2) by (auto simp: om_find_None)
  then have "card (set ps) \<le> length (map fst m)"
    using card_mono [OF finite_set] card_length le_trans by blast
  then show ?thesis
    using distinct_card [OF assms(1)] by simp
qed

lemma plan_short:
  assumes "ro_mode opt = TwoWay"
  shows "length (pl_delete_local (reconcile b l r opt)) \<le> length l" "length (pl_pull (reconcile b l r opt)) \<le> length r"
proof -
  have "distinct (pl_delete_local (reconcile b l r opt))"
    using union_keys_sorted by (simp add: reconcile_lists round_keys_def strict_sorted_iff)
  then show "length (pl_delete_local (reconcile b l r opt)) \<le> length l"
    by (rule keys_short) (rule two_way_deletes_known [OF assms])
  show "length (pl_pull (reconcile b l r opt)) \<le> length r"
    by (rule keys_short [OF plan_distinct]) (auto simp: reconcile_lists dest: kind_needs(1))
qed

text \<open>A manifest whose entries come from two that can be sent.\<close>

lemma syncable_part:
  assumes "om_inv m" "\<And>p. om_find m p = None \<or> om_find m p = om_find l p \<or> om_find m p = om_find r p"
    and "syncable l" "syncable r" "length l + length r < 2 ^ 32"
  shows "syncable m"
proof -
  have entries: "e \<in> set l \<or> e \<in> set r" if "e \<in> set m" for e
  proof -
    have "om_find m (fst e) = Some (snd e)"
      using that om_find_Some [OF assms(1)] by simp
    then have "om_find l (fst e) = Some (snd e) \<or> om_find r (fst e) = Some (snd e)"
      using assms(2) [of "fst e"] by auto
    then show ?thesis
      using assms(3,4) om_find_Some [of l] om_find_Some [of r] by (auto simp: syncable_def valid_manifest_def)
  qed
  have "distinct m"
    using om_distinct [OF assms(1)] by (simp add: distinct_map)
  then have "length m \<le> card (set (l @ r))"
    using entries distinct_card [of m] card_mono [of "set (l @ r)" "set m"] by (simp add: subset_iff)
  then have "length m < 2 ^ 32"
    using card_length [of "l @ r"] assms(5) by simp
  then show ?thesis
    using entries assms(1,3,4) unfolding syncable_def valid_manifest_def list_all_iff by blast
qed

section \<open>The first round\<close>

lemma waits_mute:
  assumes "mute s = mute t"
  shows "waits q s = waits q t" "unsettled q s = unsettled q t" "ss_have_remote s = ss_have_remote t"
    "ss_last_eval s = ss_last_eval t" "ss_remote_version s = ss_remote_version t"
  using mute_fields [OF assms] by (simp_all add: waits_def unsettled_def)

text \<open>Where an end stands once it has carried out the deletions of its plan, and once its pulls have arrived.\<close>

definition after_deletes :: "manifest \<Rightarrow> standing \<Rightarrow> standing" where
  "after_deletes r q = q\<lparr>
     at_disk := (\<lambda>p. if p \<in> set (pl_delete_local (plan_at q r)) then None else at_disk q p),
     at_local := fold man_remove (pl_delete_local (plan_at q r)) (at_local q),
     at_remote := r, at_pulls := pl_pull (plan_at q r)\<rparr>"

lemma after_deletes_simps [simp]:
  "at_config (after_deletes r q) = at_config q" "at_tag (after_deletes r q) = at_tag q"
  "at_base (after_deletes r q) = at_base q" "at_remote (after_deletes r q) = r"
  "two_way_options (after_deletes r q) = two_way_options q" "at_pulls (after_deletes r q) = pl_pull (plan_at q r)"
  by (simp_all add: after_deletes_def two_way_options_def)

lemma short_count: "n < 2 ^ 64 \<Longrightarrow> n \<noteq> 0 \<Longrightarrow> (of_nat n :: u64) \<noteq> 0"
  by (metis unat_u64_of_nat unat_0)

lemma cleared_syncable:
  assumes "two_way_options q" "syncable (at_local q)"
  shows "syncable (at_local (after_deletes r q))" "length (pl_delete_local (plan_at q r)) < 2 ^ 64"
proof -
  have inv: "om_inv (at_local q)" "om_inv (at_local (after_deletes r q))"
    using assms(2) removes_find(1) [of "at_local q"] by (simp_all add: syncable_def valid_manifest_def after_deletes_def)
  show "syncable (at_local (after_deletes r q))"
    using inv assms(2) by - (rule syncable_part [where l = "at_local q" and r = "[]"],
      simp_all add: after_deletes_def removes_find(2) syncable_def valid_manifest_def)
  have "length (pl_delete_local (plan_at q r)) \<le> length (at_local q)" "length (at_local q) < 2 ^ 32"
    using assms plan_short(1) [of "opts_of (at_config q)"]
    by (simp_all add: two_way_options_def opts_of_def syncable_def valid_manifest_def)
  then show "length (pl_delete_local (plan_at q r)) < 2 ^ 64"
    by simp
qed

lemma first_round:
  assumes waits: "waits q x" and un: "unsettled q x" and q: "at_pulls q = []" "two_way_options q" "syncable (at_local q)"
    and new: "ss_last_eval x = None" and works: "\<And>p. pf_remove pf p"
  obtains ms where "stands pf (after_deletes r q) (reconcile_and_act pf (committed staged r x))"
    "ss_out (reconcile_and_act pf (committed staged r x)) = ss_out x @ ms"
    "tells (at_tag q) (at_local q) (at_local (after_deletes r q)) ms"
proof -
  let ?c = "committed staged r x" and ?q = "after_deletes r q" and ?dels = "pl_delete_local (plan_at q r)"
  let ?s = "round_done ?c"
  have c: "ss_have_remote ?c" "ss_pulling ?c = []" "ss_pull_queue ?c = []" "plan_of ?c (ss_remote ?c) = plan_at q r"
    using waits un q(1) by (simp_all add: committed_def waits_def unsettled_def)
  have acts: "reconcile_and_act pf ?c = maybe_synced pf (if ?dels = [] then ?s else advertise ?s)"
    using round_moves [OF c(1-3) works] unfolding c(4) .
  have s: "ss_have_remote ?s" "ss_last_eval ?s = None" "ss_out ?s = ss_out x" "ss_last_sent ?s = at_local q" "ss_last_sent_valid ?s"
    "sv_tag (ss_service ?s) = at_tag q" "sv_local (ss_service ?s) = at_local ?q"
    "sv_version (ss_service ?s) = ss_last_sent_version ?s + of_nat (length ?dels)"
    using waits un new c(4) by (simp_all add: round_done_def Let_def emit_def committed_def waits_def unsettled_def after_deletes_def)
  have advertised: "waits ?q (advertised ?s)" "unsettled ?q (advertised ?s)"
    using waits un q(1) c(4)
    by (simp_all add: round_done_def Let_def emit_def committed_def waits_def unsettled_def after_deletes_def cong: if_cong)
  obtain S ms where S: "S = (if ?dels = [] then ?s else advertise ?s)" "ss_out S = ss_out x @ ms"
    "mute S = mute (advertised ?s)" "tells (at_tag q) (at_local q) (at_local ?q) ms"
  proof (cases "?dels = []")
    case True
    then have "at_local ?q = at_local q" "advertised ?s = ?s"
      using s un waits by (auto simp: after_deletes_def round_done_def Let_def committed_def emit_def waits_def)
    then show thesis
      using that [of ?s "[]"] True s(3) by simp
  next
    case False
    have "ss_last_sent_version ?s \<noteq> sv_version (ss_service ?s)"
      using short_count [OF cleared_syncable(2) [OF q(2,3)]] False s(8) by simp
    then obtain ms where "ss_out (advertise ?s) = ss_out ?s @ ms" "mute (advertise ?s) = mute (advertised ?s)"
      "tells (sv_tag (ss_service ?s)) (ss_last_sent ?s) (sv_local (ss_service ?s)) ms"
      using advertise_next [OF s(5)] cleared_syncable(1) [OF q(2,3)] q(3) unfolding s(4,7) syncable_def by blast
    then show thesis
      using that [of "advertise ?s" ms] False s(3,4,6,7) by simp
  qed
  have "stands pf ?q (maybe_synced pf S) \<and> ss_out (maybe_synced pf S) = ss_out S"
    using advertised waits_mute [OF S(3)] s(1,2) q(2) by (intro check_stands) simp_all
  then show thesis
    using that S(1,2,4) acts by simp
qed

section \<open>Serving while waiting\<close>

text \<open>An end that serves the other's pulls, with its own still to be made or with the agreement still to be
  reached; and what stays of it.\<close>

definition partner :: "session \<Rightarrow> bool" where
  "partner sd \<longleftrightarrow> ss_running sd \<and> \<not> ss_incompatible sd \<and> ss_serve_q sd = [] \<and> \<not> ss_advertise_pending sd
     \<and> ss_incoming sd = [] \<and> ss_outstanding_serves sd = 0 \<and> cf_propagate_deletes (config sd)
     \<and> (ss_pulling sd \<noteq> [] \<and> ss_last_eval sd = None
        \<or> ss_pulling sd = [] \<and> ss_have_remote sd \<and> \<not> same_tree (sv_local (ss_service sd)) (ss_remote sd))
     \<and> (\<forall>v. ss_last_eval sd \<noteq> Some (v, ss_remote_version sd + 1))"

definition kept :: "session \<Rightarrow> session" where
  "kept st = (still st)\<lparr>ss_last_eval := None, ss_next_xid := 0\<rparr>"

lemma partner_still:
  assumes "still s = still t"
  shows "partner s = partner t" "kept s = kept t"
  using assms by (cases s; cases t; simp add: still_def partner_def kept_def)+

lemma still_count:
  assumes "still s = still t"
  shows "still (s\<lparr>ss_outstanding_serves := n\<rparr>) = still (t\<lparr>ss_outstanding_serves := n\<rparr>)"
    "ss_outstanding_serves s = ss_outstanding_serves t"
  using assms by (cases s; cases t; simp add: still_def)+

lemma check_keeps:
  assumes "partner s"
  shows "kept (maybe_synced pf s) = kept s \<and> partner (maybe_synced pf s) \<and> ss_out (maybe_synced pf s) = ss_out s"
proof (cases "ss_pulling s = []")
  case True
  then have "\<not> plan_empty (reconcile (sv_base (ss_service s)) (sv_local (ss_service s)) (ss_remote s) (opts_of (config s)))"
    using assms by (simp add: partner_def plan_empty_iff_same_tree opts_of_def)
  then have "maybe_synced pf s = s\<lparr>ss_last_eval := Some (sv_version (ss_service s), ss_remote_version s)\<rparr>"
    using assms True by (auto simp: maybe_synced_def evaluate_def partner_def Let_def intro!: session.equality)
  then show ?thesis
    using assms True by (simp add: kept_def still_def partner_def)
next
  case False
  then have "maybe_synced pf s = s\<lparr>ss_last_eval := None\<rparr>"
    by (simp add: maybe_synced_def)
  then show ?thesis
    using assms False by (simp add: kept_def still_def partner_def)
qed

interpretation partner: serving_end partner is_ack "\<lambda>s t. kept s = kept t"
proof
  fix s t
  assume "kept s = kept t"
  then show "ss_service s = ss_service t"
    by (cases s; cases t) (simp add: kept_def still_def)
next
  fix sd m pf
  assume "partner sd" "is_ack m"
  then show "partner (deliver pf m sd) \<and> kept (deliver pf m sd) = kept sd \<and> ss_out (deliver pf m sd) = ss_out sd"
    using deliver_ack [of m pf sd] partner_still by blast
next
  fix sd
  assume "partner sd"
  moreover have "still (sd\<lparr>ss_out := []\<rparr>) = still sd"
    by (simp add: still_def)
  ultimately show "partner (sd\<lparr>ss_out := []\<rparr>) \<and> kept (sd\<lparr>ss_out := []\<rparr>) = kept sd"
    using partner_still by blast
next
  fix sd queued job x pf
  assume ready: "partner sd" and queued: "queued = sd\<lparr>ss_outstanding_serves := ss_outstanding_serves sd + 1,
        ss_serve_q := [job], ss_next_xid := x\<rparr>"
  let ?S = "serve_one pf job (queued\<lparr>ss_serve_q := []\<rparr>)"
  let ?T = "?S\<lparr>ss_outstanding_serves := ss_outstanding_serves ?S - 1\<rparr>"
  have still: "still ?S = still (queued\<lparr>ss_serve_q := []\<rparr>)"
    by (rule still_serve_one)
  have T: "still ?T = still (sd\<lparr>ss_next_xid := x, ss_serve_q := []\<rparr>)"
    using still_count(1) [OF still, of "ss_outstanding_serves ?S - 1"] still_count(2) [OF still]
    by (simp add: queued still_def)
  have "partner (sd\<lparr>ss_next_xid := x, ss_serve_q := []\<rparr>)" "kept (sd\<lparr>ss_next_xid := x, ss_serve_q := []\<rparr>) = kept sd"
    using ready by (auto simp: partner_def kept_def still_def intro!: session.equality)
  then have "partner ?T" "kept ?T = kept sd"
    using partner_still [OF T] by simp_all
  moreover have "sender_step pf queued = maybe_synced pf ?T"
    by (simp add: sender_step_def queued Let_def)
  ultimately show "partner (sender_step pf queued) \<and> kept (sender_step pf queued) = kept sd
      \<and> ss_out (sender_step pf queued) = ss_out ?S"
    using check_keeps [of ?T pf] by simp
qed (simp_all add: partner_def)

lemma stands_partner:
  assumes "stands pf q x" "two_way_options q" "\<not> at_rest q"
  shows "partner x"
  using assms by (auto simp: stands_def waits_def partner_def at_rest_def two_way_options_def)

lemma partner_stands:
  assumes "stands pf q x" "partner x'" "kept x' = kept x"
  shows "stands pf q x'"
proof -
  have "waits q x'" "ss_have_remote x' = ss_have_remote x" "baselined pf x' = baselined pf x" "unsettled q x' = unsettled q x"
    using assms(1,3) by (cases x; cases x'; simp add: kept_def still_def stands_def waits_def baselined_def announced_def unsettled_def)+
  then show ?thesis
    using assms(1,2) by (auto simp: stands_def partner_def waits_def)
qed

section \<open>Pulling\<close>

text \<open>Where an end stands once its pulls have arrived, with the manifest they make.\<close>

definition after_pulls :: "(path \<Rightarrow> disk_file option) \<Rightarrow> manifest \<Rightarrow> standing \<Rightarrow> standing" where
  "after_pulls served new q = q\<lparr>at_disk := (\<lambda>p. if p \<in> set (at_pulls q) then served p else at_disk q p),
     at_local := new, at_pulls := []\<rparr>"

lemma after_pulls_simps [simp]:
  "at_config (after_pulls d new q) = at_config q" "at_tag (after_pulls d new q) = at_tag q"
  "at_base (after_pulls d new q) = at_base q" "at_remote (after_pulls d new q) = at_remote q"
  "two_way_options (after_pulls d new q) = two_way_options q" "at_pulls (after_pulls d new q) = []"
  "at_local (after_pulls d new q) = new"
  by (simp_all add: after_pulls_def two_way_options_def)

lemma maybe_synced_tells:
  assumes "ss_pulling S = []" "ss_incoming S = []" "ss_outstanding_serves S = 0" "ss_advertise_pending S"
    and "mute (advertise S) = mute (advertised S)"
  shows "maybe_synced pf S = maybe_synced pf (advertise S)"
  using assms mute_fields [OF assms(5)] by (simp add: maybe_synced_def)

text \<open>The check behind the last pull: what has arrived is told, and the agreement announced when it is reached.\<close>

lemma drained_stands:
  assumes a: "stands pf q a" "two_way_options q" "syncable (at_local q)" "at_pulls q \<noteq> []" "length (at_pulls q) < 2 ^ 64"
    and S: "drained pfs sd (at_pulls q) a S" and new: "sv_local (ss_service S) = new" "syncable new"
  obtains acks ms where "stands pf (after_pulls (disk sd) new q) (maybe_synced pf S)"
    "ss_out (maybe_synced pf S) = acks @ ms" "list_all is_ack acks" "tells (at_tag q) (at_local q) new ms"
proof -
  let ?q = "after_pulls (disk sd) new q"
  have fields: "view S = view a" "told S = told a" "ss_pulling S = []" "ss_pull_queue S = []" "ss_running S"
    "ss_outstanding_serves S = 0" "ss_last_eval S = None" "ss_incoming S = []" "ss_advertise_pending S"
    "list_all is_ack (ss_out S)" "sv_version (ss_service S) = sv_version (ss_service a) + of_nat (length (at_pulls q))"
    "disk S = (\<lambda>p. if p \<in> set (at_pulls q) then disk sd p else disk a p)"
    using S by (simp_all add: drained_def aside_def)
  have at: "waits q a" "unsettled q a" "ss_have_remote a"
    using a(1,4) by (simp_all add: stands_def at_rest_def)
  have sent: "ss_last_sent_valid S" "ss_last_sent S = at_local q" "ss_last_sent_version S = sv_version (ss_service a)"
    "sv_tag (ss_service S) = at_tag q" "ss_have_remote S"
    using fields(1,2) at by (simp_all add: told_def view_def waits_def unsettled_def)
  have "ss_last_sent_version S \<noteq> sv_version (ss_service S)"
    using short_count [OF a(5)] a(4) by (simp add: sent(3) fields(11))
  moreover have "valid_manifest (ss_last_sent S)" "syncable (sv_local (ss_service S))"
    using a(3) new sent(2) by (simp_all add: syncable_def)
  ultimately obtain ms where adv: "ss_out (advertise S) = ss_out S @ ms" "mute (advertise S) = mute (advertised S)"
    "tells (at_tag q) (at_local q) new ms"
    using advertise_next [OF sent(1)] unfolding sent(2,4) new(1) by blast
  have "waits ?q (advertised S)" "unsettled ?q (advertised S)"
    using at fields new(1) by (simp_all add: after_pulls_def waits_def unsettled_def view_def told_def cong: if_cong)
  then have "stands pf ?q (maybe_synced pf (advertise S)) \<and> ss_out (maybe_synced pf (advertise S)) = ss_out (advertise S)"
    using waits_mute [OF adv(2)] fields(7) sent(5) a(2) by (intro check_stands) simp_all
  then show thesis
    using that [of "ss_out S" ms] adv(1,3) fields(10)
      maybe_synced_tells [OF fields(3,8,6,9) adv(2), of pf] by simp
qed

lemma pulls_land:
  assumes a: "stands pfa qa a" "ss_out a = []" "two_way_options qa" "syncable (at_local qa)"
      "cf_max_pending_pulls (at_config qa) \<noteq> 0" "distinct (at_pulls qa)" "length (at_pulls qa) < 2 ^ 64"
    and b: "stands pfb qb b" "ss_out b = []" "two_way_options qb" "cf_chunk_size (at_config qb) \<noteq> 0"
      "at_pulls qa \<noteq> [] \<longrightarrow> \<not> at_rest qb"
    and both: "platforms_ok pfb pfa" "at_tag qa = at_tag qb" "\<forall>p \<in> set (at_pulls qa). servable pfb b a p"
    and new: "syncable new" "\<forall>p. om_find new p =
      (if p \<in> set (at_pulls qa) then Some (served_meta pfb b p (the (disk b p))) else om_find (at_local qa) p)"
  obtains a' b' acks ms where "(pull_turn pfb pfa ^^ length (at_pulls qa)) (b, a) = (b', a')"
    "stands pfb qb b'" "ss_out b' = []" "stands pfa (after_pulls (at_disk qb) new qa) a'"
    "ss_out a' = acks @ ms" "list_all is_ack acks" "tells (at_tag qa) (at_local qa) new ms"
proof (cases "at_pulls qa = []")
  case True
  have "om_inv (at_local qa)" "om_inv new" "om_find new = om_find (at_local qa)"
    using a(4) new True by (simp_all add: syncable_def valid_manifest_def fun_eq_iff)
  then have "new = at_local qa"
    using om.find_inject by blast
  moreover from this have "after_pulls (at_disk qb) new qa = qa"
    using True by (cases qa) (simp add: after_pulls_def)
  ultimately show thesis
    using that [of b a "[]" "[]"] a(1,2) b(1,2) True by simp
next
  case False
  have at: "waits qa a" "waits qb b" "ss_last_eval a = None"
    using a(1) b(1) False by (simp_all add: stands_def)
  have "partner b"
    using stands_partner b(1,3,5) False by blast
  moreover have "puller b (at_pulls qa) a"
    using at(1,2) a(5,6) both(2) by (simp add: puller_def waits_def)
  moreover have "om_inv (sv_local (ss_service a))" "cf_chunk_size (config b) \<noteq> 0"
    using at(1,2) a(4) b(4) by (simp_all add: waits_def syncable_def valid_manifest_def)
  ultimately obtain b' S where run: "(pull_turn pfb pfa ^^ length (at_pulls qa)) (b, a) = (b', maybe_synced pfa S)"
    "partner b'" "kept b' = kept b" "ss_out b' = []" "drained pfb b (at_pulls qa) a S"
    using partner.pulls_drain [of b pfb pfa "at_pulls qa" a] a(2) b(2) both(1,3) False at(3) by auto
  have "om_find (sv_local (ss_service S)) = om_find new" "om_inv (sv_local (ss_service S))"
    using run(5) new(2) at(1) by (simp_all add: drained_def fun_eq_iff waits_def)
  then have "sv_local (ss_service S) = new"
    using new(1) om.find_inject by (auto simp: syncable_def valid_manifest_def)
  moreover have "disk b = at_disk qb"
    using at(2) by (simp add: waits_def)
  ultimately show thesis
    using drained_stands [OF a(1,3,4) False a(7) run(5) _ new(1)] that run(1,4) partner_stands [OF b(1) run(2,3)] by metis
qed

section \<open>The messages cross\<close>

text \<open>What both ends have sent crosses the wire.\<close>

definition cross :: "platform \<Rightarrow> platform \<Rightarrow> session \<times> session \<Rightarrow> session \<times> session" where
  "cross pfa pfb link =
     (let (a, b) = link
      in (fold (deliver pfa) (ss_out b) (a\<lparr>ss_out := []\<rparr>), fold (deliver pfb) (ss_out a) (b\<lparr>ss_out := []\<rparr>)))"

lemma stands_flushed: "stands pf q (x\<lparr>ss_out := []\<rparr>) = stands pf q x"
  by (rule stands_still) (simp add: still_def)

lemma cross_swap: "cross pfb pfa (b, a) = prod.swap (cross pfa pfb (a, b))"
  by (simp add: cross_def)

lemma cross_hears:
  assumes a: "stands pfa qa a" "two_way_options qa" "ss_out a = acksa @ msa" "list_all is_ack acksa"
      "tells (at_tag qb) (at_remote qb) newa msa" "msa = [] \<and> at_remote qb = newa \<or> nothing_new qb newa"
    and b: "stands pfb qb b" "two_way_options qb" "ss_out b = acksb @ msb" "list_all is_ack acksb"
      "tells (at_tag qa) (at_remote qa) newb msb" "msb = [] \<and> at_remote qa = newb \<or> nothing_new qa newb"
  obtains a' b' where "cross pfa pfb (a, b) = (a', b')" "stands pfa (qa\<lparr>at_remote := newb\<rparr>) a'" "ss_out a' = []"
    "stands pfb (qb\<lparr>at_remote := newa\<rparr>) b'" "ss_out b' = []"
proof -
  note flushed = stands_flushed [THEN iffD2, OF a(1)] stands_flushed [THEN iffD2, OF b(1)]
  show thesis
    using that [of "fold (deliver pfa) (ss_out b) (a\<lparr>ss_out := []\<rparr>)" "fold (deliver pfb) (ss_out a) (b\<lparr>ss_out := []\<rparr>)"]
      hears [OF flushed(1) a(2) b(6,5,4)] hears [OF flushed(2) b(2) a(6,5,4)] a(3) b(3)
    by (simp add: cross_def)
qed

text \<open>One end pulls all it has to and tells what it has now; nothing of it is news to the other's plan.\<close>

lemma pulls_told:
  assumes a: "stands pfa qa a" "ss_out a = []" "two_way_options qa" "syncable (at_local qa)"
      "cf_max_pending_pulls (at_config qa) \<noteq> 0" "distinct (at_pulls qa)" "length (at_pulls qa) < 2 ^ 64"
    and b: "stands pfb qb b" "ss_out b = []" "two_way_options qb" "cf_chunk_size (at_config qb) \<noteq> 0"
      "at_pulls qa \<noteq> [] \<longrightarrow> \<not> at_rest qb"
    and both: "platforms_ok pfb pfa" "at_tag qa = at_tag qb" "\<forall>p \<in> set (at_pulls qa). servable pfb b a p"
    and new: "syncable new" "\<forall>p. om_find new p =
      (if p \<in> set (at_pulls qa) then Some (served_meta pfb b p (the (disk b p))) else om_find (at_local qa) p)"
    and known: "at_remote qb = at_local qa" "nothing_new qb new"
  obtains a' b' where "cross pfa pfb (prod.swap ((pull_turn pfb pfa ^^ length (at_pulls qa)) (b, a))) = (a', b')"
    "stands pfa (after_pulls (at_disk qb) new qa) a'" "ss_out a' = []" "stands pfb (qb\<lparr>at_remote := new\<rparr>) b'" "ss_out b' = []"
proof -
  let ?qa = "after_pulls (at_disk qb) new qa"
  obtain a1 b1 acks ms where run: "(pull_turn pfb pfa ^^ length (at_pulls qa)) (b, a) = (b1, a1)"
    "stands pfb qb b1" "ss_out b1 = []" "stands pfa ?qa a1"
    "ss_out a1 = acks @ ms" "list_all is_ack acks" "tells (at_tag qa) (at_local qa) new ms"
    by (rule pulls_land [OF a b both new])
  have told: "tells (at_tag qb) (at_remote qb) new ms" "ms = [] \<and> at_remote qb = new \<or> nothing_new qb new"
    using run(7) known both(2) by simp_all
  have silent: "ss_out b1 = [] @ []" "list_all is_ack ([] :: bytes list)" "tells (at_tag ?qa) (at_remote ?qa) (at_remote ?qa) []"
    using run(3) by simp_all
  have qa: "two_way_options ?qa"
    using a(3) by simp
  obtain a' b' where crossed: "cross pfa pfb (a1, b1) = (a', b')" "stands pfa (?qa\<lparr>at_remote := at_remote ?qa\<rparr>) a'"
    "ss_out a' = []" "stands pfb (qb\<lparr>at_remote := new\<rparr>) b'" "ss_out b' = []"
    by (rule cross_hears [OF run(4) qa run(5,6) told run(2) b(3) silent]) simp
  then have "stands pfa ?qa a'"
    unfolding standing_same by simp
  then show thesis
    using that crossed run(1) by simp
qed

end
