(* ===== verification/Two_Way.thy ===== *)
theory Two_Way
  imports Standing Handshake
begin

text \<open>
  Two peers in two-way mode, from the handshake to agreement: both describe their trees, each deletes and
  pulls what its own plan says while it serves what the other's plan asks of it, and both end with the
  merged tree and remember it as their baseline.
\<close>

section \<open>The run\<close>

text \<open>Two fresh sessions that have each heard the other's Hello.\<close>

definition greeted :: "platform \<Rightarrow> platform \<Rightarrow> service \<Rightarrow> service \<Rightarrow> session \<times> session" where
  "greeted pfa pfb sva svb =
     (deliver pfa (hello_message svb) (new_session sva), deliver pfb (hello_message sva) (new_session svb))"

text \<open>The trees are exchanged, then what the rounds deleted; one end pulls, tells, the other pulls, tells.\<close>

definition two_way_run :: "platform \<Rightarrow> platform \<Rightarrow> nat \<Rightarrow> nat \<Rightarrow> session \<times> session \<Rightarrow> session \<times> session" where
  "two_way_run pfa pfb n m link =
     (let link = cross pfa pfb (cross pfa pfb link);
          link = prod.swap ((pull_turn pfb pfa ^^ n) (prod.swap link));
          link = cross pfa pfb link;
          link = (pull_turn pfa pfb ^^ m) link
      in cross pfa pfb link)"

section \<open>Both ends\<close>

text \<open>What the options, the baselines and the trees of the two ends must have in common.\<close>

definition facing :: "reconcile_options \<Rightarrow> reconcile_options \<Rightarrow> manifest \<Rightarrow> manifest \<Rightarrow> manifest \<Rightarrow> manifest \<Rightarrow> bool" where
  "facing opt opt' b b' l r \<longleftrightarrow> ro_mode opt = TwoWay \<and> ro_mode opt' = TwoWay
     \<and> ro_propagate_deletes opt \<and> ro_propagate_deletes opt' \<and> ro_conflict opt' = complement (ro_conflict opt)
     \<and> same_tree b b' \<and> (\<forall>p. distinguished (om_find l p) (om_find r p))"

lemma facing_kinds:
  assumes "facing opt opt' b b' l r"
  shows "kind_of opt' b' r l p = flip (kind_of opt b l r p)"
proof -
  have modes: "ro_mode opt \<noteq> Mirror" "ro_mode opt' \<noteq> Mirror"
    using assms by (simp_all add: facing_def)
  have "adopt opt' = adopt (peer_of opt)" "ro_conflict opt' = ro_conflict (peer_of opt)"
    using assms by (auto simp: facing_def adopt_def fun_eq_iff)
  then have "decide_two_way R L B opt' = decide_two_way R L B (peer_of opt)" for R L B
    by (simp add: decide_two_way_cases)
  moreover have "two_way_ok opt (om_find l p) (om_find r p) \<and> agree (om_find b p) (om_find b' p)"
    using assms by (simp add: facing_def two_way_ok_def same_tree_def)
  from two_way.mirrored [OF this]
  have "d_kind (decide_two_way (om_find r p) (om_find l p) (om_find b' p) (peer_of opt)) =
      flip (d_kind (decide_two_way (om_find l p) (om_find r p) (om_find b p) opt))" .
  ultimately show ?thesis
    by (simp only: kind_of_two_way [OF modes(1)] kind_of_two_way [OF modes(2)])
qed

text \<open>The five things that can happen to a path.\<close>

lemma facing_cases:
  assumes "facing opt opt' b b' l r"
  obtains (same) "kind_of opt b l r p = NoAction" "agree (om_find l p) (om_find r p)"
  | (pulled) "kind_of opt b l r p = Pull" "om_find r p \<noteq> None" "\<not> agree (om_find l p) (om_find r p)"
  | (pushed) "kind_of opt b l r p = Push" "om_find l p \<noteq> None" "\<not> agree (om_find l p) (om_find r p)"
  | (deleted) "kind_of opt b l r p = DeleteLocal" "om_find l p \<noteq> None" "om_find r p = None"
  | (dropped) "kind_of opt b l r p = DeleteRemote" "om_find l p = None" "om_find r p \<noteq> None"
proof -
  let ?k = "kind_of opt b l r p"
  have cases: "?k = (if agree (om_find l p) (om_find r p) then NoAction
      else if agree (om_find r p) (om_find b p) then keep (om_find l p)
      else if agree (om_find l p) (om_find b p) then adopt opt (om_find r p)
      else if local_wins (om_find l p) (om_find r p) (ro_conflict opt) then keep (om_find l p) else adopt opt (om_find r p))"
    using assms by (simp add: kind_of_two_way facing_def decide_two_way_cases)
  show thesis
  proof (cases "agree (om_find l p) (om_find r p)")
    case True
    then show thesis
      using same cases by simp
  next
    case False
    then consider "?k = keep (om_find l p)" | "?k = adopt opt (om_find r p)"
      using cases by (auto split: if_splits)
    then show thesis
    proof cases
      case 1
      then show thesis
        using False pushed dropped by (cases "om_find l p"; cases "om_find r p") (simp_all add: keep_def)
    next
      case 2
      moreover have "ro_propagate_deletes opt"
        using assms by (simp add: facing_def)
      ultimately show thesis
        using False pulled deleted by (cases "om_find l p"; cases "om_find r p") (simp_all add: adopt_def)
    qed
  qed
qed

text \<open>On the way from the first round to agreement a path either agrees or has not been touched, and then it
  waits for the action it had from the start.\<close>

definition halfway :: "reconcile_options \<Rightarrow> manifest \<Rightarrow> manifest \<Rightarrow> manifest \<Rightarrow> manifest \<Rightarrow> manifest \<Rightarrow> bool" where
  "halfway opt b l r L R \<longleftrightarrow> (\<forall>p. agree (om_find L p) (om_find R p)
     \<or> om_find L p = om_find l p \<and> om_find R p = om_find r p \<and> kind_of opt b l r p \<noteq> DeleteLocal)"

lemma halfway_plan:
  assumes "ro_mode opt = TwoWay" "halfway opt b l r L R"
  shows "pl_delete_local (reconcile b L R opt) = []" "set (pl_pull (reconcile b L R opt)) \<subseteq> set (pl_pull (reconcile b l r opt))"
proof -
  have mode: "ro_mode opt \<noteq> Mirror"
    using assms(1) by simp
  have kinds: "kind_of opt b L R p = NoAction \<or> kind_of opt b L R p = kind_of opt b l r p \<and> kind_of opt b l r p \<noteq> DeleteLocal" for p
  proof (cases "agree (om_find L p) (om_find R p)")
    case True
    then show ?thesis
      by (simp only: kind_of_two_way [OF mode] decide_two_way_cases) simp
  next
    case False
    then have "om_find L p = om_find l p" "om_find R p = om_find r p" "kind_of opt b l r p \<noteq> DeleteLocal"
      using assms(2) unfolding halfway_def by blast+
    then show ?thesis
      unfolding kind_of_two_way [OF mode] by simp
  qed
  have "p \<notin> set (pl_delete_local (reconcile b L R opt))" for p
    using kinds [of p] by (auto simp: two_way_plan(2) [OF assms(1)])
  then show "pl_delete_local (reconcile b L R opt) = []"
    by (metis list.set_intros(1) neq_Nil_conv)
  show "set (pl_pull (reconcile b L R opt)) \<subseteq> set (pl_pull (reconcile b l r opt))"
  proof
    fix p
    assume "p \<in> set (pl_pull (reconcile b L R opt))"
    then show "p \<in> set (pl_pull (reconcile b l r opt))"
      using kinds [of p] by (auto simp: two_way_plan(1) [OF assms(1)])
  qed
qed

text \<open>One end's manifest after its deletions, and after its pulls.\<close>

definition cleared :: "reconcile_options \<Rightarrow> manifest \<Rightarrow> manifest \<Rightarrow> manifest \<Rightarrow> manifest" where
  "cleared opt b l r = fold man_remove (pl_delete_local (reconcile b l r opt)) l"

abbreviation merged :: "reconcile_options \<Rightarrow> manifest \<Rightarrow> manifest \<Rightarrow> manifest \<Rightarrow> manifest" where
  "merged opt b l r \<equiv> follow (reconcile b l r opt) l r"

lemma cleared_find:
  assumes "ro_mode opt = TwoWay" "om_inv l"
  shows "om_find (cleared opt b l r) p = (if kind_of opt b l r p = DeleteLocal then None else om_find l p)"
  unfolding cleared_def removes_find(2) [OF assms(2)] two_way_plan(2) [OF assms(1)] ..

lemma agree_None [simp]: "agree None x \<longleftrightarrow> x = None" "agree x None \<longleftrightarrow> x = None"
  by (cases x; simp)+

text \<open>The trees on the way: what each end has when it hears from the other.\<close>

lemma trees_on_the_way:
  assumes face: "facing opt opt' b b' l r" and inv: "om_inv l" "om_inv r"
  defines "la \<equiv> cleared opt b l r" and "lb \<equiv> cleared opt' b' r l" and "na \<equiv> merged opt b l r" and "nb \<equiv> merged opt' b' r l"
  shows "halfway opt b l r la lb" "halfway opt' b' r l lb la" "halfway opt' b' r l lb na" "same_tree na nb"
    and "pl_pull (reconcile b l r opt) = [] \<Longrightarrow> same_tree la r \<Longrightarrow> same_tree la lb"
    and "pl_pull (reconcile b l r opt) = [] \<Longrightarrow> same_tree lb la \<Longrightarrow> same_tree lb na"
    and "p \<in> set (pl_pull (reconcile b l r opt)) \<Longrightarrow> om_find lb p = om_find r p \<and> om_find r p \<noteq> None \<and> \<not> agree (om_find la p) (om_find lb p)"
    and "p \<in> set (pl_pull (reconcile b' r l opt')) \<Longrightarrow> om_find na p = om_find l p \<and> om_find l p \<noteq> None \<and> \<not> agree (om_find lb p) (om_find na p)"
proof -
  have modes: "ro_mode opt = TwoWay" "ro_mode opt' = TwoWay"
    using face by (simp_all add: facing_def)
  note finds = cleared_find [OF modes(1) inv(1)] cleared_find [OF modes(2) inv(2)] follow_settles [OF inv(1)] follow_settles [OF inv(2)]
    facing_kinds [OF face]
  have step: "agree (om_find la p) (om_find lb p) \<or> om_find la p = om_find l p \<and> om_find lb p = om_find r p \<and> kind_of opt b l r p \<noteq> DeleteLocal \<and> kind_of opt' b' r l p \<noteq> DeleteLocal"
    "agree (om_find lb p) (om_find na p) \<or> om_find lb p = om_find r p \<and> om_find na p = om_find l p \<and> kind_of opt' b' r l p \<noteq> DeleteLocal"
    "agree (om_find na p) (om_find nb p)" for p
    using face by (cases rule: facing_cases [where p = p]; simp add: la_def lb_def na_def nb_def finds agree_sym)+
  show "halfway opt b l r la lb" "halfway opt' b' r l lb na" "same_tree na nb"
    unfolding halfway_def same_tree_def using step by blast+
  show "halfway opt' b' r l lb la"
    unfolding halfway_def using step(1) agree_sym by blast
  have none: "kind_of opt b l r p \<noteq> Pull" if "pl_pull (reconcile b l r opt) = []" for p
    using that two_way_plan(1) [OF modes(1), of p b l r] by simp
  show "same_tree la lb" if "pl_pull (reconcile b l r opt) = []" "same_tree la r"
    unfolding same_tree_def
  proof
    fix p
    show "agree (om_find la p) (om_find lb p)"
      using face none [OF that(1), of p] that(2) [unfolded same_tree_def, rule_format, of p]
      by (cases rule: facing_cases [where p = p]; simp add: la_def lb_def finds)
  qed
  show "same_tree lb na" if "pl_pull (reconcile b l r opt) = []" "same_tree lb la"
    unfolding same_tree_def
  proof
    fix p
    show "agree (om_find lb p) (om_find na p)"
      using face none [OF that(1), of p] that(2) [unfolded same_tree_def, rule_format, of p]
      by (cases rule: facing_cases [where p = p]; simp add: la_def lb_def na_def finds)
  qed
  show "om_find lb p = om_find r p \<and> om_find r p \<noteq> None \<and> \<not> agree (om_find la p) (om_find lb p)"
    if "p \<in> set (pl_pull (reconcile b l r opt))"
    using face that by (cases rule: facing_cases [where p = p]) (simp_all add: two_way_plan(1) [OF modes(1)] la_def lb_def finds)
  show "om_find na p = om_find l p \<and> om_find l p \<noteq> None \<and> \<not> agree (om_find lb p) (om_find na p)"
    if "p \<in> set (pl_pull (reconcile b' r l opt'))"
    using face that agree_sym
    by (cases rule: facing_cases [where p = p]) (auto simp: two_way_plan(1) [OF modes(2)] lb_def na_def finds)
qed

section \<open>From the handshake to the first answer\<close>

definition start_at :: "service \<Rightarrow> standing" where
  "start_at sv = \<lparr>at_config = sv_config sv, at_tag = sv_tag sv, at_base = sv_base sv, at_disk = sv_disk sv,
     at_local = sv_local sv, at_remote = [], at_pulls = []\<rparr>"

lemma start_at_simps [simp]:
  "at_config (start_at sv) = sv_config sv" "at_tag (start_at sv) = sv_tag sv" "at_base (start_at sv) = sv_base sv"
  "at_disk (start_at sv) = sv_disk sv" "at_local (start_at sv) = sv_local sv" "at_pulls (start_at sv) = []"
  "two_way_options (start_at sv) \<longleftrightarrow> cf_mode (sv_config sv) = TwoWay \<and> cf_propagate_deletes (sv_config sv)"
  by (simp_all add: start_at_def two_way_options_def)

text \<open>What a two-way folder must be for the other end: a manifest that can be sent and is true, files of a
  bounded size, and limits that are not zero.\<close>

definition sound_folder :: "platform \<Rightarrow> service \<Rightarrow> bool" where
  "sound_folder pf sv \<longleftrightarrow> cf_mode (sv_config sv) = TwoWay \<and> cf_propagate_deletes (sv_config sv)
     \<and> syncable (sv_local sv) \<and> truthful pf (new_session sv) \<and> small_files (new_session sv)
     \<and> length (cf_folder (sv_config sv)) < 65536 \<and> cf_chunk_size (sv_config sv) \<noteq> 0
     \<and> cf_max_pending_pulls (sv_config sv) \<noteq> 0 \<and> (\<forall>p. pf_remove pf p)"

definition two_way_ready :: "platform \<Rightarrow> platform \<Rightarrow> service \<Rightarrow> service \<Rightarrow> bool" where
  "two_way_ready pfa pfb sva svb \<longleftrightarrow> sound_folder pfa sva \<and> sound_folder pfb svb \<and> sv_tag svb = sv_tag sva
     \<and> compatible (sv_config sva) (sv_config svb) \<and> same_tree (sv_base sva) (sv_base svb)
     \<and> length (sv_local sva) + length (sv_local svb) < 2 ^ 32
     \<and> platforms_ok pfa pfb \<and> platforms_ok pfb pfa
     \<and> told_apart pfa (new_session sva) (new_session svb) \<and> told_apart pfb (new_session svb) (new_session sva)"

lemma two_way_ready_sym: "two_way_ready pfa pfb sva svb \<Longrightarrow> two_way_ready pfb pfa svb sva"
  by (simp add: two_way_ready_def compatible_sym same_tree_sym add.commute)

lemma told_apart_data:
  assumes "told_apart pf sd rc" "disk sd p = Some f" "disk rc p = Some g" "pf_sha pf (df_data f) = pf_sha pf (df_data g)"
  shows "df_data f = df_data g"
  using assms unfolding told_apart_def by blast

lemma new_session_service [simp]: "ss_service (new_session sv) = sv"
  by (simp add: new_session_def)

lemma ready_facing:
  assumes "two_way_ready pfa pfb sva svb"
  shows "facing (opts_of (sv_config sva)) (opts_of (sv_config svb)) (sv_base sva) (sv_base svb) (sv_local sva) (sv_local svb)"
proof -
  have "distinguished (om_find (sv_local sva) p) (om_find (sv_local svb) p)" for p
  proof (cases "om_find (sv_local sva) p"; cases "om_find (sv_local svb) p")
    fix m n
    assume found: "om_find (sv_local sva) p = Some m" "om_find (sv_local svb) p = Some n"
    have true: "truthful pfa (new_session sva)" "truthful pfb (new_session svb)"
      using assms by (simp_all add: two_way_ready_def sound_folder_def)
    have entries: "om_find (sv_local (ss_service (new_session sva))) p = Some m" "om_find (sv_local (ss_service (new_session svb))) p = Some n"
      using found by simp_all
    obtain f where f: "disk (new_session sva) p = Some f" "fm_size m = of_nat (length (df_data f))" "fm_mtime m = df_mtime f"
      "fm_hash m = pf_sha pfa (df_data f)"
      by (rule truthful_file [OF true(1) entries(1)])
    obtain g where g: "disk (new_session svb) p = Some g" "fm_size n = of_nat (length (df_data g))" "fm_mtime n = df_mtime g"
      "fm_hash n = pf_sha pfb (df_data g)"
      by (rule truthful_file [OF true(2) entries(2)])
    have "pf_sha pfb = pf_sha pfa" "told_apart pfa (new_session sva) (new_session svb)"
      using assms unfolding two_way_ready_def platforms_ok_def by blast+
    then have "df_data f = df_data g" if "fm_hash m = fm_hash n"
      using that told_apart_data [OF _ f(1) g(1)] f(4) g(4) by simp
    then show ?thesis
      using found f g by auto
  qed simp_all
  then show ?thesis
    using assms by (simp add: facing_def two_way_ready_def sound_folder_def compatible_def opts_of_def)
qed

lemma greeting:
  assumes ready: "two_way_ready pfa pfb sva svb"
  obtains x where "deliver pfa (hello_message svb) (new_session sva) = x"
    "waits (start_at sva) (x\<lparr>ss_out := []\<rparr>)" "unsettled (start_at sva) (x\<lparr>ss_out := []\<rparr>)" "ss_last_eval x = None"
    "\<forall>old. updates (sv_tag sva) old (sv_local sva) (ss_out x)"
proof -
  let ?s = "new_session sva"
  have s: "\<not> ss_last_sent_valid ?s" "syncable (sv_local (ss_service ?s))" "ss_out ?s = []"
    using ready by (simp_all add: new_session_def two_way_ready_def sound_folder_def)
  have "deliver pfa (hello_message svb) ?s = advertise ?s"
    using ready deliver_hello [of ?s svb pfa] by (simp add: new_session_def two_way_ready_def sound_folder_def)
  moreover obtain ms where ms: "ss_out (advertise ?s) = ss_out ?s @ ms"
    "\<forall>old. updates (sv_tag (ss_service ?s)) old (sv_local (ss_service ?s)) ms" "mute (advertise ?s) = mute (advertised ?s)"
    by (rule advertise_first [OF s(1,2)])
  moreover have "mute ((advertise ?s)\<lparr>ss_out := []\<rparr>) = mute (advertised ?s)"
    using ms(3) by (simp add: mute_def)
  moreover have "waits (start_at sva) (advertised ?s)" "unsettled (start_at sva) (advertised ?s)" "ss_last_eval (advertised ?s) = None"
    using ready by (simp_all add: new_session_def waits_def unsettled_def start_at_def)
  ultimately show thesis
    using that [of "advertise ?s"] waits_mute [of "(advertise ?s)\<lparr>ss_out := []\<rparr>" "advertised ?s"] waits_mute(4) [OF ms(3)] s(3)
    by (simp add: new_session_def)
qed

text \<open>The first round of one end: its deletions, and what it tells of them.\<close>

lemma first_answer:
  assumes ready: "two_way_ready pfa pfb sva svb"
  obtains ms where "stands pfa (after_deletes (sv_local svb) (start_at sva)) (fst (cross pfa pfb (greeted pfa pfb sva svb)))"
    "ss_out (fst (cross pfa pfb (greeted pfa pfb sva svb))) = ms"
    "tells (sv_tag sva) (sv_local sva) (at_local (after_deletes (sv_local svb) (start_at sva))) ms"
proof -
  obtain a where a: "deliver pfa (hello_message svb) (new_session sva) = a" "waits (start_at sva) (a\<lparr>ss_out := []\<rparr>)"
    "unsettled (start_at sva) (a\<lparr>ss_out := []\<rparr>)" "ss_last_eval a = None"
    by (rule greeting [OF ready])
  obtain b where b: "deliver pfb (hello_message sva) (new_session svb) = b" "\<forall>old. updates (sv_tag svb) old (sv_local svb) (ss_out b)"
    by (rule greeting [OF two_way_ready_sym [OF ready]])
  let ?a = "a\<lparr>ss_out := []\<rparr>"
  have "updates (sv_tag sva) (ss_remote ?a) (sv_local svb) (ss_out b)"
    using b(2) ready by (simp add: two_way_ready_def)
  moreover have "\<not> ss_incompatible ?a" "sv_tag (ss_service ?a) = sv_tag sva" "\<not> ss_staging_active ?a"
    using a(2) by (simp_all add: waits_def)
  ultimately obtain staged where heard: "fold (deliver pfa) (ss_out b) ?a = reconcile_and_act pfa (committed staged (sv_local svb) ?a)"
    unfolding updates_def by blast
  have "two_way_options (start_at sva)" "syncable (at_local (start_at sva))" "\<And>p. pf_remove pfa p" "ss_last_eval ?a = None"
    using ready a(4) by (simp_all add: two_way_ready_def sound_folder_def)
  then obtain ms where "stands pfa (after_deletes (sv_local svb) (start_at sva)) (reconcile_and_act pfa (committed staged (sv_local svb) ?a))"
    "ss_out (reconcile_and_act pfa (committed staged (sv_local svb) ?a)) = ss_out ?a @ ms"
    "tells (at_tag (start_at sva)) (at_local (start_at sva)) (at_local (after_deletes (sv_local svb) (start_at sva))) ms"
    using first_round [OF a(2,3)] by (metis start_at_simps(6))
  then show thesis
    using that a(1) b(1) heard by (simp add: cross_def greeted_def)
qed

lemma first_answers:
  assumes ready: "two_way_ready pfa pfb sva svb"
  obtains a b where "cross pfa pfb (greeted pfa pfb sva svb) = (a, b)"
    "stands pfa (after_deletes (sv_local svb) (start_at sva)) a" "stands pfb (after_deletes (sv_local sva) (start_at svb)) b"
    "tells (sv_tag sva) (sv_local sva) (at_local (after_deletes (sv_local svb) (start_at sva))) (ss_out a)"
    "tells (sv_tag svb) (sv_local svb) (at_local (after_deletes (sv_local sva) (start_at svb))) (ss_out b)"
proof -
  have "greeted pfb pfa svb sva = prod.swap (greeted pfa pfb sva svb)"
    by (simp add: greeted_def)
  then have "cross pfb pfa (greeted pfb pfa svb sva) = prod.swap (cross pfa pfb (greeted pfa pfb sva svb))"
    using cross_swap by (metis prod.swap_def surjective_pairing)
  then have "fst (cross pfb pfa (greeted pfb pfa svb sva)) = snd (cross pfa pfb (greeted pfa pfb sva svb))"
    by simp
  then show thesis
    using that [OF surjective_pairing] first_answer [OF ready] first_answer [OF two_way_ready_sym [OF ready]] by metis
qed

section \<open>The pulls of both\<close>

text \<open>What one end pulls, the other can serve, and the entry that arrives is the other's own.\<close>

lemma asked_is_served:
  assumes ready: "two_way_ready pfa pfb sva svb" and p: "om_find (sv_local svb) p \<noteq> None"
    and a: "config a = sv_config sva" "disk a p = sv_disk sva p \<or> disk a p = None"
    and b: "disk b p = sv_disk svb p" "om_find (sv_local (ss_service b)) p = om_find (sv_local svb) p"
  shows "servable pfb b a p" "Some (served_meta pfb b p (the (disk b p))) = om_find (sv_local svb) p"
proof -
  have r: "syncable (sv_local svb)" "truthful pfb (new_session svb)" "small_files (new_session svb)" "small_files (new_session sva)"
    "told_apart pfb (new_session svb) (new_session sva)"
    using ready by (simp_all add: two_way_ready_def sound_folder_def)
  show "servable pfb b a p"
    using p r a b(1) by (intro tracked_servable [of "new_session svb" p pfb "new_session sva"]) simp_all
  obtain m where m: "om_find (sv_local svb) p = Some m"
    using p by blast
  have "served_meta pfb (new_session svb) p (the (disk (new_session svb) p)) = m"
    using served_meta_truthful [OF r(2)] m by simp
  then show "Some (served_meta pfb b p (the (disk b p))) = om_find (sv_local svb) p"
    using b m by (simp add: served_meta_def man_find_om)
qed

lemma nothing_newI:
  assumes "two_way_options q" "at_pulls q = pl_pull (reconcile (at_base q) l r (opts_of (at_config q)))"
    and "halfway (opts_of (at_config q)) (at_base q) l r (at_local q) new" "at_rest q \<Longrightarrow> same_tree (at_local q) new"
  shows "nothing_new q new"
  using assms halfway_plan [of "opts_of (at_config q)"] by (auto simp: nothing_new_def two_way_options_def opts_of_def)

lemma merged_find:
  assumes "ro_mode opt = TwoWay" "om_inv l"
  shows "om_find (merged opt b l r) p =
    (if p \<in> set (pl_pull (reconcile b l r opt)) then om_find r p else om_find (cleared opt b l r) p)"
  using assms by (cases "kind_of opt b l r p") (simp_all add: follow_settles cleared_find two_way_plan)

lemma after_deletes_local:
  "at_local (after_deletes r (start_at sv)) = cleared (opts_of (sv_config sv)) (sv_base sv) (sv_local sv) r"
  by (simp add: after_deletes_def cleared_def)

text \<open>The trees of one end against the other's, by service.\<close>

abbreviation cleared_of :: "service \<Rightarrow> service \<Rightarrow> manifest" where
  "cleared_of sv other \<equiv> cleared (opts_of (sv_config sv)) (sv_base sv) (sv_local sv) (sv_local other)"

abbreviation plan_for :: "service \<Rightarrow> service \<Rightarrow> sync_plan" where
  "plan_for sv other \<equiv> reconcile (sv_base sv) (sv_local sv) (sv_local other) (opts_of (sv_config sv))"

abbreviation merged_of :: "service \<Rightarrow> service \<Rightarrow> manifest" where
  "merged_of sv other \<equiv> follow (plan_for sv other) (sv_local sv) (sv_local other)"

lemma ready_modes:
  assumes "two_way_ready pfa pfb sva svb"
  shows "ro_mode (opts_of (sv_config sva)) = TwoWay" "om_inv (sv_local sva)" "om_inv (sv_local svb)"
    "two_way_options (start_at sva)" "length (sv_local svb) < 2 ^ 32"
  using assms by (simp_all add: two_way_ready_def sound_folder_def opts_of_def syncable_def valid_manifest_def)

lemma ready_trees:
  assumes "two_way_ready pfa pfb sva svb"
  shows "halfway (opts_of (sv_config sva)) (sv_base sva) (sv_local sva) (sv_local svb) (cleared_of sva svb) (cleared_of svb sva)"
    "halfway (opts_of (sv_config svb)) (sv_base svb) (sv_local svb) (sv_local sva) (cleared_of svb sva) (merged_of sva svb)"
    "same_tree (merged_of sva svb) (merged_of svb sva)"
    and "pl_pull (plan_for sva svb) = [] \<Longrightarrow> same_tree (cleared_of sva svb) (sv_local svb) \<Longrightarrow>
      same_tree (cleared_of sva svb) (cleared_of svb sva)"
    and "pl_pull (plan_for sva svb) = [] \<Longrightarrow> same_tree (cleared_of svb sva) (cleared_of sva svb) \<Longrightarrow>
      same_tree (cleared_of svb sva) (merged_of sva svb)"
    and "p \<in> set (pl_pull (plan_for sva svb)) \<Longrightarrow> om_find (cleared_of svb sva) p = om_find (sv_local svb) p
      \<and> om_find (sv_local svb) p \<noteq> None \<and> \<not> agree (om_find (cleared_of sva svb) p) (om_find (cleared_of svb sva) p)"
    and "p \<in> set (pl_pull (plan_for svb sva)) \<Longrightarrow> om_find (merged_of sva svb) p = om_find (sv_local sva) p
      \<and> om_find (sv_local sva) p \<noteq> None \<and> \<not> agree (om_find (cleared_of svb sva) p) (om_find (merged_of sva svb) p)"
proof -
  note trees = trees_on_the_way [OF ready_facing [OF assms] ready_modes(2) [OF assms] ready_modes(3) [OF assms]]
  show "halfway (opts_of (sv_config sva)) (sv_base sva) (sv_local sva) (sv_local svb) (cleared_of sva svb) (cleared_of svb sva)"
    "halfway (opts_of (sv_config svb)) (sv_base svb) (sv_local svb) (sv_local sva) (cleared_of svb sva) (merged_of sva svb)"
    "same_tree (merged_of sva svb) (merged_of svb sva)"
    by (fact trees(1,3,4))+
qed (rule trees_on_the_way(5-8) [OF ready_facing [OF assms] ready_modes(2) [OF assms] ready_modes(3) [OF assms]]; assumption)+

lemma ready_syncable:
  assumes "two_way_ready pfa pfb sva svb"
  shows "syncable (cleared_of sva svb)" "syncable (merged_of sva svb)"
proof -
  note modes = ready_modes [OF assms]
  have sources: "syncable (sv_local sva)" "syncable (sv_local svb)" "length (sv_local sva) + length (sv_local svb) < 2 ^ 32"
    using assms by (simp_all add: two_way_ready_def sound_folder_def)
  show "syncable (cleared_of sva svb)"
  proof (rule syncable_part [OF _ _ sources])
    show "om_inv (cleared_of sva svb)"
      using removes_find(1) [OF modes(2)] by (simp add: cleared_def)
  qed (simp add: cleared_find [OF modes(1,2)])
  show "syncable (merged_of sva svb)"
  proof (rule syncable_part [OF follow_find(1) [OF modes(2)] _ sources])
    show "om_find (merged_of sva svb) p = None \<or> om_find (merged_of sva svb) p = om_find (sv_local sva) p
        \<or> om_find (merged_of sva svb) p = om_find (sv_local svb) p" for p
      using merged_find [OF modes(1,2)] cleared_find [OF modes(1,2)] by simp
  qed
qed

text \<open>Where an end stands when both have heard of each other's deletions.\<close>

definition met :: "service \<Rightarrow> service \<Rightarrow> standing" where
  "met sv other = (after_deletes (sv_local other) (start_at sv))\<lparr>at_remote := cleared_of other sv\<rparr>"

lemma met_simps [simp]:
  "at_config (met sv other) = sv_config sv" "at_tag (met sv other) = sv_tag sv" "at_base (met sv other) = sv_base sv"
  "at_local (met sv other) = cleared_of sv other" "at_remote (met sv other) = cleared_of other sv"
  "at_pulls (met sv other) = pl_pull (plan_for sv other)" "two_way_options (met sv other) = two_way_options (start_at sv)"
  "at_disk (met sv other) = (\<lambda>p. if p \<in> set (pl_delete_local (plan_for sv other)) then None else sv_disk sv p)"
  by (simp_all add: met_def after_deletes_def two_way_options_def cleared_def cong: if_cong)

lemma met_nothing_new:
  assumes ready: "two_way_ready pfa pfb sva svb"
  shows "nothing_new (after_deletes (sv_local svb) (start_at sva)) (cleared_of svb sva)"
proof (rule nothing_newI [where l = "sv_local sva" and r = "sv_local svb"])
  show "two_way_options (after_deletes (sv_local svb) (start_at sva))"
    using ready_modes(4) [OF ready] by simp
qed (use ready_trees(1,4) [OF ready] in \<open>simp_all add: after_deletes_local at_rest_def\<close>)

lemma meeting:
  assumes ready: "two_way_ready pfa pfb sva svb"
  obtains a b where "cross pfa pfb (cross pfa pfb (greeted pfa pfb sva svb)) = (a, b)"
    "stands pfa (met sva svb) a" "ss_out a = []" "stands pfb (met svb sva) b" "ss_out b = []"
proof -
  let ?qa = "after_deletes (sv_local svb) (start_at sva)" and ?qb = "after_deletes (sv_local sva) (start_at svb)"
  have other: "two_way_ready pfb pfa svb sva"
    by (rule two_way_ready_sym [OF ready])
  note modes = ready_modes(4) [OF ready] ready_modes(4) [OF other]
  obtain a b where ab: "cross pfa pfb (greeted pfa pfb sva svb) = (a, b)" "stands pfa ?qa a" "stands pfb ?qb b"
    "tells (sv_tag sva) (sv_local sva) (at_local ?qa) (ss_out a)" "tells (sv_tag svb) (sv_local svb) (at_local ?qb) (ss_out b)"
    by (rule first_answers [OF ready])
  have tells: "tells (at_tag ?qb) (at_remote ?qb) (cleared_of sva svb) (ss_out a)"
    "tells (at_tag ?qa) (at_remote ?qa) (cleared_of svb sva) (ss_out b)"
    using ab(4,5) ready by (simp_all add: after_deletes_local two_way_ready_def)
  have new: "nothing_new ?qa (cleared_of svb sva)" "nothing_new ?qb (cleared_of sva svb)"
    using met_nothing_new [OF ready] met_nothing_new [OF other] by simp_all
  have both: "two_way_options ?qa" "two_way_options ?qb"
    using modes by simp_all
  have quiet: "ss_out a = [] @ ss_out a" "ss_out b = [] @ ss_out b" "list_all is_ack ([] :: bytes list)"
    by simp_all
  obtain a' b' where "cross pfa pfb (a, b) = (a', b')" "stands pfa (met sva svb) a'" "ss_out a' = []"
    "stands pfb (met svb sva) b'" "ss_out b' = []"
    unfolding met_def
    by (rule cross_hears [OF ab(2) both(1) quiet(1,3) tells(1) disjI2 [OF new(2)] ab(3) both(2) quiet(2,3) tells(2) disjI2 [OF new(1)]])
  then show thesis
    using that ab(1) by simp
qed

text \<open>The first end pulls.\<close>

definition fed :: "service \<Rightarrow> service \<Rightarrow> standing" where
  "fed sva svb = after_pulls (at_disk (met svb sva)) (merged_of sva svb) (met sva svb)"

lemma pulled_untouched:
  assumes ready: "two_way_ready pfa pfb sva svb" and p: "p \<in> set (pl_pull (plan_for sva svb))"
  shows "p \<notin> set (pl_delete_local (plan_for sva svb))" "p \<notin> set (pl_delete_local (plan_for svb sva))"
    "p \<notin> set (pl_pull (plan_for svb sva))"
proof -
  have mode: "ro_mode (opts_of (sv_config sva)) = TwoWay" "ro_mode (opts_of (sv_config svb)) = TwoWay"
    using ready_modes(1) [OF ready] ready_modes(1) [OF two_way_ready_sym [OF ready]] .
  then show "p \<notin> set (pl_delete_local (plan_for sva svb))" "p \<notin> set (pl_delete_local (plan_for svb sva))"
    "p \<notin> set (pl_pull (plan_for svb sva))"
    using p facing_kinds [OF ready_facing [OF ready], of p] by (simp_all add: two_way_plan)
qed

lemma met_limits:
  assumes ready: "two_way_ready pfa pfb sva svb"
  shows "two_way_options (met sva svb)" "syncable (at_local (met sva svb))" "cf_max_pending_pulls (at_config (met sva svb)) \<noteq> 0"
    "distinct (at_pulls (met sva svb))" "length (at_pulls (met sva svb)) < 2 ^ 64" "cf_chunk_size (at_config (met sva svb)) \<noteq> 0"
  using ready ready_modes(4,5) [OF ready] ready_syncable(1) [OF ready] plan_distinct
    plan_short(2) [OF ready_modes(1) [OF ready], of "sv_base sva" "sv_local sva" "sv_local svb"]
  by (simp_all add: two_way_ready_def sound_folder_def)

lemma first_asked:
  assumes ready: "two_way_ready pfa pfb sva svb" and ab: "stands pfa (met sva svb) a" "stands pfb (met svb sva) b"
  shows "\<forall>p \<in> set (at_pulls (met sva svb)). servable pfb b a p"
    and "\<forall>p. om_find (merged_of sva svb) p = (if p \<in> set (at_pulls (met sva svb))
      then Some (served_meta pfb b p (the (disk b p))) else om_find (at_local (met sva svb)) p)"
    and "at_pulls (met sva svb) \<noteq> [] \<longrightarrow> \<not> at_rest (met svb sva)"
proof -
  have "waits (met sva svb) a" "waits (met svb sva) b"
    using ab by (simp_all add: stands_def)
  then have "servable pfb b a p \<and> Some (served_meta pfb b p (the (disk b p))) = om_find (sv_local svb) p"
    if "p \<in> set (pl_pull (plan_for sva svb))" for p
    using asked_is_served [OF ready, of p a b] ready_trees(6) [OF ready that] pulled_untouched [OF ready that]
    by (simp add: waits_def)
  then show "\<forall>p \<in> set (at_pulls (met sva svb)). servable pfb b a p"
    "\<forall>p. om_find (merged_of sva svb) p = (if p \<in> set (at_pulls (met sva svb))
      then Some (served_meta pfb b p (the (disk b p))) else om_find (at_local (met sva svb)) p)"
    using merged_find [OF ready_modes(1,2) [OF ready]] by simp_all
  have "\<not> same_tree (cleared_of svb sva) (cleared_of sva svb)" if "p \<in> set (pl_pull (plan_for sva svb))" for p
    using ready_trees(6) [OF ready that] agree_sym unfolding same_tree_def by blast
  then show "at_pulls (met sva svb) \<noteq> [] \<longrightarrow> \<not> at_rest (met svb sva)"
    by (cases "pl_pull (plan_for sva svb)") (auto simp: at_rest_def)
qed

lemma merged_nothing_new:
  assumes ready: "two_way_ready pfa pfb sva svb"
  shows "nothing_new (met svb sva) (merged_of sva svb)"
proof (rule nothing_newI [where l = "sv_local svb" and r = "sv_local sva"])
  show "two_way_options (met svb sva)"
    by (rule met_limits [OF two_way_ready_sym [OF ready]])
  have "pl_pull (plan_for sva svb) = []" if "same_tree (cleared_of svb sva) (cleared_of sva svb)"
    using ready_trees(6) [OF ready] that agree_sym unfolding same_tree_def by (cases "pl_pull (plan_for sva svb)") force+
  then show "same_tree (at_local (met svb sva)) (merged_of sva svb)" if "at_rest (met svb sva)"
    using ready_trees(5) [OF ready] that by (simp add: at_rest_def)
qed (use ready_trees(2) [OF ready] in simp_all)

lemma first_pulls:
  assumes ready: "two_way_ready pfa pfb sva svb"
    and a: "stands pfa (met sva svb) a" "ss_out a = []" and b: "stands pfb (met svb sva) b" "ss_out b = []"
  obtains a' b' where "cross pfa pfb (prod.swap ((pull_turn pfb pfa ^^ length (pl_pull (plan_for sva svb))) (b, a))) = (a', b')"
    "stands pfa (fed sva svb) a'" "ss_out a' = []"
    "stands pfb ((met svb sva)\<lparr>at_remote := merged_of sva svb\<rparr>) b'" "ss_out b' = []"
proof -
  have other: "two_way_ready pfb pfa svb sva"
    by (rule two_way_ready_sym [OF ready])
  note limits = met_limits [OF ready] met_limits(1,6) [OF other] and asked = first_asked [OF ready a(1) b(1)]
  have both: "platforms_ok pfb pfa" "at_tag (met sva svb) = at_tag (met svb sva)" "at_remote (met svb sva) = at_local (met sva svb)"
    using ready by (simp_all add: two_way_ready_def)
  obtain a' b' where "cross pfa pfb (prod.swap ((pull_turn pfb pfa ^^ length (at_pulls (met sva svb))) (b, a))) = (a', b')"
    "stands pfa (fed sva svb) a'" "ss_out a' = []"
    "stands pfb ((met svb sva)\<lparr>at_remote := merged_of sva svb\<rparr>) b'" "ss_out b' = []"
    unfolding fed_def
    by (rule pulls_told [OF a limits(1-5) b limits(7,8) asked(3) both(1,2) asked(1) ready_syncable(2) [OF ready] asked(2)
          both(3) merged_nothing_new [OF ready]])
  then show thesis
    using that by simp
qed

text \<open>The second end pulls, from an end that has the merged tree already.\<close>

abbreviation informed :: "service \<Rightarrow> service \<Rightarrow> standing" where
  "informed svb sva \<equiv> (met svb sva)\<lparr>at_remote := merged_of sva svb\<rparr>"

lemma fed_simps [simp]:
  "at_config (fed sva svb) = sv_config sva" "at_tag (fed sva svb) = sv_tag sva" "at_local (fed sva svb) = merged_of sva svb"
  "at_remote (fed sva svb) = cleared_of svb sva" "at_pulls (fed sva svb) = []"
  "two_way_options (fed sva svb) = two_way_options (start_at sva)"
  by (simp_all add: fed_def)

lemma fed_disk: "at_disk (fed sva svb) p = (if p \<in> set (pl_pull (plan_for sva svb)) then at_disk (met svb sva) p else at_disk (met sva svb) p)"
  by (simp add: fed_def after_pulls_def)

lemma second_asked:
  assumes ready: "two_way_ready pfa pfb sva svb" and ab: "stands pfa (fed sva svb) a" "stands pfb (informed svb sva) b"
  shows "\<forall>p \<in> set (at_pulls (informed svb sva)). servable pfa a b p"
    and "\<forall>p. om_find (merged_of svb sva) p = (if p \<in> set (at_pulls (informed svb sva))
      then Some (served_meta pfa a p (the (disk a p))) else om_find (at_local (informed svb sva)) p)"
    and "at_pulls (informed svb sva) \<noteq> [] \<longrightarrow> \<not> at_rest (fed sva svb)"
proof -
  have other: "two_way_ready pfb pfa svb sva"
    by (rule two_way_ready_sym [OF ready])
  have "waits (fed sva svb) a" "waits (informed svb sva) b"
    using ab by (simp_all add: stands_def)
  then have "servable pfa a b p \<and> Some (served_meta pfa a p (the (disk a p))) = om_find (sv_local sva) p"
    if "p \<in> set (pl_pull (plan_for svb sva))" for p
    using asked_is_served [OF other, of p b a] ready_trees(7) [OF ready that] pulled_untouched [OF other that]
    by (simp add: waits_def fed_disk)
  then show "\<forall>p \<in> set (at_pulls (informed svb sva)). servable pfa a b p"
    "\<forall>p. om_find (merged_of svb sva) p = (if p \<in> set (at_pulls (informed svb sva))
      then Some (served_meta pfa a p (the (disk a p))) else om_find (at_local (informed svb sva)) p)"
    using merged_find [OF ready_modes(1,2) [OF other]] by simp_all
  have "\<not> same_tree (merged_of sva svb) (cleared_of svb sva)" if "p \<in> set (pl_pull (plan_for svb sva))" for p
    using ready_trees(7) [OF ready that] agree_sym unfolding same_tree_def by blast
  then show "at_pulls (informed svb sva) \<noteq> [] \<longrightarrow> \<not> at_rest (fed sva svb)"
    by (cases "pl_pull (plan_for svb sva)") (auto simp: at_rest_def)
qed

lemma second_pulls:
  assumes ready: "two_way_ready pfa pfb sva svb"
    and a: "stands pfa (fed sva svb) a" "ss_out a = []" and b: "stands pfb (informed svb sva) b" "ss_out b = []"
  obtains a' b' where "cross pfa pfb ((pull_turn pfa pfb ^^ length (pl_pull (plan_for svb sva))) (a, b)) = (a', b')"
    "stands pfa ((fed sva svb)\<lparr>at_remote := merged_of svb sva\<rparr>) a'" "ss_out a' = []"
    "stands pfb (after_pulls (at_disk (fed sva svb)) (merged_of svb sva) (informed svb sva)) b'" "ss_out b' = []"
proof -
  have other: "two_way_ready pfb pfa svb sva"
    by (rule two_way_ready_sym [OF ready])
  have limits: "two_way_options (informed svb sva)" "syncable (at_local (informed svb sva))"
    "cf_max_pending_pulls (at_config (informed svb sva)) \<noteq> 0" "distinct (at_pulls (informed svb sva))"
    "length (at_pulls (informed svb sva)) < 2 ^ 64" "two_way_options (fed sva svb)" "cf_chunk_size (at_config (fed sva svb)) \<noteq> 0"
    using met_limits [OF other] met_limits(1,6) [OF ready] by (simp_all add: two_way_options_def)
  have both: "platforms_ok pfa pfb" "at_tag (informed svb sva) = at_tag (fed sva svb)"
    "at_remote (fed sva svb) = at_local (informed svb sva)" "nothing_new (fed sva svb) (merged_of svb sva)"
    using ready ready_trees(3) [OF ready] by (simp_all add: two_way_ready_def nothing_new_def)
  note asked = second_asked [OF ready a(1) b(1)]
  obtain a' b' where run: "cross pfb pfa (prod.swap ((pull_turn pfa pfb ^^ length (at_pulls (informed svb sva))) (a, b))) = (b', a')"
    "stands pfa ((fed sva svb)\<lparr>at_remote := merged_of svb sva\<rparr>) a'" "ss_out a' = []"
    "stands pfb (after_pulls (at_disk (fed sva svb)) (merged_of svb sva) (informed svb sva)) b'" "ss_out b' = []"
    by (rule pulls_told [OF b limits(1-5) a limits(6,7) asked(3) both(1,2) asked(1) ready_syncable(2) [OF other] asked(2) both(3,4)])
  have swapped: "cross pfa pfb link = (a', b')" if "cross pfb pfa (prod.swap link) = (b', a')" for link
    using that cross_swap [of pfb pfa "snd link" "fst link"] by (cases link; cases "cross pfa pfb link") simp
  have pulls: "at_pulls (informed svb sva) = pl_pull (plan_for svb sva)"
    by simp
  show thesis
    by (rule that [OF swapped [OF run(1) [unfolded pulls]] run(2-5)])
qed

section \<open>Agreement\<close>

text \<open>The files behind a merged manifest: where it has an entry both ends hold the same bytes; a file that was
  tracked and is no longer is gone; a file that neither is nor was tracked is as it was.\<close>

definition merged_files :: "service \<Rightarrow> session \<Rightarrow> session \<Rightarrow> bool" where
  "merged_files sv x y \<longleftrightarrow> (\<forall>p. if man_find (sv_local (ss_service x)) p \<noteq> None
     then disk x p \<noteq> None \<and> map_option df_data (disk x p) = map_option df_data (disk y p)
     else disk x p = (if man_find (sv_local sv) p = None then sv_disk sv p else None))"

text \<open>Nothing is under way.\<close>

definition at_ease :: "session \<Rightarrow> bool" where
  "at_ease x \<longleftrightarrow> ss_pulling x = [] \<and> ss_pull_queue x = [] \<and> ss_incoming x = [] \<and> ss_serve_q x = []
     \<and> ss_outstanding_serves x = 0 \<and> ss_out x = []"

lemma tracked_on_disk:
  assumes "sound_folder pf sv" "om_find (sv_local sv) p \<noteq> None"
  shows "sv_disk sv p \<noteq> None"
proof -
  obtain m where "om_find (sv_local (ss_service (new_session sv))) p = Some m"
    using assms(2) by auto
  moreover have "truthful pf (new_session sv)"
    using assms(1) by (simp add: sound_folder_def)
  ultimately show ?thesis
    using truthful_file by fastforce
qed

text \<open>One end's disk at the end of the run.\<close>

definition end_disk :: "service \<Rightarrow> service \<Rightarrow> path \<Rightarrow> disk_file option" where
  "end_disk sv other p = (if p \<in> set (pl_pull (plan_for sv other)) then sv_disk other p
     else if p \<in> set (pl_delete_local (plan_for sv other)) then None else sv_disk sv p)"

lemma end_disks:
  assumes ready: "two_way_ready pfa pfb sva svb"
  shows "at_disk (fed sva svb) = end_disk sva svb"
    "at_disk (after_pulls (at_disk (fed sva svb)) (merged_of svb sva) (informed svb sva)) = end_disk svb sva"
  using pulled_untouched [OF ready] pulled_untouched [OF two_way_ready_sym [OF ready]]
  by (auto simp: fun_eq_iff fed_disk end_disk_def after_pulls_def)

lemma ends_merged:
  assumes ready: "two_way_ready pfa pfb sva svb"
    and x: "sv_local (ss_service x) = merged_of sva svb" "disk x = end_disk sva svb" and y: "disk y = end_disk svb sva"
  shows "merged_files sva x y"
  unfolding merged_files_def man_find_om x y
proof
  fix p
  have r: "sound_folder pfa sva" "sound_folder pfb svb" "told_apart pfb (new_session svb) (new_session sva)"
    "truthful pfa (new_session sva)" "truthful pfb (new_session svb)"
    using ready by (simp_all add: two_way_ready_def sound_folder_def)
  have sha: "pf_sha pfa = pf_sha pfb"
    using ready unfolding two_way_ready_def platforms_ok_def by blast
  note modes = ready_modes(1,2) [OF ready] ready_modes(1,2) [OF two_way_ready_sym [OF ready]]
  have lists: "p \<in> set (pl_pull (plan_for sva svb)) \<longleftrightarrow> kind_of (opts_of (sv_config sva)) (sv_base sva) (sv_local sva) (sv_local svb) p = Pull"
    "p \<in> set (pl_delete_local (plan_for sva svb)) \<longleftrightarrow> kind_of (opts_of (sv_config sva)) (sv_base sva) (sv_local sva) (sv_local svb) p = DeleteLocal"
    "p \<in> set (pl_pull (plan_for svb sva)) \<longleftrightarrow> kind_of (opts_of (sv_config svb)) (sv_base svb) (sv_local svb) (sv_local sva) p = Pull"
    "p \<in> set (pl_delete_local (plan_for svb sva)) \<longleftrightarrow> kind_of (opts_of (sv_config svb)) (sv_base svb) (sv_local svb) (sv_local sva) p = DeleteLocal"
    by (simp_all only: two_way_plan [OF modes(1)] two_way_plan [OF modes(3)])
  have held: "om_find (sv_local sva) p \<noteq> None \<Longrightarrow> sv_disk sva p \<noteq> None" "om_find (sv_local svb) p \<noteq> None \<Longrightarrow> sv_disk svb p \<noteq> None"
    using tracked_on_disk r(1,2) by blast+
  have data: "map_option df_data (sv_disk sva p) = map_option df_data (sv_disk svb p)"
    if "agree (om_find (sv_local sva) p) (om_find (sv_local svb) p)" "om_find (sv_local svb) p \<noteq> None"
    using same_data [OF r(5,4,3) sha, of p] that by simp
  show "if om_find (merged_of sva svb) p \<noteq> None
      then end_disk sva svb p \<noteq> None \<and> map_option df_data (end_disk sva svb p) = map_option df_data (end_disk svb sva p)
      else end_disk sva svb p = (if om_find (sv_local sva) p = None then sv_disk sva p else None)"
    unfolding end_disk_def lists facing_kinds [OF ready_facing [OF ready]] follow_settles [OF modes(2)]
    using ready_facing [OF ready] held data
    by (cases rule: facing_cases [where p = p]; cases "om_find (sv_local sva) p"; cases "om_find (sv_local svb) p") simp_all
qed

lemma standing_end:
  assumes "stands pf q x" "at_rest q" "ss_out x = []"
  shows "at_ease x \<and> baselined pf x \<and> disk x = at_disk q \<and> sv_local (ss_service x) = at_local q"
  using assms by (simp add: stands_def waits_def at_ease_def at_rest_def)

text \<open>Two folders with a common baseline: one has a new file and still the file of the baseline, the other
  has deleted that and has a new one of its own.\<close>

definition sample_folder :: "(path \<times> bytes) list \<Rightarrow> service" where
  "sample_folder files = (sample_service TwoWay Newer False)
     \<lparr>sv_local := map (\<lambda>(p, d). (p, sample_entry d)) files, sv_base := [([99], sample_entry [9])],
      sv_disk := map_of (map (\<lambda>(p, d). (p, \<lparr>df_data = d, df_mtime = 5\<rparr>)) files)\<rparr>"

definition folder_a :: service where
  "folder_a = sample_folder [([97], [1, 2]), ([99], [9])]"

definition folder_b :: service where
  "folder_b = sample_folder [([98], [7])]"

lemma sample_folder_fields:
  "sv_tag (sample_folder fs) = sv_tag (sample_service TwoWay Newer False)" "cf_mode (sv_config (sample_folder fs)) = TwoWay"
  "sv_base (sample_folder fs) = [([99], sample_entry [9])]"
  "cf_conflict (sv_config (sample_folder fs)) = Newer" "cf_propagate_deletes (sv_config (sample_folder fs))"
  "cf_folder (sv_config (sample_folder fs)) = str ''rasync''" "cf_chunk_size (sv_config (sample_folder fs)) \<noteq> 0"
  "cf_max_pending_pulls (sv_config (sample_folder fs)) \<noteq> 0"
  by (simp_all add: sample_folder_def sample_service_fields)
    (simp_all add: sample_service_def new_service_def with_defaults_def default_config_def Let_def)

lemma sample_sound: "sound_folder sample_platform folder_a" "sound_folder sample_platform folder_b"
proof -
  have "syncable (sv_local folder_a)" "syncable (sv_local folder_b)"
    by (simp_all add: folder_a_def folder_b_def sample_folder_def syncable_def valid_manifest_def valid_entry_def
        is_safe_relpath_def safe_segments.simps sample_entry_def sample_platform_def)
  moreover have "truthful sample_platform (new_session folder_a)" "truthful sample_platform (new_session folder_b)"
    by (auto simp: truthful_def man_find_om folder_a_def folder_b_def sample_folder_def sample_entry_def)
  moreover have "small_files (new_session folder_a)" "small_files (new_session folder_b)"
    by (auto simp: small_files_def folder_a_def folder_b_def sample_folder_def split: if_splits)
  moreover have "length (str ''rasync'') < 65536" "\<forall>p. pf_remove sample_platform p"
    by (simp_all add: str_def sample_platform_def)
  ultimately show "sound_folder sample_platform folder_a" "sound_folder sample_platform folder_b"
    by (simp_all add: sound_folder_def) (simp_all add: folder_a_def folder_b_def sample_folder_fields)
qed

lemma sample_two_way: "two_way_ready sample_platform sample_platform folder_a folder_b"
proof -
  have "told_apart sample_platform (new_session folder_a) (new_session folder_b)"
    "told_apart sample_platform (new_session folder_b) (new_session folder_a)"
    by (auto simp: told_apart_def folder_a_def folder_b_def sample_folder_def split: if_splits)
  moreover have "platforms_ok sample_platform sample_platform"
    using sample_ready by (simp add: sync_ready_def)
  moreover have "sv_tag folder_b = sv_tag folder_a" "compatible (sv_config folder_a) (sv_config folder_b)"
    "same_tree (sv_base folder_a) (sv_base folder_b)"
    by (simp_all add: folder_a_def folder_b_def compatible_def sample_folder_fields complement_def)
  moreover have "length (sv_local folder_a) + length (sv_local folder_b) < 2 ^ 32"
    by (simp add: folder_a_def folder_b_def sample_folder_def)
  ultimately show ?thesis
    using sample_sound by (simp add: two_way_ready_def)
qed

section \<open>Properties\<close>

text \<open>C2. Two peers agree. When two sessions in two-way mode meet, the handshake, the exchange of their trees, the
  deletions of both rounds and one request for each path either plan asks for bring both to the merged
  tree their plans promise, whatever was added, changed or deleted on either side since the common
  baseline, whether files travel whole or as deltas and however the updates are cut: every merged entry
  is backed by the same bytes on both disks, what either side dropped is gone, what neither tracks is
  untouched, nothing is under way, and each end has announced the agreement and saved the merged
  manifest as its baseline.\<close>

theorem two_way_agreement:
  assumes "two_way_ready pfa pfb sva svb"
  shows "\<exists>a b. two_way_run pfa pfb (length (pl_pull (plan_for sva svb))) (length (pl_pull (plan_for svb sva)))
      (greeted pfa pfb sva svb) = (a, b)
    \<and> sv_local (ss_service a) = merged_of sva svb \<and> sv_local (ss_service b) = merged_of svb sva
    \<and> same_tree (sv_local (ss_service a)) (sv_local (ss_service b))
    \<and> merged_files sva a b \<and> merged_files svb b a \<and> at_ease a \<and> at_ease b \<and> baselined pfa a \<and> baselined pfb b"
proof -
  have other: "two_way_ready pfb pfa svb sva"
    by (rule two_way_ready_sym [OF assms])
  note agreed = ready_trees(3) [OF assms]
  obtain a1 b1 where met: "cross pfa pfb (cross pfa pfb (greeted pfa pfb sva svb)) = (a1, b1)"
    "stands pfa (met sva svb) a1" "ss_out a1 = []" "stands pfb (met svb sva) b1" "ss_out b1 = []"
    by (rule meeting [OF assms])
  obtain a2 b2 where fed: "cross pfa pfb (prod.swap ((pull_turn pfb pfa ^^ length (pl_pull (plan_for sva svb))) (b1, a1))) = (a2, b2)"
    "stands pfa (fed sva svb) a2" "ss_out a2 = []" "stands pfb (informed svb sva) b2" "ss_out b2 = []"
    by (rule first_pulls [OF assms met(2-5)])
  let ?qa = "(fed sva svb)\<lparr>at_remote := merged_of svb sva\<rparr>"
    and ?qb = "after_pulls (at_disk (fed sva svb)) (merged_of svb sva) (informed svb sva)"
  obtain a b where final: "cross pfa pfb ((pull_turn pfa pfb ^^ length (pl_pull (plan_for svb sva))) (a2, b2)) = (a, b)"
    "stands pfa ?qa a" "ss_out a = []" "stands pfb ?qb b" "ss_out b = []"
    by (rule second_pulls [OF assms fed(2-5)])
  have run: "two_way_run pfa pfb (length (pl_pull (plan_for sva svb))) (length (pl_pull (plan_for svb sva)))
      (greeted pfa pfb sva svb) = (a, b)"
    using met(1) fed(1) final(1) by (simp add: two_way_run_def)
  have "at_rest ?qa" "at_rest ?qb"
    using agreed same_tree_sym [OF agreed] by (simp_all add: at_rest_def)
  note ends = standing_end [OF final(2) this(1) final(3)] standing_end [OF final(4) this(2) final(5)]
  have disks: "disk a = end_disk sva svb" "disk b = end_disk svb sva"
    using ends end_disks [OF assms] by simp_all
  have trees: "sv_local (ss_service a) = merged_of sva svb" "sv_local (ss_service b) = merged_of svb sva"
    using ends by simp_all
  show ?thesis
    using run trees agreed ends ends_merged [OF assms trees(1) disks] ends_merged [OF other trees(2) disks(2,1)] by auto
qed

theorem two_way_agreement_witness:
  "\<exists>a b. two_way_run sample_platform sample_platform (length (pl_pull (plan_for folder_a folder_b)))
      (length (pl_pull (plan_for folder_b folder_a))) (greeted sample_platform sample_platform folder_a folder_b) = (a, b)
    \<and> map_option df_data (disk a [98]) = map_option df_data (disk b [98]) \<and> disk a [98] \<noteq> None \<and> disk a [99] = None"
proof -
  obtain a b where run: "two_way_run sample_platform sample_platform (length (pl_pull (plan_for folder_a folder_b)))
      (length (pl_pull (plan_for folder_b folder_a))) (greeted sample_platform sample_platform folder_a folder_b) = (a, b)"
    and trees: "sv_local (ss_service a) = merged_of folder_a folder_b" and files: "merged_files folder_a a b"
    using two_way_agreement [OF sample_two_way] by blast
  have inv: "om_inv (sv_local folder_a)"
    by (rule ready_modes [OF sample_two_way])
  have kinds: "om_find (merged_of folder_a folder_b) [98] \<noteq> None" "om_find (merged_of folder_a folder_b) [99] = None"
    "om_find (sv_local folder_a) [99] \<noteq> None"
    unfolding follow_settles [OF inv]
    by (simp_all add: kind_of_two_way opts_of_def decide_two_way_cases folder_a_def folder_b_def sample_folder_fields)
      (simp_all add: sample_folder_def adopt_def)
  have "disk a [98] \<noteq> None" "map_option df_data (disk a [98]) = map_option df_data (disk b [98])" "disk a [99] = None"
    using files [unfolded merged_files_def, rule_format, of "[98]"] files [unfolded merged_files_def, rule_format, of "[99]"]
      kinds trees by (simp_all add: man_find_om)
  then show ?thesis
    using run by blast
qed

end
