(* ===== verification/Peer_View.thy ===== *)
theory Peer_View
  imports Session_Safety
begin

text \<open>
  What a peer can make a session believe, want and serve: over every history the paths it has put there
  are paths inside the folder, because \<open>sanitize\<close> and \<open>handle_request\<close> drop the others. And what that
  filter costs: a local file with a name it drops keeps the folder from ever being in sync.
\<close>

section \<open>The peer's part of the state\<close>

definition wish :: "session \<Rightarrow> manifest \<times> manifest \<times> path list \<times> path list \<times> serve list" where
  "wish st = (ss_remote st, ss_staging st, ss_pulling st, ss_pull_queue st, ss_serve_q st)"

definition safe_keys :: "manifest \<Rightarrow> bool" where
  "safe_keys m \<longleftrightarrow> list_all (\<lambda>e. is_safe_relpath (fst e)) m"

definition peer_safe :: "session \<Rightarrow> bool" where
  "peer_safe st \<longleftrightarrow> safe_keys (ss_remote st) \<and> safe_keys (ss_staging st)
     \<and> list_all is_safe_relpath (ss_pulling st) \<and> list_all is_safe_relpath (ss_pull_queue st)
     \<and> list_all (\<lambda>j. is_safe_relpath (sj_rel_path j)) (ss_serve_q st)"

lemma peer_safe_wish: "wish s = wish t \<Longrightarrow> peer_safe s = peer_safe t"
  by (simp add: wish_def peer_safe_def)

lemma wish_parts: "view s = view t \<Longrightarrow> own s = own t \<Longrightarrow> ss_serve_q s = ss_serve_q t \<Longrightarrow> wish s = wish t"
  by (simp add: wish_def view_def own_def)

lemma wish_simple [simp]:
  "wish (send_msg w st) = wish st" "wish (emit ev st) = wish st" "wish (on_service f st) = wish st"
  "wish (set_temp x d st) = wish st" "wish (drop_temp pf x st) = wish st" "wish (set_disk p f' st) = wish st"
  "wish (set_incoming inc st) = wish st" "wish (st\<lparr>ss_incoming := ins\<rparr>) = wish st"
  by (simp_all add: wish_def send_msg_def emit_def set_temp_def drop_temp_def set_disk_def set_incoming_def)

lemma serve_q_advertise: "ss_serve_q (advertise st) = ss_serve_q st"
  by (simp add: advertise_def Let_def frame)

lemma wish_advertise [simp]: "wish (advertise st) = wish st"
  by (rule wish_parts) (simp_all add: frame serve_q_advertise)

lemma serve_q_evaluate: "ss_serve_q (evaluate pf st) = ss_serve_q st"
  by (simp add: evaluate_def announce_synced_def Let_def emit_def)

lemma wish_maybe_synced [simp]: "wish (maybe_synced pf st) = wish st"
  by (rule wish_parts) (simp_all add: frame, simp add: maybe_synced_def serve_q_evaluate serve_q_advertise)

lemma safe_release: "peer_safe st \<Longrightarrow> peer_safe (release_pull p st)"
  by (auto simp: peer_safe_def release_pull_def list_all_iff)

lemma safe_abandon: "peer_safe st \<Longrightarrow> peer_safe (abandon_pull pf p st)"
  using safe_release [of st p] peer_safe_wish [OF wish_maybe_synced [of pf "release_pull p st"]]
  by (simp add: abandon_pull_def)

lemma safe_fail: "peer_safe st \<Longrightarrow> peer_safe (fail_incoming pf inc keep_res st)"
proof -
  assume safe: "peer_safe st"
  let ?s = "st\<lparr>ss_incoming := om_erase (in_xid inc) (ss_incoming st)\<rparr>"
  have "peer_safe ?s"
    using safe peer_safe_wish [of ?s st] by simp
  then have "peer_safe (if keep_res then ?s else abandon_pull pf (in_rel_path inc) ?s)"
    using safe_abandon by simp
  then show ?thesis
    using peer_safe_wish [OF wish_simple(5)] by (simp add: fail_incoming_def Let_def)
qed

section \<open>Manifests of safe paths\<close>

lemma safe_assign: "safe_keys m \<Longrightarrow> is_safe_relpath p \<Longrightarrow> safe_keys (om_assign p v m)"
  using set_om_assign [of p v m] by (auto simp: safe_keys_def list_all_iff)

lemma safe_erase: "safe_keys m \<Longrightarrow> safe_keys (om_erase p m)"
  by (simp add: safe_keys_def list_all_iff om_erase_def)

lemma safe_apply:
  assumes "safe_keys m"
  shows "safe_keys (man_apply (sanitize p) m)"
proof -
  have "safe_keys (fold (\<lambda>e. om_assign (fst e) (snd e)) es m)" if "list_all (\<lambda>e. is_safe_relpath (fst e)) es" "safe_keys m" for es m
    using that by (induction es arbitrary: m) (simp_all add: safe_assign)
  moreover have "safe_keys (fold om_erase ps m)" if "safe_keys m" for ps m
    using that by (induction ps arbitrary: m) (simp_all add: safe_erase)
  ultimately show ?thesis
    using assms by (simp add: man_apply_def sanitize_def list_all_iff)
qed

section \<open>The round\<close>

lemma safe_queue_pulls:
  assumes "peer_safe st" "list_all is_safe_relpath ps"
  shows "peer_safe (fold queue_pull ps st)"
  using assms
proof (induction ps arbitrary: st)
  case (Cons p ps)
  then have "peer_safe (queue_pull p st)"
    by (simp add: queue_pull_def peer_safe_def)
  with Cons show ?case by simp
qed simp

lemma wish_deletes: "wish (fst (fold (delete_local pf) ps sm)) = wish (fst sm)"
  by (induction ps arbitrary: sm) (simp_all add: delete_local_def wish_def)

lemma safe_pulls:
  assumes "safe_keys r"
  shows "list_all is_safe_relpath (pl_pull (reconcile b l r opt))"
proof -
  have "is_safe_relpath p" if "p \<in> set (pl_pull (reconcile b l r opt))" for p
  proof -
    have "om_find r p \<noteq> None"
      using that kind_needs(1) [of p opt b l r] by (auto simp: reconcile_lists)
    then show ?thesis
      using assms by (auto simp: om_find_None safe_keys_def list_all_iff)
  qed
  then show ?thesis
    by (simp add: list_all_iff)
qed

lemma safe_round:
  assumes "peer_safe st"
  shows "peer_safe (reconcile_and_act pf st)"
proof -
  let ?plan = "reconcile (sv_base (ss_service st)) (sv_local (ss_service st)) (ss_remote st) (opts_of (config st))"
  obtain st1 mutated where del: "fold (delete_local pf) (pl_delete_local ?plan) (emit (Round ?plan) st, False) = (st1, mutated)"
    by force
  then have "wish st1 = wish st"
    using wish_deletes [of pf "pl_delete_local ?plan" "(emit (Round ?plan) st, False)"] by simp
  then have "peer_safe st1"
    using assms peer_safe_wish by blast
  then have st2: "peer_safe (fold queue_pull (pl_pull ?plan) st1)"
    using assms by (intro safe_queue_pulls safe_pulls) (simp_all add: peer_safe_def)
  moreover have "peer_safe (maybe_synced pf (if mutated then advertise s else s)) = peer_safe s" for s
    by (rule peer_safe_wish) simp
  ultimately show ?thesis
    using assms del by (simp add: reconcile_and_act_def Let_def)
qed
section \<open>The handlers\<close>

lemma safe_stage:
  assumes "peer_safe st" "stage_update flags (sanitize patch) st = (st', c)"
  shows "peer_safe st'"
proof -
  have "safe_keys []"
    by (simp add: safe_keys_def)
  then show ?thesis
    using assms safe_apply by (auto simp: stage_update_def Let_def peer_safe_def split: if_splits)
qed

lemma safe_update: "peer_safe st \<Longrightarrow> peer_safe (handle_manifest_update pf r st)"
proof -
  assume safe: "peer_safe st"
  have "peer_safe (case stage_update flags (sanitize patch) st of (st', c) \<Rightarrow>
      if c then reconcile_and_act pf st' else st')" for flags patch
    using safe_stage [OF safe] safe_round by (simp split: prod.split)
  with safe show ?thesis
    by (simp add: handle_manifest_update_def Let_def split: prod.split option.split)
qed

lemma wish_hello: "wish (handle_hello r st) = wish st"
proof -
  have "wish (refuse st) = wish st"
    by (simp add: refuse_def) (simp add: wish_def)
  then show ?thesis
    by (simp add: handle_hello_def Let_def split: prod.split)
qed

lemma safe_enqueue:
  assumes "peer_safe st" "is_safe_relpath (sj_rel_path job)"
  shows "peer_safe (st\<lparr>ss_outstanding_serves := n, ss_serve_q := ss_serve_q st @ [job], ss_next_xid := x\<rparr>)"
  using assms by (simp add: peer_safe_def)

lemma safe_decline: "peer_safe st \<Longrightarrow> peer_safe (decline p st)"
  using peer_safe_wish [OF wish_simple(1)] by (simp add: decline_def)

lemma safe_request:
  assumes "peer_safe st"
  shows "peer_safe (handle_request r st)"
proof -
  obtain p ra h rb where rds: "r_str16 r = (p, ra)" "r_u8 ra = (h, rb)"
    by (metis prod.exhaust)
  note safe = assms safe_decline [OF assms] safe_enqueue [OF assms]
  show ?thesis
    unfolding handle_request_def rds split Let_def
    by (cases "sig_decode rb") (auto simp: safe)
qed

lemma wish_cong: "peer_safe st \<Longrightarrow> wish s = wish st \<Longrightarrow> peer_safe s"
  using peer_safe_wish by blast

lemma safe_file_start:
  assumes "peer_safe st"
  shows "peer_safe (handle_file_start pf r st)"
proof -
  obtain xid ra p rb len64 rc mtime rd mode re is_delta rf where
    rds: "r_u64 r = (xid, ra)" "r_str16 ra = (p, rb)" "r_u64 rb = (len64, rc)" "r_i64 rc = (mtime, rd)"
      "r_u32 rd = (mode, re)" "r_u8 re = (is_delta, rf)"
    by (metis prod.exhaust)
  have "peer_safe s" if "wish s = wish st" for s
    using assms that by (rule wish_cong)
  moreover from this have "peer_safe (abandon_pull pf p s)" "peer_safe (fail_incoming pf inc False s)" if "wish s = wish st" for s inc
    using that safe_abandon safe_fail by blast+
  ultimately show ?thesis
    unfolding handle_file_start_def rds split Let_def by (simp del: set_temp_twice)
qed

lemma wish_append: "append_bytes d (inc, st) = (inc', st') \<Longrightarrow> wish st' = wish st"
  by (auto simp: append_bytes_def)

lemma safe_literal:
  assumes "peer_safe st"
  shows "peer_safe (handle_file_literal pf r st)"
proof -
  have "peer_safe s" if "wish s = wish st" for s
    using assms that by (rule wish_cong)
  then show ?thesis
    using safe_fail [OF assms] wish_append
    by (simp add: handle_file_literal_def Let_def split: prod.split option.split)
qed

lemma wish_copy_loop: "wish (snd (snd (copy_loop pf base n left src is))) = wish (snd is)"
proof (induction pf base n left src "is" rule: copy_loop.induct)
  case (1 pf base n left src "is")
  have "wish (snd (append_bytes d is)) = wish (snd is)" for d
    by (cases "is") (simp add: append_bytes_def)
  with 1 show ?case
    by (subst copy_loop.simps) (simp add: Let_def)
qed

lemma safe_copy:
  assumes "peer_safe st"
  shows "peer_safe (handle_file_copy pf r st)"
proof -
  have keeps: "peer_safe s" if "wish s = wish st" for s
    using assms that by (rule wish_cong)
  have "wish st' = wish st" if "copy_loop pf base n left src (inc, st) = (g, inc', st')" for base n left src inc g inc' st'
    using wish_copy_loop [of pf base n left src "(inc, st)"] that by simp
  then have "peer_safe (if g then set_incoming inc' st' else fail_incoming pf inc' False st')"
    if "copy_loop pf base n left src (inc, st) = (g, inc', st')" for base n left src inc g inc' st'
    using that keeps safe_fail by (metis wish_simple(7))
  then show ?thesis
    using assms by (simp add: handle_file_copy_def Let_def split: prod.split option.split)
qed

lemma safe_finalize:
  assumes "peer_safe st"
  shows "peer_safe (finalize_incoming pf inc digest st)"
proof -
  let ?x = "in_xid inc" and ?p = "in_rel_path inc"
  obtain st1 moved where move: "move_replace pf ?x ?p (in_mtime inc) (send_msg (file_ack st ?x (in_on_wire inc)) st) = (st1, moved)"
    by force
  have "wish s' = wish s" if "move_replace pf x p t s = (s', m)" for s s' x p t m
    using that by (auto simp: move_replace_def Let_def split: if_splits)
  then have st1: "wish st1 = wish st"
    using move by fastforce
  have keeps: "peer_safe s" if "wish s = wish st" for s
    using assms that by (rule wish_cong)
  have "peer_safe (drop_temp pf ?x (abandon_pull pf ?p (st1\<lparr>ss_incoming := ins\<rparr>)))" for ins
    using safe_abandon [OF keeps, of "st1\<lparr>ss_incoming := ins\<rparr>" pf ?p] st1 peer_safe_wish [OF wish_simple(5)] by simp
  moreover have "peer_safe (maybe_synced pf (emit ev (release_pull ?p (s\<lparr>ss_incoming := ins, ss_advertise_pending := True\<rparr>))))"
    if "wish s = wish st" for ev s ins
  proof -
    have "wish (s\<lparr>ss_incoming := ins, ss_advertise_pending := True\<rparr>) = wish s"
      by (simp add: wish_def)
    then have "peer_safe (release_pull ?p (s\<lparr>ss_incoming := ins, ss_advertise_pending := True\<rparr>))"
      using that by (intro safe_release keeps) simp
    then show ?thesis
      by (rule wish_cong) simp
  qed
  ultimately show ?thesis
    using st1 unfolding finalize_incoming_def Let_def move split by simp
qed

lemma safe_file_end:
  assumes "peer_safe st"
  shows "peer_safe (handle_file_end pf r st)"
proof -
  obtain xid ra expected rb where rds: "r_u64 r = (xid, ra)" "r_bytes 32 ra = (expected, rb)"
    by (metis prod.exhaust)
  have "peer_safe (send_msg w (fail_incoming pf inc keep_res st))" for w inc keep_res
    by (rule wish_cong [OF safe_fail [OF assms]]) simp
  with assms safe_fail [OF assms] safe_finalize [OF assms] show ?thesis
    unfolding handle_file_end_def rds split Let_def by (simp split: option.split)
qed

lemma safe_handle:
  assumes "peer_safe st"
  shows "peer_safe (handle pf op r st)"
proof -
  have "peer_safe (handle_not_found pf r st)"
    using assms safe_abandon by (simp add: handle_not_found_def Let_def split: prod.split)
  moreover have "peer_safe s" if "wish s = wish st" for s
    using assms that by (rule wish_cong)
  moreover have "wish (handle_file_ack r st) = wish st" "wish (st\<lparr>ss_incompatible := True\<rparr>) = wish st"
    by (simp_all add: handle_file_ack_def Let_def wish_def split: prod.split)
  ultimately show ?thesis
    using assms safe_update safe_request safe_file_start safe_literal safe_copy safe_file_end wish_hello
    by (cases op) (simp_all add: handle_def)
qed

section \<open>The threads, the scanner and the stop\<close>

lemma wish_literals: "wish (fold (send_literal x) ds st) = wish st"
proof (induction ds arbitrary: st)
  case (Cons d ds)
  have "wish (send_literal x d st) = wish st"
    by (simp add: send_literal_def note_sent_def wish_def send_msg_def)
  with Cons show ?case by simp
qed simp

lemma wish_ops: "wish (fold (send_op n x) ops st) = wish st"
  by (induction ops arbitrary: st) (simp_all add: send_op_def wish_literals)

lemma wish_serve_whole: "wish (serve_whole pf job f mode st) = wish st"
  by (simp add: serve_whole_def Let_def decline_def wish_literals)

lemma wish_serve_delta: "wish (serve_delta pf job sig f mode st) = wish st"
  by (simp add: serve_delta_def Let_def wish_serve_whole wish_ops)

lemma wish_serve_one: "wish (serve_one pf job st) = wish st"
  by (simp add: serve_one_def Let_def decline_def wish_serve_whole wish_serve_delta split: option.split)
    (simp add: wish_def)

lemma safe_sender:
  assumes "peer_safe st"
  shows "peer_safe (sender_step pf st)"
proof (cases "ss_serve_q st")
  case (Cons job rest)
  have "peer_safe (st\<lparr>ss_serve_q := rest\<rparr>)"
    using assms Cons by (simp add: peer_safe_def)
  moreover have "wish (maybe_synced pf (s\<lparr>ss_outstanding_serves := n\<rparr>)) = wish s" for s n
    by simp (simp add: wish_def)
  then have "wish (sender_step pf st) = wish (st\<lparr>ss_serve_q := rest\<rparr>)"
    by (simp add: sender_step_def Cons Let_def wish_serve_one)
  ultimately show ?thesis
    by (rule wish_cong)
qed (use assms in \<open>simp add: sender_step_def\<close>)

lemma safe_requester:
  assumes "peer_safe st"
  shows "peer_safe (requester_step pf st)"
proof (cases "ss_running st \<and> may_request st")
  case True
  then have "ss_pull_queue st \<noteq> []"
    by (simp add: may_request_def)
  then have "peer_safe (st\<lparr>ss_pull_queue := tl (ss_pull_queue st)\<rparr>)"
    using assms by (cases "ss_pull_queue st") (simp_all add: peer_safe_def)
  moreover have "wish (send_request pf p s) = wish s" for p s
    by (simp add: send_request_def Let_def)
  ultimately show ?thesis
    using True wish_cong by (simp add: requester_step_def)
next
  case False
  with assms show ?thesis
    by (auto simp: requester_step_def)
qed

lemma safe_local_changed:
  assumes "peer_safe st"
  shows "peer_safe (local_changed pf st)"
  using assms safe_round [OF wish_cong [OF assms wish_advertise]] by (simp add: local_changed_def)

lemma wish_drops: "wish (fold (\<lambda>e. drop_temp pf (fst e)) es st) = wish st"
  by (induction es arbitrary: st) simp_all

lemma safe_step:
  assumes "peer_safe st"
  shows "peer_safe (session_step pf i st)"
proof (cases i)
  case (Arrives m)
  then show ?thesis
    using assms safe_handle [OF assms] by (simp add: deliver_def Let_def split: prod.split option.split)
next
  case (Scanned m)
  have "peer_safe (on_service (set_local_manifest m) st)"
    using assms by (rule wish_cong) simp
  with Scanned show ?thesis by (simp add: safe_local_changed)
next
  case (Patched ps)
  have "peer_safe (on_service (apply_local_patch ps) st)"
    using assms by (rule wish_cong) simp
  with Patched assms show ?thesis by (simp add: safe_local_changed)
next
  case (Edited d)
  have "peer_safe (session_step pf i st)"
    using assms by (rule wish_cong) (simp add: Edited)
  then show ?thesis .
next
  case Stops
  have "peer_safe (st\<lparr>ss_running := False, ss_incoming := [], ss_pull_queue := []\<rparr>)"
    using assms by (simp add: peer_safe_def)
  then have "peer_safe (fold (\<lambda>e. drop_temp pf (fst e)) (ss_incoming st)
      (st\<lparr>ss_running := False, ss_incoming := [], ss_pull_queue := []\<rparr>))"
    by (rule wish_cong) (rule wish_drops)
  with assms Stops show ?thesis by (simp add: stop_def)
qed (use assms in \<open>simp_all add: safe_requester safe_sender\<close>)

lemma safe_history: "peer_safe (session_run ins (new_session sv))"
proof (induction ins rule: rev_induct)
  case Nil
  show ?case by (simp add: peer_safe_def safe_keys_def new_session_def)
next
  case (snoc pi ins)
  with safe_step show ?case by (cases pi) simp
qed

section \<open>Properties\<close>

text \<open>C8. Whatever bytes a peer sends, however the session's threads, scans, edits and a stop interleave, and whatever
  the system answers at each step, the
  tree the peer is taken to have, the one being assembled, the paths wanted and waiting to be requested
  and the files queued for the peer are all at paths inside the folder.\<close>

theorem peer_paths_safe:
  "let st = session_run ins (new_session sv)
   in list_all (\<lambda>e. is_safe_relpath (fst e)) (ss_remote st @ ss_staging st)
     \<and> list_all is_safe_relpath (ss_pulling st @ ss_pull_queue st @ map sj_rel_path (ss_serve_q st))"
  using safe_history [of ins sv] by (simp add: Let_def peer_safe_def safe_keys_def list.pred_map comp_def)

text \<open>C12. The price. A local file with a name the peer's \<open>sanitize\<close> drops (a backslash is enough) is never in the
  peer's tree, so after any history of a session whose baseline does not hold the file (in two-way mode), or
  whatever the baseline and the mode where deletions propagate, the plan is not empty: the convergence check
  announces nothing and leaves the baseline as it was. Without the deletions and with the file in the
  baseline a two-way plan leaves it alone.\<close>

theorem unsafe_name_blocks_sync:
  assumes "st = session_run ins (new_session sv)"
    and "man_find (sv_local (ss_service st)) p = Some m" "\<not> is_safe_relpath p"
    and "cf_mode (config st) = TwoWay \<and> man_find (sv_base (ss_service st)) p = None \<or> cf_propagate_deletes (config st)"
  shows "\<not> plan_empty (reconcile (sv_base (ss_service st)) (sv_local (ss_service st)) (ss_remote st) (opts_of (config st)))
    \<and> ss_service (evaluate pf st) = ss_service st \<and> ss_events (evaluate pf st) = ss_events st
    \<and> ss_last_synced (evaluate pf st) = ss_last_synced st"
proof -
  let ?opt = "opts_of (config st)" and ?b = "sv_base (ss_service st)" and ?l = "sv_local (ss_service st)"
  have "safe_keys (ss_remote st)"
    using safe_history [of ins sv] assms(1) by (simp add: peer_safe_def)
  then have remote: "om_find (ss_remote st) p = None"
    using assms(3) by (auto simp: om_find_None safe_keys_def list_all_iff)
  have "\<not> plan_empty (reconcile ?b ?l (ss_remote st) ?opt)"
  proof (cases "cf_propagate_deletes (config st)")
    case True
    then have "plan_empty (reconcile ?b ?l (ss_remote st) ?opt) \<longleftrightarrow> same_tree ?l (ss_remote st)"
      by (intro plan_empty_iff_same_tree) (simp add: opts_of_def)
    moreover have "\<not> same_tree ?l (ss_remote st)"
      using assms(2) remote by (auto simp: same_tree_def man_find_om intro!: exI [of _ p])
    ultimately show ?thesis by simp
  next
    case False
    have mode: "ro_mode ?opt = TwoWay"
      using assms(4) False by (simp add: opts_of_def)
    have "kind_of ?opt ?b ?l (ss_remote st) p = Push"
      using assms(2,4) False remote mode
      by (simp add: decide_def decide_two_way_def man_find_om round_base_def classify_def changed_def decision_def)
    then have "p \<in> set (pl_push (reconcile ?b ?l (ss_remote st) ?opt))"
      using assms(2) by (simp add: reconcile_lists round_keys_set man_find_om)
    then show ?thesis
      by (auto simp: plan_empty_def)
  qed
  then show ?thesis
    by (simp add: evaluate_def Let_def)
qed

text \<open>A file named \<open>a\b\<close> is scanned, and the peer says Hello and advertises its tree, which is empty.\<close>

definition odd_name :: path where
  "odd_name = [97, 92, 98]"

definition odd_meta :: file_meta where
  "odd_meta = \<lparr>fm_size = 0, fm_mtime = 0, fm_mode = 0, fm_hash = replicate 32 0\<rparr>"

definition empty_tree_advertised :: bytes where
  "empty_tree_advertised = be32 (sv_tag (ss_service (sample_session []))) @ op_code ManifestUpdate
     # kUpdateReset # patch_encode \<lparr>mp_set = [], mp_removed = []\<rparr> [] @ []"

lemma odd_session:
  "let st = session_run [(sample_platform, Arrives empty_tree_advertised)] (sample_session [(odd_name, odd_meta)])
   in ss_have_remote st \<and> man_find (sv_local (ss_service st)) odd_name = Some odd_meta \<and> cf_propagate_deletes (config st)"
proof -
  let ?st = "sample_session [(odd_name, odd_meta)]"
  have st: "\<not> ss_incompatible ?st" "sv_tag (ss_service ?st) = sv_tag (ss_service (sample_session []))"
    "sv_local (ss_service ?st) = [(odd_name, odd_meta)]" "sv_base (ss_service ?st) = []" "opts_of (config ?st) = opts_of default_config"
    "\<not> ss_staging_active ?st" "cf_propagate_deletes (config ?st)"
    by (simp_all add: opts_of_def sample_session_def new_session_def new_service_def with_defaults_def default_config_def Let_def)
  have "deliver sample_platform empty_tree_advertised ?st = handle_manifest_update sample_platform
      (rd (kUpdateReset # patch_encode \<lparr>mp_set = [], mp_removed = []\<rparr> [] @ [])) ?st"
    using deliver_message [OF st(1), of sample_platform ManifestUpdate] st(1,2)
    by (simp add: empty_tree_advertised_def handle_def)
  moreover define st1 where "st1 = ?st\<lparr>ss_staging := [], ss_staging_active := False, ss_have_remote := True,
      ss_remote_version := ss_remote_version ?st + 1\<rparr>"
  have new: "ss_remote ?st = []" "ss_staging ?st = []" "ss_pulling ?st = []" "ss_incoming ?st = []"
    "ss_outstanding_serves ?st = 0" "\<not> ss_advertise_pending ?st"
    by (simp_all add: sample_session_def new_session_def)
  have "stage_update kUpdateReset (sanitize \<lparr>mp_set = [], mp_removed = []\<rparr>) ?st = (st1, True)"
    using new by (simp add: stage_update_def st1_def kUpdateReset_def kUpdateMore_def sanitize_def man_apply_def)
  moreover have "valid_patch \<lparr>mp_set = [], mp_removed = []\<rparr>"
    by (simp add: valid_patch_def)
  ultimately have run: "deliver sample_platform empty_tree_advertised ?st = reconcile_and_act sample_platform st1"
    using patch_decode_encode [of "\<lparr>mp_set = [], mp_removed = []\<rparr>" "[]"]
    by (simp add: handle_manifest_update_def codec_simps)
  let ?opt = "opts_of default_config" and ?l = "[(odd_name, odd_meta)]"
  have keys: "p \<in> set (round_keys ?opt [] ?l []) \<longleftrightarrow> p = odd_name" for p
    by (auto simp: round_keys_set round_base_def)
  have kind: "kind_of ?opt [] ?l [] odd_name = Push"
    by (simp add: decide_def decide_two_way_def round_base_def classify_def changed_def decision_def opts_of_def default_config_def
        man_find_om Let_def)
  have plan: "pl_delete_local (reconcile [] ?l [] ?opt) = []" "pl_pull (reconcile [] ?l [] ?opt) = []"
    "pl_push (reconcile [] ?l [] ?opt) \<noteq> []"
    unfolding reconcile_lists filter_empty_conv by (simp_all add: keys kind)
  have st1: "ss_remote st1 = []" "ss_pulling st1 = []" "ss_incoming st1 = []" "ss_outstanding_serves st1 = 0"
    "\<not> ss_advertise_pending st1" "ss_have_remote st1" "ss_service st1 = ss_service ?st"
    using new by (simp_all add: st1_def)
  define round where "round = reconcile [] [(odd_name, odd_meta)] [] (opts_of default_config)"
  have "reconcile_and_act sample_platform st1 = maybe_synced sample_platform (emit (Round round) st1)"
    using plan st1(1,6,7) st(3-5) by (simp add: reconcile_and_act_def Let_def round_def)
  moreover have "ss_service (maybe_synced sample_platform (emit (Round round) st1)) = ss_service ?st
      \<and> ss_have_remote (maybe_synced sample_platform (emit (Round round) st1))"
    using plan(3) st1 st(3-5) by (simp add: maybe_synced_def evaluate_def emit_def plan_empty_def Let_def)
  ultimately show ?thesis
    using st by (simp add: run man_find_om)
qed

theorem unsafe_name_blocks_sync_witness:
  "\<exists>st. st = session_run [(sample_platform, Arrives empty_tree_advertised)] (sample_session [(odd_name, odd_meta)])
    \<and> ss_have_remote st \<and> \<not> plan_empty (reconcile (sv_base (ss_service st)) (sv_local (ss_service st)) (ss_remote st) (opts_of (config st)))
    \<and> ss_events (evaluate sample_platform st) = ss_events st"
proof -
  let ?ins = "[(sample_platform, Arrives empty_tree_advertised)]"
  let ?sv = "ss_service (sample_session [(odd_name, odd_meta)])"
  have start: "sample_session [(odd_name, odd_meta)] = new_session ?sv"
    by (simp add: sample_session_def new_session_def)
  define st where "st = session_run ?ins (new_session ?sv)"
  have "\<not> is_safe_relpath odd_name"
    by (simp add: odd_name_def is_safe_relpath_def)
  with unsafe_name_blocks_sync [OF st_def, of odd_name odd_meta sample_platform] odd_session show ?thesis
    by (simp add: start [symmetric] st_def Let_def)
qed

end
