(* ===== verification/Mirror_Source.thy ===== *)
theory Mirror_Source
  imports Peer_View Router Session_Sync
begin

text \<open>
  The authoritative side of a mirror over whole histories: what it never does, ask for a file, and what its
  peer can do to it all the same, because a transfer is accepted without a look at what was asked for.
\<close>

section \<open>Nothing is wanted\<close>

definition wants_nothing :: "session \<Rightarrow> bool" where
  "wants_nothing st \<longleftrightarrow> ss_pulling st = [] \<and> ss_pull_queue st = []"

definition is_source :: "session \<Rightarrow> bool" where
  "is_source st \<longleftrightarrow> cf_mode (config st) = Mirror \<and> cf_source (config st)"

lemma wants_cong: "wants_nothing st \<Longrightarrow> wish s = wish st \<Longrightarrow> wants_nothing s"
  by (simp add: wants_nothing_def wish_def)

lemma source_ident: "ident s = ident st \<Longrightarrow> is_source s = is_source st"
  by (simp add: ident_def is_source_def)

lemma wants_release: "wants_nothing st \<Longrightarrow> wants_nothing (release_pull p st)"
  by (simp add: wants_nothing_def release_pull_def)

lemma wants_abandon: "wants_nothing st \<Longrightarrow> wants_nothing (abandon_pull pf p st)"
  using wants_cong [OF wants_release [of st p] wish_maybe_synced] by (simp add: abandon_pull_def)

lemma wants_fail: "wants_nothing st \<Longrightarrow> wants_nothing (fail_incoming pf inc keep_res st)"
proof -
  assume st: "wants_nothing st"
  let ?s = "st\<lparr>ss_incoming := om_erase (in_xid inc) (ss_incoming st)\<rparr>"
  have "wants_nothing ?s"
    using wants_cong [OF st, of ?s] by simp
  then have "wants_nothing (if keep_res then ?s else abandon_pull pf (in_rel_path inc) ?s)"
    using wants_abandon by simp
  then show ?thesis
    using wants_cong [OF _ wish_simple(5)] by (simp add: fail_incoming_def Let_def)
qed

text \<open>A round of the source pulls and deletes nothing.\<close>

lemma source_round_plan:
  assumes "is_source st"
  shows "pl_pull (reconcile b l r (opts_of (config st))) = []" "pl_delete_local (reconcile b l r (opts_of (config st))) = []"
  using source_plan [of "opts_of (config st)"] assms by (simp_all add: is_source_def opts_of_def)

lemma wants_round:
  assumes "wants_nothing st" "is_source st"
  shows "wants_nothing (reconcile_and_act pf st)"
proof -
  have "wish (reconcile_and_act pf st) = wish st"
    using source_round_plan [OF assms(2)] by (simp add: reconcile_and_act_def Let_def)
  with assms(1) show ?thesis by (rule wants_cong)
qed

lemma wants_update:
  assumes "wants_nothing st" "is_source st"
  shows "wants_nothing (handle_manifest_update pf r st)"
proof -
  have "wants_nothing s \<and> is_source s" if "stage_update flags patch st = (s, c)" for flags patch s c
    using assms that by (auto simp: stage_update_def Let_def wants_nothing_def is_source_def split: if_splits)
  with wants_round assms(1) show ?thesis
    by (auto simp: handle_manifest_update_def Let_def split: prod.split option.split)
qed

section \<open>The handlers\<close>

lemma wants_request:
  assumes "wants_nothing st"
  shows "wants_nothing (handle_request r st)"
proof -
  have "wants_nothing (decline p st)" for p
    using wants_cong [OF assms wish_simple(1)] by (simp add: decline_def)
  moreover have "wants_nothing (st\<lparr>ss_outstanding_serves := n, ss_serve_q := q, ss_next_xid := x\<rparr>)" for n q x
    using assms by (simp add: wants_nothing_def)
  ultimately show ?thesis
    using assms by (simp add: handle_request_def Let_def split: prod.split option.split)
qed

lemma wants_file_start:
  assumes "wants_nothing st"
  shows "wants_nothing (handle_file_start pf r st)"
proof -
  obtain xid ra p rb len64 rc mtime rd mode re is_delta rf where
    rds: "r_u64 r = (xid, ra)" "r_str16 ra = (p, rb)" "r_u64 rb = (len64, rc)" "r_i64 rc = (mtime, rd)"
      "r_u32 rd = (mode, re)" "r_u8 re = (is_delta, rf)"
    by (metis prod.exhaust)
  have "wants_nothing s" if "wish s = wish st" for s
    using assms that by (rule wants_cong)
  moreover from this have "wants_nothing (abandon_pull pf p s)" "wants_nothing (fail_incoming pf inc False s)" if "wish s = wish st" for s inc
    using that wants_abandon wants_fail by blast+
  ultimately show ?thesis
    unfolding handle_file_start_def rds split Let_def by (simp del: set_temp_twice)
qed

lemma wants_literal:
  assumes "wants_nothing st"
  shows "wants_nothing (handle_file_literal pf r st)"
proof -
  have "wants_nothing s" if "wish s = wish st" for s
    using assms that by (rule wants_cong)
  then show ?thesis
    using wants_fail [OF assms] wish_append
    by (simp add: handle_file_literal_def Let_def split: prod.split option.split)
qed

lemma wants_copy:
  assumes "wants_nothing st"
  shows "wants_nothing (handle_file_copy pf r st)"
proof -
  have keeps: "wants_nothing s" if "wish s = wish st" for s
    using assms that by (rule wants_cong)
  have "wish st' = wish st" if "copy_loop pf base n left src (inc, st) = (g, inc', st')" for base n left src inc g inc' st'
    using wish_copy_loop [of pf base n left src "(inc, st)"] that by simp
  then have "wants_nothing (if g then set_incoming inc' st' else fail_incoming pf inc' False st')"
    if "copy_loop pf base n left src (inc, st) = (g, inc', st')" for base n left src inc g inc' st'
    using that keeps wants_fail by (metis wish_simple(7))
  then show ?thesis
    using assms by (simp add: handle_file_copy_def Let_def split: prod.split option.split)
qed

lemma wants_finalize:
  assumes "wants_nothing st"
  shows "wants_nothing (finalize_incoming pf inc digest st)"
proof -
  let ?x = "in_xid inc" and ?p = "in_rel_path inc"
  obtain st1 moved where move: "move_replace pf ?x ?p (in_mtime inc) (send_msg (file_ack st ?x (in_on_wire inc)) st) = (st1, moved)"
    by force
  have "wish s' = wish s" if "move_replace pf x p t s = (s', m)" for s s' x p t m
    using that by (auto simp: move_replace_def Let_def split: if_splits)
  then have st1: "wants_nothing st1"
    using move wants_cong [OF assms] by fastforce
  have "wants_nothing (s\<lparr>ss_incoming := ins\<rparr>)" "wants_nothing (s\<lparr>ss_incoming := ins, ss_advertise_pending := True\<rparr>)"
    if "wants_nothing s" for s ins
    using that by (simp_all add: wants_nothing_def)
  note field = this
  have "wants_nothing (on_service f s)" "wants_nothing (drop_temp pf x s)" "wants_nothing (maybe_synced pf s)" "wants_nothing (emit ev s)"
    if "wants_nothing s" for f s x ev
    using wants_cong [OF that] by simp_all
  note keeps = this
  show ?thesis
    unfolding finalize_incoming_def Let_def move split
    by (cases moved) (auto intro!: keeps field wants_abandon wants_release st1)
qed

lemma wants_file_end:
  assumes "wants_nothing st"
  shows "wants_nothing (handle_file_end pf r st)"
proof -
  have "wants_nothing (send_msg w (fail_incoming pf inc keep_res st))" for w inc keep_res
    by (rule wants_cong [OF wants_fail [OF assms]]) simp
  with assms wants_fail [OF assms] wants_finalize [OF assms] show ?thesis
    unfolding handle_file_end_def Let_def by (simp split: option.split prod.split)
qed

lemma wants_handle:
  assumes "wants_nothing st" "is_source st"
  shows "wants_nothing (handle pf op r st)"
proof -
  have "wants_nothing (handle_not_found pf r st)"
    using assms wants_abandon by (simp add: handle_not_found_def Let_def split: prod.split)
  moreover have "wants_nothing s" if "wish s = wish st" for s
    using assms(1) that by (rule wants_cong)
  moreover have "wish (handle_file_ack r st) = wish st" "wish (st\<lparr>ss_incompatible := True\<rparr>) = wish st"
    by (simp_all add: handle_file_ack_def Let_def wish_def split: prod.split)
  ultimately show ?thesis
    using assms wants_update wants_request wants_file_start wants_literal wants_copy wants_file_end wish_hello
    by (cases op) (simp_all add: handle_def)
qed

section \<open>Histories\<close>

lemma source_step: "is_source (session_step pf i st) = is_source st"
proof (cases i)
  case (Arrives m)
  then show ?thesis
    by (intro source_ident) (simp add: deliver_def Let_def ident_simps split: prod.split option.split)
next
  case (Edited d)
  then show ?thesis by (simp add: is_source_def)
qed (auto intro!: source_ident simp: ident_simps)

lemma wants_step:
  assumes "wants_nothing st" "is_source st"
  shows "wants_nothing (session_step pf i st)"
proof -
  have changed: "wants_nothing (local_changed pf s)" if "wish s = wish st" "ident s = ident st" for s
  proof -
    have "wants_nothing (advertise s)" "is_source (advertise s)"
      using wants_cong [OF assms(1), of "advertise s"] source_ident [of "advertise s" st] that assms(2)
      by (simp_all add: ident_simps)
    with wants_round wants_cong [OF assms(1) that(1)] show ?thesis
      by (simp add: local_changed_def)
  qed
  show ?thesis
  proof (cases i)
    case (Arrives m)
    then show ?thesis
      using assms wants_handle [OF assms] by (simp add: deliver_def Let_def split: prod.split option.split)
  next
    case Requests
    then show ?thesis
      using assms by (simp add: requester_step_def may_request_def wants_nothing_def)
  next
    case Serves
    have "wants_nothing (sender_step pf st)"
    proof (cases "ss_serve_q st")
      case (Cons job rest)
      have "wants_nothing (st\<lparr>ss_serve_q := rest\<rparr>)"
        using assms(1) by (simp add: wants_nothing_def)
      moreover have "wish (maybe_synced pf (s\<lparr>ss_outstanding_serves := n\<rparr>)) = wish s" for s n
        by simp (simp add: wish_def)
      then have "wish (sender_step pf st) = wish (st\<lparr>ss_serve_q := rest\<rparr>)"
        by (simp add: sender_step_def Cons Let_def wish_serve_one)
      ultimately show ?thesis by (rule wants_cong)
    qed (use assms(1) in \<open>simp add: sender_step_def\<close>)
    with Serves show ?thesis by simp
  next
    case (Edited d)
    then show ?thesis
      using wants_cong [OF assms(1)] by simp
  next
    case Stops
    let ?s = "st\<lparr>ss_running := False, ss_incoming := [], ss_pull_queue := []\<rparr>"
    have "wants_nothing ?s"
      using assms(1) by (simp add: wants_nothing_def)
    then have "wants_nothing (fold (\<lambda>e. drop_temp pf (fst e)) (ss_incoming st) ?s)"
      by (rule wants_cong) (rule wish_drops)
    then show ?thesis
      using assms(1) by (simp add: Stops stop_def)
  qed (use assms(1) changed in \<open>simp_all add: ident_simps\<close>)
qed

lemma source_history:
  assumes "cf_mode (sv_config sv) = Mirror" "cf_source (sv_config sv)"
  shows "is_source (session_run ins (new_session sv)) \<and> wants_nothing (session_run ins (new_session sv))"
proof (induction ins rule: rev_induct)
  case Nil
  then show ?case
    using assms by (simp add: is_source_def wants_nothing_def new_session_def)
next
  case (snoc pi ins)
  then show ?case
    by (cases pi) (simp add: source_step wants_step)
qed

section \<open>Property\<close>

text \<open>C36. A transfer need not have been asked for. Over every history, the authoritative side of a mirror wants no
  file and waits for none, and no round of it, against any tree of the peer, would pull one or delete one of
  its own; and at the end of every such history that has not been refused, any file that a peer serves it
  of its own accord, at any safe path, whole or as a delta, is installed there over its own copy and recorded in
  its manifest.\<close>

theorem mirror_source_overwritten:
  fixes sv ins
  defines "rc \<equiv> session_run ins (new_session sv)"
  assumes "cf_mode (sv_config sv) = Mirror" "cf_source (sv_config sv)" "length ins < 2 ^ 32"
    and "sv_disk (ss_service st) (sj_rel_path job) = Some f" "ss_out st = []" "cf_chunk_size (config st) \<noteq> 0" "ss_running st"
    and "all_works pfs" "all_works pfr" "pf_sha pfr = pf_sha pfs"
    and "\<not> ss_incompatible rc" "om_find (ss_incoming rc) (sj_xid job) = None" "sv_tag (ss_service rc) = sv_tag (ss_service st)"
    and "is_safe_relpath (sj_rel_path job)" "length (sj_rel_path job) < 65536" "length (df_data f) < 2 ^ 32"
    and "offers pfs rc job" "tells_apart pfs rc job (df_data f)"
  shows "ss_pulling rc = [] \<and> ss_pull_queue rc = []
    \<and> (\<forall>b l r. pl_pull (reconcile b l r (opts_of (config rc))) = [] \<and> pl_delete_local (reconcile b l r (opts_of (config rc))) = [])
    \<and> sv_disk (ss_service (fold (deliver pfr) (ss_out (serve_one pfs job st)) rc)) =
        (sv_disk (ss_service rc))(sj_rel_path job \<mapsto> f)
    \<and> sv_local (ss_service (fold (deliver pfr) (ss_out (serve_one pfs job st)) rc)) =
        man_set (sj_rel_path job) \<lparr>fm_size = of_nat (length (df_data f)), fm_mtime = df_mtime f,
          fm_mode = (case man_find (sv_local (ss_service st)) (sj_rel_path job) of Some m \<Rightarrow> fm_mode m | None \<Rightarrow> 0),
          fm_hash = pf_sha pfs (df_data f)\<rparr> (sv_local (ss_service rc))"
proof -
  note source = source_history [OF assms(2,3), of ins, folded rc_def]
  have "om_inv (ss_incoming rc)"
    using reached_ok [OF assms(4), of sv, folded rc_def] by (simp add: ok_but_def)
  from serve_delivers [OF assms(5-7,9-12) this assms(13-19,8)] source source_round_plan [of rc] show ?thesis
    by (simp add: wants_nothing_def)
qed

text \<open>The source holds \<open>[7]\<close> under the name \<open>a\<close>, connects, and is served \<open>[1, 2]\<close>.\<close>

definition source_service :: service where
  "source_service = ss_service (as_source (holding [97] [7] (sample_session [])))"

theorem mirror_source_overwritten_witness:
  "sv_disk source_service [97] = Some \<lparr>df_data = [7], df_mtime = 5\<rparr>
   \<and> sv_disk (ss_service (fold (deliver sample_platform)
      (ss_out (serve_one sample_platform whole_job (holding [97] [1, 2] (sample_session []))))
      (session_run [(sample_platform, Requests)] (new_session source_service)))) [97] = Some \<lparr>df_data = [1, 2], df_mtime = 5\<rparr>"
proof -
  let ?st = "holding [97] [1, 2] (sample_session [])"
  let ?rc = "session_run [(sample_platform, Requests)] (new_session source_service)"
  have st: "sv_disk (ss_service ?st) (sj_rel_path whole_job) = Some \<lparr>df_data = [1, 2], df_mtime = 5\<rparr>"
    "ss_out ?st = []" "cf_chunk_size (config ?st) \<noteq> 0" "ss_running ?st"
    by (simp_all add: holding_def set_disk_def whole_job_def sample_session_def new_session_def new_service_def
        with_defaults_def default_config_def Let_def)
  have sv: "cf_mode (sv_config source_service) = Mirror" "cf_source (sv_config source_service)"
    "sv_disk source_service [97] = Some \<lparr>df_data = [7], df_mtime = 5\<rparr>" "sv_tag source_service = sv_tag (ss_service ?st)"
    by (simp_all add: source_service_def as_source_def holding_def set_disk_def)
  have rc: "?rc = new_session source_service"
    by (simp add: requester_step_def may_request_def) (simp add: new_session_def)
  then have more: "\<not> ss_incompatible ?rc" "om_find (ss_incoming ?rc) (sj_xid whole_job) = None"
    "sv_tag (ss_service ?rc) = sv_tag (ss_service ?st)" "ss_service ?rc = source_service"
    using sv(4) by (simp_all add: new_session_def)
  have path: "is_safe_relpath (sj_rel_path whole_job)" "length (sj_rel_path whole_job) < 65536"
    by (simp_all add: whole_job_def is_safe_relpath_def safe_segments.simps)
  have "offers sample_platform ?rc whole_job" "tells_apart sample_platform ?rc whole_job [1, 2]"
    by (simp_all add: offers_def tells_apart_def whole_job_def)
  from mirror_source_overwritten [OF sv(1,2) _ st sample_platform_works sample_platform_works refl more(1-3) path _ this(1)] this(2)
  show ?thesis
    using sv(3) by (simp add: whole_job_def)
qed

end
