(* ===== verification/Scratch_Dir.thy ===== *)
theory Scratch_Dir
  imports Session_Safety
begin

text \<open>
  The scratch directory itself (\<open>SyncService::ensure_temp_dir\<close>, \<open>prune_temp_dir\<close>, \<open>clean_temp_dir\<close>): a session's
  temp files are in \<open>sv_temp\<close>; here a flag beside the session says whether the directory that holds them is
  in the synced tree, and every step of the session moves it as the code does. Other sessions of the
  folder share the directory.
\<close>

section \<open>The service's operations\<close>

text \<open>What the system answers to creating and removing the directory, and whether another session has a file
  in it.\<close>

record scratch_fs =
  sf_create :: bool
  sf_remove :: bool
  sf_others :: bool

definition ensure_temp_dir :: "scratch_fs \<Rightarrow> bool \<Rightarrow> bool" where
  "ensure_temp_dir fs present = (if \<not> present then sf_create fs else present)"

text \<open>The removal is not recursive: it fails on a directory that is not empty.\<close>

definition prune_temp_dir :: "scratch_fs \<Rightarrow> (u64 \<Rightarrow> bytes option) \<Rightarrow> bool \<Rightarrow> bool" where
  "prune_temp_dir fs temps present =
     (if sf_remove fs \<and> temps = Map.empty \<and> \<not> sf_others fs then False else present)"

text \<open>\<open>remove_all\<close> counts the directory and what was in it; the log line counts the files alone.\<close>

definition clean_count :: "bool \<Rightarrow> bytes list \<Rightarrow> nat" where
  "clean_count present leftovers = (if present then 1 + length leftovers else 0)"

definition clean_line :: "nat \<Rightarrow> bytes option" where
  "clean_line removed =
     (if removed > 1 then Some (str ''cleared '' @ decimal (removed - 1) @ str '' stale temp file(s)'') else None)"

section \<open>When a session calls them\<close>

text \<open>\<open>handle_file_start\<close> makes the directory once the path has passed the check.\<close>

definition file_start_dir :: "scratch_fs \<Rightarrow> reader \<Rightarrow> bool \<Rightarrow> bool" where
  "file_start_dir fs r present =
     (let (xid, r) = r_u64 r; (p, r) = r_str16 r; (size, r) = r_u64 r; (mtime, r) = r_i64 r;
          (mode, r) = r_u32 r; (is_delta, r) = r_u8 r
      in if \<not> rd_ok r then present
         else if \<not> is_safe_relpath p then present
         else ensure_temp_dir fs present)"

text \<open>\<open>finalize_incoming\<close> removes it when the installed file was the last one under way.\<close>

definition finalize_dir :: "scratch_fs \<Rightarrow> platform \<Rightarrow> incoming \<Rightarrow> session \<Rightarrow> bool \<Rightarrow> bool" where
  "finalize_dir fs pf inc st present =
     (let st = send_msg (file_ack st (in_xid inc) (in_on_wire inc)) st;
          (st, moved) = move_replace pf (in_xid inc) (in_rel_path inc) (in_mtime inc) st
      in if \<not> moved then present
         else if om_erase (in_xid inc) (ss_incoming st) = [] then prune_temp_dir fs (sv_temp (ss_service st)) present
         else present)"

definition file_end_dir :: "scratch_fs \<Rightarrow> platform \<Rightarrow> reader \<Rightarrow> session \<Rightarrow> bool \<Rightarrow> bool" where
  "file_end_dir fs pf r st present =
     (let (xid, r) = r_u64 r; (expected, r) = r_bytes 32 r
      in if \<not> rd_ok r then present
         else case om_find (ss_incoming st) xid of
             None \<Rightarrow> present
           | Some inc \<Rightarrow> if pf_sha pf (in_hash inc) \<noteq> expected then present else finalize_dir fs pf inc st present)"

definition handle_dir :: "scratch_fs \<Rightarrow> platform \<Rightarrow> opcode \<Rightarrow> reader \<Rightarrow> session \<Rightarrow> bool \<Rightarrow> bool" where
  "handle_dir fs pf op r st present =
     (if ss_incompatible st then present
      else if op = FileStart then file_start_dir fs r present
      else if op = FileEnd then file_end_dir fs pf r st present
      else present)"

definition deliver_dir :: "scratch_fs \<Rightarrow> platform \<Rightarrow> bytes \<Rightarrow> session \<Rightarrow> bool \<Rightarrow> bool" where
  "deliver_dir fs pf m st present =
     (if length m < kHeaderBytes then present
      else
        let r = reader_of m; (tag, r) = r_u32 r; (op, r) = r_u8 r
        in if tag \<noteq> sv_tag (ss_service st) then present
           else case op_of op of None \<Rightarrow> present | Some op \<Rightarrow> handle_dir fs pf op r st present)"

definition stop_dir :: "scratch_fs \<Rightarrow> platform \<Rightarrow> session \<Rightarrow> bool \<Rightarrow> bool" where
  "stop_dir fs pf st present =
     (if \<not> ss_running st then present else prune_temp_dir fs (sv_temp (ss_service (stop pf st))) present)"

fun step_dir :: "scratch_fs \<Rightarrow> platform \<Rightarrow> session_input \<Rightarrow> session \<Rightarrow> bool \<Rightarrow> bool" where
  "step_dir fs pf (Arrives m) st present = deliver_dir fs pf m st present"
| "step_dir fs pf Stops st present = stop_dir fs pf st present"
| "step_dir fs pf _ st present = present"

text \<open>Everything that can happen to the directory: a step of this session, and another one's first and last
  temp file.\<close>

datatype scratch_input =
    Own scratch_fs session_input
  | Other_starts scratch_fs
  | Other_ends scratch_fs

fun scratch_step :: "platform \<Rightarrow> scratch_input \<Rightarrow> session \<times> bool \<Rightarrow> session \<times> bool" where
  "scratch_step pf (Own fs i) (st, present) = (session_step pf i st, step_dir fs pf i st present)"
| "scratch_step pf (Other_starts fs) (st, present) = (st, ensure_temp_dir fs present)"
| "scratch_step pf (Other_ends fs) (st, present) = (st, prune_temp_dir fs (sv_temp (ss_service st)) present)"

definition scratch_run :: "(platform \<times> scratch_input) list \<Rightarrow> session \<times> bool \<Rightarrow> session \<times> bool" where
  "scratch_run = fold (\<lambda>(pf, i). scratch_step pf i)"

section \<open>Inputs that move no transfer\<close>

text \<open>The inputs that leave transfers and their temp files alone.\<close>

lemma other_inputs:
  assumes "\<And>m. i \<noteq> Arrives m" "i \<noteq> Stops"
  shows "xfer (session_step pf i st) = xfer st"
proof -
  have service: "xfer (on_service f st) = xfer st" if "\<And>sv. sv_temp (f sv) = sv_temp sv" for f
    using that by (simp add: xfer_def)
  show ?thesis
  proof (cases i)
    case (Scanned m)
    then show ?thesis
      using service [of "set_local_manifest m"] by (simp add: local_changed_frame(1) set_local_manifest_def bump_def)
  next
    case (Patched ps)
    have "xfer (on_service (apply_local_patch ps) st) = xfer st"
      by (rule service) (simp add: apply_local_patch_def bump_def)
    with Patched show ?thesis
      by (simp add: local_changed_frame(1))
  next
    case (Edited d)
    then show ?thesis
      using service [of "\<lambda>sv. sv\<lparr>sv_disk := d\<rparr>"] by simp
  qed (use assms in \<open>simp_all add: keep_requester(1) keep_sender(1)\<close>)
qed

lemma other_messages:
  assumes "ss_incompatible st \<or> op \<notin> {FileStart, FileLiteral, FileCopy, FileEnd}"
  shows "xfer (handle pf op r st) = xfer st"
proof -
  have "xfer (st\<lparr>ss_incompatible := True\<rparr>) = xfer st"
    by (simp add: xfer_def)
  with assms show ?thesis
    by (cases op) (simp_all add: handle_def xfer_hello xfer_update xfer_request xfer_ack xfer_not_found)
qed

section \<open>Every temp file belongs to a transfer\<close>

text \<open>All temp files but perhaps one, when the system can remove temp files.\<close>

definition tidy_but :: "u64 option \<Rightarrow> session \<Rightarrow> bool" where
  "tidy_but x st \<longleftrightarrow> (\<forall>k. temp_of st k \<noteq> None \<longrightarrow> Some k \<noteq> x \<longrightarrow> om_find (ss_incoming st) k \<noteq> None)"

abbreviation tidy :: "session \<Rightarrow> bool" where
  "tidy \<equiv> tidy_but None"

definition clears :: "platform \<Rightarrow> bool" where
  "clears pf \<longleftrightarrow> (\<forall>x. pf_clear_temp pf x)"

lemma tidy_xfer: "xfer s = xfer t \<Longrightarrow> tidy_but x s = tidy_but x t"
  by (simp add: tidy_but_def xfer_def)

lemma tidy_weaken: "tidy st \<Longrightarrow> tidy_but x st"
  by (auto simp: tidy_but_def)

lemma tidy_temp: "tidy_but (Some x) st \<Longrightarrow> tidy_but (Some x) (set_temp x d st)"
  by (simp add: tidy_but_def set_temp_def)

lemma tidy_cleared: "tidy_but (Some x) st \<Longrightarrow> tidy (set_temp x None st)"
  by (auto simp: tidy_but_def set_temp_def)

lemma tidy_gone:
  assumes "tidy_but (Some x) st" "temp_of st x = None"
  shows "tidy st"
  unfolding tidy_but_def
proof (intro allI impI)
  fix k
  assume "temp_of st k \<noteq> None"
  moreover from this assms(2) have "k \<noteq> x" by auto
  ultimately show "om_find (ss_incoming st) k \<noteq> None"
    using assms(1) by (simp add: tidy_but_def)
qed

lemma tidy_drop: "clears pf \<Longrightarrow> tidy_but (Some x) st \<Longrightarrow> tidy (drop_temp pf x st)"
  by (simp add: clears_def drop_temp_def tidy_cleared)

lemma tidy_erase: "tidy_but (Some x) st \<Longrightarrow> tidy_but (Some x) (st\<lparr>ss_incoming := om_erase x (ss_incoming st)\<rparr>)"
  by (auto simp: tidy_but_def om_find_erase)

lemma tidy_assign:
  assumes "tidy_but (Some x) st" "om_inv (ss_incoming st)"
  shows "tidy (st\<lparr>ss_incoming := om_assign x inc (ss_incoming st)\<rparr>)"
  using assms om.find_assign [OF assms(2), of x inc] by (auto simp: tidy_but_def)

lemma tidy_abandon [simp]: "tidy_but x (abandon_pull pf p st) = tidy_but x st"
  by (rule tidy_xfer) (simp add: frame)

lemma tidy_send [simp]: "tidy_but x (send_msg w st) = tidy_but x st" "tidy_but x (emit ev st) = tidy_but x st"
  by (rule tidy_xfer, simp add: frame)+

lemma tidy_fail: "clears pf \<Longrightarrow> tidy_but (Some (in_xid inc)) st \<Longrightarrow> tidy (fail_incoming pf inc keep_res st)"
  using tidy_drop [of pf "in_xid inc"] tidy_erase [of "in_xid inc" st]
  by (simp add: fail_incoming_def Let_def)

lemma tidy_file_start:
  assumes "clears pf" "tidy st" "om_inv (ss_incoming st)"
  shows "tidy (handle_file_start pf r st)"
proof -
  obtain xid ra p rb len64 rc mtime rd mode re is_delta rf where
    rds: "r_u64 r = (xid, ra)" "r_str16 ra = (p, rb)" "r_u64 rb = (len64, rc)" "r_i64 rc = (mtime, rd)"
      "r_u32 rd = (mode, re)" "r_u8 re = (is_delta, rf)"
    by (metis prod.exhaust)
  let ?st = "set_temp xid (Some []) (set_temp xid None st)"
  have but: "tidy_but (Some xid) ?st" "tidy (set_temp xid None st)"
    using assms(2) by (simp_all add: tidy_weaken tidy_temp tidy_cleared)
  have "tidy (fail_incoming pf i False ?st)" if "in_xid i = xid" for i
    using tidy_fail [of pf i ?st] assms(1) but(1) that by simp
  moreover have set: "tidy (?st\<lparr>ss_incoming := om_assign xid i (ss_incoming ?st)\<rparr>)" for i
    by (rule tidy_assign [OF but(1)]) (use assms(3) in \<open>simp add: set_temp_def\<close>)
  moreover have "tidy (drop_temp pf xid (?st\<lparr>ss_incoming := om_assign xid i (ss_incoming ?st)\<rparr>))" for i
    by (rule tidy_drop [OF assms(1) tidy_weaken [OF set]])
  ultimately show ?thesis
    using assms(2) but(2)
    unfolding handle_file_start_def rds split Let_def
    by (simp del: set_temp_twice)
qed

lemma tidy_store:
  assumes "tidy st" "om_inv (ss_incoming st)" "in_xid inc = x"
    and "ss_incoming st' = ss_incoming st" "\<forall>k. k \<noteq> x \<longrightarrow> temp_of st' k = temp_of st k"
  shows "tidy (set_incoming inc st')" "clears pf \<Longrightarrow> tidy (fail_incoming pf inc keep_res st')"
proof -
  have but: "tidy_but (Some x) st'"
    using assms by (auto simp: tidy_but_def)
  then show "tidy (set_incoming inc st')"
    using tidy_assign [of x st' inc] assms(2-4) by (simp add: set_incoming_def)
  show "tidy (fail_incoming pf inc keep_res st')" if "clears pf"
    using tidy_fail [OF that] but assms(3) by simp
qed

lemma tidy_literal:
  assumes "clears pf" "tidy st" and ok: "incoming_ok b st" and room: "b + 2 ^ 32 < 2 ^ 64"
  shows "tidy (handle_file_literal pf r st)"
proof -
  obtain xid ra data rb where rds: "r_u64 r = (xid, ra)" "r_blob32 ra = (data, rb)"
    by (metis prod.exhaust)
  show ?thesis
  proof (cases "rd_ok rb \<and> om_find (ss_incoming st) xid \<noteq> None")
    case False
    then show ?thesis
      using assms(2) by (auto simp: handle_file_literal_def rds)
  next
    case True
    then obtain inc where inc: "om_find (ss_incoming st) xid = Some inc" by blast
    have t: "transfer_ok b (temp_of st xid) xid inc"
      using ok inc by (simp add: ok_but_find)
    have "length data < 2 ^ 32"
      using rds(2) blob32_length by (metis fst_conv)
    then have fits: "b + length data < 2 ^ 64"
      using room by linarith
    obtain inc' st' where app: "append_bytes data (inc, st) = (inc', st')" by force
    note a = append_ok [OF t fits app]
    have inv: "om_inv (ss_incoming st)" and x: "in_xid inc = xid" "in_xid inc' = xid"
      using ok transfer_ok_xid [OF t] a by (auto simp: ok_but_def transfer_ok_def)
    have "tidy (set_incoming (inc'\<lparr>in_on_wire := n, in_last_ack := m\<rparr>) st')"
      "tidy (set_incoming (inc'\<lparr>in_on_wire := n\<rparr>) st')" for n m
      using a x by (auto intro!: tidy_store(1) [OF assms(2) inv])
    moreover have "tidy (fail_incoming pf inc False st)"
      by (rule tidy_store(2) [OF assms(2) inv x(1) _ _ assms(1)]) simp_all
    ultimately show ?thesis
      using True inc unfolding handle_file_literal_def rds split Let_def by (simp add: app)
  qed
qed

lemma tidy_copy:
  assumes "clears pf" "tidy st" and ok: "incoming_ok b st" and room: "b + 2 ^ 32 < 2 ^ 64"
  shows "tidy (handle_file_copy pf r st)"
proof -
  obtain xid ra off rb len rc where rds: "r_u64 r = (xid, ra)" "r_u64 ra = (off, rb)" "r_u32 rb = (len, rc)"
    by (metis prod.exhaust)
  show ?thesis
  proof (cases "rd_ok rc \<and> (\<exists>inc base. om_find (ss_incoming st) xid = Some inc \<and> in_base inc = Some base)")
    case False
    then show ?thesis
      using assms(2) by (auto simp: handle_file_copy_def rds split: option.splits)
  next
    case True
    then obtain inc base where inc: "om_find (ss_incoming st) xid = Some inc" "in_base inc = Some base" by blast
    have t: "transfer_ok b (temp_of st xid) xid inc"
      using ok inc by (simp add: ok_but_find)
    have len: "b + unat len < 2 ^ 64"
      using room unat_u32_lt [of len] by simp
    obtain good inc' st' where loop:
      "copy_loop pf base (min (unat len) 65536) (unat len) off (inc, st) = (good, inc', st')"
      by (metis prod.exhaust)
    note a = copy_loop_ok [OF t len(1) loop]
    have inv: "om_inv (ss_incoming st)" and x: "in_xid inc' = xid"
      using ok a by (auto simp: ok_but_def transfer_ok_def)
    have "tidy (set_incoming inc' st')" "tidy (fail_incoming pf inc' False st')"
      using a by (auto intro!: tidy_store [OF assms(2) inv x] assms(1))
    then show ?thesis
      using True unfolding handle_file_copy_def rds split Let_def by (simp add: inc loop)
  qed
qed

lemma move_replace_tidy:
  assumes "tidy_but (Some x) st" "move_replace pf x p t st = (st', moved)"
  shows "tidy_but (Some x) st' \<and> (moved \<and> clears pf \<longrightarrow> temp_of st' x = None)"
proof -
  have disk: "tidy_but (Some x) (set_disk q f s) = tidy_but (Some x) s" for q f s
    by (rule tidy_xfer) (simp add: xfer_def set_disk_def)
  show ?thesis
    using assms by (auto simp: move_replace_def Let_def clears_def disk tidy_temp split: if_splits)
qed

lemma finalize_moved:
  assumes "move_replace pf (in_xid inc) (in_rel_path inc) (in_mtime inc)
      (send_msg (file_ack st (in_xid inc) (in_on_wire inc)) st) = (st1, moved)"
  shows "xfer (finalize_incoming pf inc digest st) =
    xfer ((if moved then id else drop_temp pf (in_xid inc)) (st1\<lparr>ss_incoming := om_erase (in_xid inc) (ss_incoming st1)\<rparr>))"
proof (cases moved)
  case True
  then show ?thesis
    using assms
    by (simp add: finalize_incoming_def Let_def frame) (simp add: xfer_def release_pull_def note_local_set_def bump_def)
next
  case False
  have "xfer (drop_temp pf x (abandon_pull pf p s)) = xfer (drop_temp pf x s)" for x p s
  proof -
    have "xfer (abandon_pull pf p s) = xfer s"
      by (simp add: frame)
    then show ?thesis
      by (simp add: drop_temp_def xfer_def set_temp_def)
  qed
  then show ?thesis
    using False assms by (simp add: finalize_incoming_def Let_def)
qed

lemma tidy_finalize:
  assumes "clears pf" "tidy st"
  shows "tidy (finalize_incoming pf inc digest st)"
proof -
  let ?x = "in_xid inc"
  obtain st1 moved where move: "move_replace pf ?x (in_rel_path inc) (in_mtime inc)
      (send_msg (file_ack st ?x (in_on_wire inc)) st) = (st1, moved)"
    by force
  have "tidy_but (Some ?x) (send_msg (file_ack st ?x (in_on_wire inc)) st)"
    using assms(2) by (simp add: tidy_weaken)
  note moved = move_replace_tidy [OF this move]
  define st2 where "st2 = st1\<lparr>ss_incoming := om_erase ?x (ss_incoming st1)\<rparr>"
  have st2: "tidy_but (Some ?x) st2" "moved \<longrightarrow> temp_of st2 ?x = None"
    using moved assms(1) tidy_erase [of ?x st1] by (simp_all add: st2_def)
  have "tidy ((if moved then id else drop_temp pf ?x) st2)"
  proof (cases moved)
    case True
    with st2 have "tidy st2"
      by (intro tidy_gone [of ?x]) simp_all
    with True show ?thesis by simp
  next
    case False
    with tidy_drop [OF assms(1) st2(1)] show ?thesis by simp
  qed
  then show ?thesis
    using tidy_xfer [OF finalize_moved [OF move], of None digest] by (simp add: st2_def)
qed

lemma tidy_file_end:
  assumes "clears pf" "tidy st"
  shows "tidy (handle_file_end pf r st)"
proof -
  obtain xid ra expected rb where rds: "r_u64 r = (xid, ra)" "r_bytes 32 ra = (expected, rb)"
    by (metis prod.exhaust)
  have "tidy (fail_incoming pf inc keep_res st)" for inc keep_res
    by (rule tidy_fail [OF assms(1) tidy_weaken [OF assms(2)]])
  then show ?thesis
    using assms tidy_finalize [OF assms] unfolding handle_file_end_def rds split Let_def
    by (simp split: option.split)
qed

section \<open>Every step of the directory\<close>

text \<open>What the flag and the temp files have in common after any history.\<close>

definition housed :: "session \<Rightarrow> bool \<Rightarrow> bool" where
  "housed st present \<longleftrightarrow> (\<exists>k. temp_of st k \<noteq> None) \<longrightarrow> present"

lemma tidy_handle:
  assumes "clears pf" "tidy st" "incoming_ok b st" "b + 2 ^ 32 < 2 ^ 64"
  shows "tidy (handle pf op r st)"
proof (cases "ss_incompatible st \<or> op \<notin> {FileStart, FileLiteral, FileCopy, FileEnd}")
  case True
  then have "xfer (handle pf op r st) = xfer st"
    by (rule other_messages)
  from tidy_xfer [OF this] assms(2) show ?thesis by simp
next
  case False
  have "om_inv (ss_incoming st)"
    using assms(3) by (simp add: ok_but_def)
  from tidy_file_start [OF assms(1,2) this] tidy_literal [OF assms] tidy_copy [OF assms] tidy_file_end [OF assms(1,2)] False
  show ?thesis
    by (auto simp: handle_def)
qed

lemma stop_clears:
  assumes "clears pf" "tidy st" "ss_running st"
  shows "sv_temp (ss_service (stop pf st)) = Map.empty" "ss_incoming (stop pf st) = []"
proof -
  have "temp_of (fold (\<lambda>e. drop_temp pf (fst e)) es s) k = (if k \<in> fst ` set es then None else temp_of s k)" for es s k
  proof (induction es arbitrary: s)
    case (Cons e es)
    have "pf_clear_temp pf (fst e)"
      using assms(1) by (simp add: clears_def)
    then show ?case
      using Cons by (simp add: drop_temp_def set_temp_def)
  qed simp
  note dropped = this
  have "temp_of st k = None" if "k \<notin> fst ` set (ss_incoming st)" for k
    using assms(2) om_find_None [of "ss_incoming st" k] that unfolding tidy_but_def by blast
  then have "temp_of (stop pf st) k = None" for k
    using assms(3) by (simp add: stop_def dropped)
  then show "sv_temp (ss_service (stop pf st)) = Map.empty"
    by blast
  show "ss_incoming (stop pf st) = []"
    using assms(3) by (rule stop_frame(2))
qed

lemma tidy_step:
  assumes "clears pf" "tidy st" "incoming_ok b st" "b + 2 ^ 32 < 2 ^ 64"
  shows "tidy (session_step pf i st)"
proof (cases "(\<exists>m. i = Arrives m) \<or> i = Stops")
  case True
  moreover have "tidy (deliver pf m st)" for m
    using tidy_handle [OF assms] assms(2)
    by (simp add: deliver_def Let_def split: prod.split option.split)
  moreover have "tidy (stop pf st)"
    using stop_clears [OF assms(1,2)] assms(2)
    by (cases "ss_running st") (simp_all add: tidy_but_def stop_def)
  ultimately show ?thesis by auto
next
  case False
  then have "xfer (session_step pf i st) = xfer st"
    by (intro other_inputs) auto
  from tidy_xfer [OF this] assms(2) show ?thesis by simp
qed

section \<open>Only an accepted file start makes a temp file\<close>

definition fewer :: "session \<Rightarrow> session \<Rightarrow> bool" where
  "fewer s t \<longleftrightarrow> (\<forall>k. temp_of t k = None \<longrightarrow> temp_of s k = None)"

lemma fewer_refl [simp]: "fewer s s"
  by (simp add: fewer_def)

lemma fewer_trans: "fewer s t \<Longrightarrow> fewer t u \<Longrightarrow> fewer s u"
  by (simp add: fewer_def)

lemma fewer_xfer: "xfer s = xfer s' \<Longrightarrow> xfer t = xfer t' \<Longrightarrow> fewer s t = fewer s' t'"
  by (simp add: fewer_def xfer_def)

lemma fewer_drop: "fewer (drop_temp pf x st) st"
  by (simp add: fewer_def drop_temp_def set_temp_def)

lemma fewer_drops: "fewer (fold (\<lambda>e. drop_temp pf (fst e)) es st) st"
proof (induction es arbitrary: st)
  case (Cons e es)
  show ?case
    using fewer_trans [OF Cons.IH [of "drop_temp pf (fst e) st"] fewer_drop] by simp
qed simp

lemma fewer_abandon: "xfer (abandon_pull pf p st) = xfer st"
  by (simp add: frame)

lemma fewer_fail: "fewer (fail_incoming pf inc keep_res st) st"
proof -
  have "fewer (drop_temp pf (in_xid inc) s) st" if "sv_temp (ss_service s) = sv_temp (ss_service st)" for s
    using fewer_drop [of pf "in_xid inc" s] that by (simp add: fewer_def)
  moreover have "sv_temp (ss_service (abandon_pull pf p s)) = sv_temp (ss_service s)" for p s
    using fewer_abandon [of pf p s] by (simp add: xfer_def)
  ultimately show ?thesis
    by (simp add: fail_incoming_def Let_def)
qed

lemma fewer_append: "append_bytes d (inc, st) = (inc', st') \<Longrightarrow> fewer st' st"
  by (auto simp: append_bytes_def fewer_def set_temp_def)

lemma fewer_set_incoming: "fewer (set_incoming inc s) t = fewer s t"
  by (simp add: fewer_def set_incoming_def)

lemma fewer_send: "fewer (send_msg w s) t = fewer s t" "fewer s (send_msg w t) = fewer s t"
  by (simp_all add: fewer_def send_msg_def)

lemma fewer_literal: "fewer (handle_file_literal pf r st) st"
proof -
  obtain xid ra data rb where rds: "r_u64 r = (xid, ra)" "r_blob32 ra = (data, rb)"
    by (metis prod.exhaust)
  have "fewer st' st" if "append_bytes data (inc, st) = (inc', st')" for inc inc' st'
    using that by (rule fewer_append)
  then show ?thesis
    using fewer_fail unfolding handle_file_literal_def rds split Let_def
    by (auto simp: fewer_send fewer_set_incoming split: option.split prod.split)
qed

lemma fewer_copy_loop: "fewer (snd (snd (copy_loop pf base n left src is))) (snd is)"
proof (induction pf base n left src "is" rule: copy_loop.induct)
  case (1 pf base n left src "is")
  have "fewer (snd (append_bytes d is)) (snd is)" for d
    using fewer_append [of d "fst is" "snd is"] by (cases "append_bytes d is") (simp add: prod.collapse)
  then have "fewer (snd (snd (copy_loop pf base n m src' (append_bytes d is)))) (snd is)"
    if "fewer (snd (snd (copy_loop pf base n m src' (append_bytes d is)))) (snd (append_bytes d is))" for d m src'
    using that fewer_trans by blast
  with 1 show ?case
    by (subst copy_loop.simps) (simp add: Let_def)
qed

lemma fewer_copy: "fewer (handle_file_copy pf r st) st"
proof -
  have "fewer st' st" if "copy_loop pf base n left src (inc, st) = (g, inc', st')" for base n left src inc g inc' st'
    using fewer_copy_loop [of pf base n left src "(inc, st)"] that by simp
  then have "fewer (fail_incoming pf inc' False st') st" "fewer st' st"
    if "copy_loop pf base n left src (inc, st) = (g, inc', st')" for base n left src inc g inc' st'
    using that fewer_trans [OF fewer_fail] by blast+
  then show ?thesis
    by (auto simp: handle_file_copy_def Let_def fewer_set_incoming split: prod.split option.split)
qed

lemma fewer_move:
  assumes "move_replace pf x p t st = (st', moved)"
  shows "fewer st' st"
  using assms by (auto simp: move_replace_def Let_def fewer_def set_temp_def set_disk_def split: if_splits)

lemma fewer_finalize: "fewer (finalize_incoming pf inc digest st) st"
proof -
  let ?x = "in_xid inc"
  obtain st1 moved where move: "move_replace pf ?x (in_rel_path inc) (in_mtime inc)
      (send_msg (file_ack st ?x (in_on_wire inc)) st) = (st1, moved)"
    by force
  define st2 where "st2 = st1\<lparr>ss_incoming := om_erase ?x (ss_incoming st1)\<rparr>"
  have "fewer st1 st"
    using fewer_move [OF move] by (simp add: fewer_send)
  then have "fewer st2 st"
    by (simp add: st2_def fewer_def)
  then have "fewer ((if moved then id else drop_temp pf ?x) st2) st"
    using fewer_trans [OF fewer_drop] by simp
  then show ?thesis
    using fewer_xfer [OF finalize_moved [OF move] refl, of digest st] by (simp add: st2_def)
qed

section \<open>The directory holds the temp files\<close>

lemma housed_fewer: "housed st present \<Longrightarrow> fewer s st \<Longrightarrow> housed s present"
  by (auto simp: housed_def fewer_def)

lemma housed_prune: "housed s present \<Longrightarrow> housed s (prune_temp_dir fs (sv_temp (ss_service s)) present)"
  by (auto simp: housed_def prune_temp_dir_def)

lemma housed_file_start:
  assumes "housed st present" "sf_create fs"
  shows "housed (handle_file_start pf r st) (file_start_dir fs r present)"
proof -
  obtain xid ra p rb len64 rc mtime rd mode re is_delta rf where
    rds: "r_u64 r = (xid, ra)" "r_str16 ra = (p, rb)" "r_u64 rb = (len64, rc)" "r_i64 rc = (mtime, rd)"
      "r_u32 rd = (mode, re)" "r_u8 re = (is_delta, rf)"
    by (metis prod.exhaust)
  show ?thesis
  proof (cases "rd_ok rf \<and> is_safe_relpath p")
    case True
    then have "file_start_dir fs r present"
      using assms(2) by (simp add: file_start_dir_def rds ensure_temp_dir_def)
    then show ?thesis
      by (simp add: housed_def)
  next
    case False
    then have "xfer (handle_file_start pf r st) = xfer st" "file_start_dir fs r present = present"
      by (auto simp: handle_file_start_def file_start_dir_def rds fewer_abandon Let_def)
    then show ?thesis
      using assms(1) by (simp add: housed_def xfer_def)
  qed
qed

lemma housed_file_end:
  assumes "housed st present"
  shows "housed (handle_file_end pf r st) (file_end_dir fs pf r st present)"
proof -
  obtain xid ra expected rb where rds: "r_u64 r = (xid, ra)" "r_bytes 32 ra = (expected, rb)"
    by (metis prod.exhaust)
  have fails: "housed (fail_incoming pf inc keep_res st) present"
    "housed (send_msg w (fail_incoming pf inc keep_res st)) present" for w inc keep_res
    by (rule housed_fewer [OF assms], simp add: fewer_fail fewer_send)+
  have "housed (finalize_incoming pf inc digest st) (finalize_dir fs pf inc st present)" for inc digest
  proof -
    let ?x = "in_xid inc" and ?fin = "finalize_incoming pf inc digest st"
    obtain st1 moved where move: "move_replace pf ?x (in_rel_path inc) (in_mtime inc)
        (send_msg (file_ack st ?x (in_on_wire inc)) st) = (st1, moved)"
      by force
    have fin: "housed ?fin present"
      using assms fewer_finalize by (rule housed_fewer)
    moreover have "sv_temp (ss_service ?fin) = sv_temp (ss_service st1)" if moved
      using finalize_moved [OF move, of digest] that by (simp add: xfer_def)
    ultimately have "moved \<Longrightarrow> housed ?fin (prune_temp_dir fs (sv_temp (ss_service st1)) present)"
      using housed_prune [OF fin, of fs] by simp
    with fin show ?thesis
      using move by (simp add: finalize_dir_def)
  qed
  with fails assms show ?thesis
    by (simp add: handle_file_end_def file_end_dir_def rds Let_def split: option.split)
qed

lemma housed_xfer: "xfer s = xfer t \<Longrightarrow> housed s = housed t"
  by (simp add: housed_def xfer_def fun_eq_iff)

lemma housed_handle:
  assumes "housed st present" "sf_create fs"
  shows "housed (handle pf op r st) (handle_dir fs pf op r st present)"
proof (cases "ss_incompatible st \<or> op \<notin> {FileStart, FileLiteral, FileCopy, FileEnd}")
  case True
  then have "handle_dir fs pf op r st present = present"
    by (auto simp: handle_dir_def)
  with housed_xfer [OF other_messages [OF True]] assms(1) show ?thesis by simp
next
  case False
  then show ?thesis
    using housed_file_start [OF assms, of pf r] housed_file_end [OF assms(1), of pf r fs]
      housed_fewer [OF assms(1) fewer_literal, of pf r] housed_fewer [OF assms(1) fewer_copy, of pf r]
    by (auto simp: handle_def handle_dir_def)
qed

lemma housed_stop:
  assumes "housed st present"
  shows "housed (stop pf st) (stop_dir fs pf st present)"
proof (cases "ss_running st")
  case True
  then have "fewer (stop pf st) st"
    using fewer_drops [of pf "ss_incoming st" "st\<lparr>ss_running := False, ss_incoming := [], ss_pull_queue := []\<rparr>"]
    by (simp add: stop_def fewer_def)
  from housed_prune [OF housed_fewer [OF assms this]] True show ?thesis
    by (simp add: stop_dir_def)
qed (use assms in \<open>simp add: stop_def stop_dir_def\<close>)

lemma housed_step:
  assumes "housed st present" "sf_create fs"
  shows "housed (session_step pf i st) (step_dir fs pf i st present)"
proof (cases "(\<exists>m. i = Arrives m) \<or> i = Stops")
  case True
  moreover have "housed (deliver pf m st) (deliver_dir fs pf m st present)" for m
    using housed_handle [OF assms] assms(1)
    by (simp add: deliver_def deliver_dir_def Let_def split: prod.split option.split)
  ultimately show ?thesis
    using housed_stop [OF assms(1)] by auto
next
  case False
  then have "xfer (session_step pf i st) = xfer st"
    by (intro other_inputs) auto
  moreover have "step_dir fs pf i st present = present"
    using False by (cases i) simp_all
  ultimately have this: "xfer (session_step pf i st) = xfer st" "step_dir fs pf i st present = present"
    by simp_all
  with housed_xfer [OF this(1)] assms(1) show ?thesis by simp
qed

text \<open>The session's own part of a history.\<close>

fun own_inputs :: "(platform \<times> scratch_input) list \<Rightarrow> (platform \<times> session_input) list" where
  "own_inputs [] = []"
| "own_inputs ((pf, Own fs i) # ins) = (pf, i) # own_inputs ins"
| "own_inputs (_ # ins) = own_inputs ins"

lemma own_part: "fst (scratch_run ins sp) = session_run (own_inputs ins) (fst sp)"
  by (induction ins arbitrary: sp rule: own_inputs.induct) (auto simp: scratch_run_def split_paired_all)

lemma own_inputs_clear:
  "list_all (\<lambda>(pf, i). clears pf) ins \<Longrightarrow> list_all (\<lambda>(pf, i). clears pf) (own_inputs ins)"
  by (induction ins rule: own_inputs.induct) auto

lemma own_inputs_length: "length (own_inputs ins) \<le> length ins"
  by (induction ins rule: own_inputs.induct) auto

lemma tidy_history:
  assumes "list_all (\<lambda>(pf, i). clears pf) ins" "sv_temp sv = Map.empty" "length ins < 2 ^ 32"
  shows "tidy (session_run ins (new_session sv))"
  using assms(1,3)
proof (induction ins rule: rev_induct)
  case Nil
  then show ?case
    using assms(2) by (simp add: tidy_but_def new_session_def)
next
  case (snoc pi ins)
  obtain pf i where pi: "pi = (pf, i)" by force
  from snoc.prems have "(2 :: nat) ^ 32 * length ins + 2 ^ 32 < 2 ^ 64" "clears pf" by (simp_all add: pi)
  from tidy_step [OF this(2) _ reached_ok this(1)] snoc show ?case
    by (simp add: pi)
qed

lemma deliver_dir_message:
  assumes "\<not> ss_incompatible st"
  shows "deliver_dir fs pf (be32 (sv_tag (ss_service st)) @ op_code op # body) st present = handle_dir fs pf op (rd body) st present"
  using assms by (simp add: deliver_dir_def reader_of_def codec_simps kHeaderBytes_def Let_def)

lemma file_end_bytes:
  "sv_tag (ss_service s) = sv_tag (ss_service st) \<Longrightarrow>
   file_end s xid digest = be32 (sv_tag (ss_service st)) @ op_code FileEnd # be64 xid @ digest"
  by (simp add: file_end_def msg_def codec_simps)

section \<open>Properties\<close>

text \<open>Whatever the session, its peer and the folder's other sessions do, a temp file is never left without
  its directory: no pruning removes the directory while one of its files is in use.\<close>

definition creates :: "scratch_input \<Rightarrow> bool" where
  "creates i = (case i of Own fs _ \<Rightarrow> sf_create fs | Other_starts fs \<Rightarrow> sf_create fs | Other_ends fs \<Rightarrow> True)"

theorem scratch_dir_holds:
  assumes "list_all (\<lambda>(pf, i). creates i) ins" "sv_temp sv = Map.empty"
    and "scratch_run ins (new_session sv, present) = (st, present')" "temp_of st xid \<noteq> None"
  shows present'
proof -
  have "housed (fst (scratch_run ins sp)) (snd (scratch_run ins sp))" if "housed (fst sp) (snd sp)" for sp
    using assms(1) that
  proof (induction ins arbitrary: sp)
    case (Cons pi ins)
    obtain st present where sp: "sp = (st, present)" by force
    obtain pf i where pi: "pi = (pf, i)" by force
    have "housed (fst (scratch_step pf i sp)) (snd (scratch_step pf i sp))"
      using Cons.prems housed_step [of st present _ pf] housed_prune [of st present]
      by (cases i) (auto simp: sp pi creates_def housed_def ensure_temp_dir_def)
    with Cons show ?case by (simp add: scratch_run_def pi)
  qed (simp add: scratch_run_def)
  from this [of "(new_session sv, present)"] assms(2-4) show present'
    by (auto simp: housed_def new_session_def)
qed

text \<open>C39. A stopped session leaves no trace of itself: where temp files can be removed, after any history its
  stop leaves none, and the directory goes too unless another session still has a file in it.\<close>

theorem stop_leaves_no_trace:
  assumes "list_all (\<lambda>(pf, i). clears pf) ins" "clears pf" "sv_temp sv = Map.empty" "length ins < 2 ^ 32"
    and "scratch_run ins (new_session sv, False) = (st, present)" "ss_running st"
    and "sf_remove fs" "\<not> sf_others fs"
  shows "scratch_step pf (Own fs Stops) (st, present) = (stop pf st, False) \<and> sv_temp (ss_service (stop pf st)) = Map.empty"
proof -
  have "st = session_run (own_inputs ins) (new_session sv)"
    using own_part [of ins "(new_session sv, False)"] assms(5) by simp
  moreover have "length (own_inputs ins) < 2 ^ 32"
    using own_inputs_length [of ins] assms(4) by linarith
  ultimately have "tidy st"
    using tidy_history [OF own_inputs_clear [OF assms(1)] assms(3)] by simp
  from stop_clears [OF assms(2) this assms(6)] show ?thesis
    using assms(6-8) by (simp add: stop_dir_def prune_temp_dir_def)
qed

theorem stop_leaves_no_trace_witness:
  "scratch_step sample_platform (Own \<lparr>sf_create = True, sf_remove = True, sf_others = False\<rparr> Stops)
     (scratch_run
       [(sample_platform, Own \<lparr>sf_create = True, sf_remove = True, sf_others = False\<rparr> (Arrives sample_start)),
        (sample_platform, Own \<lparr>sf_create = True, sf_remove = True, sf_others = False\<rparr> (Arrives sample_literal))] (sample_session [], False))
   = (stop sample_platform (session_run [(sample_platform, Arrives sample_start), (sample_platform, Arrives sample_literal)]
        (sample_session [])), False)"
proof -
  let ?fs = "\<lparr>sf_create = True, sf_remove = True, sf_others = False\<rparr>"
  let ?ins = "[(sample_platform, Own ?fs (Arrives sample_start)), (sample_platform, Own ?fs (Arrives sample_literal))]"
  let ?st = "session_run [(sample_platform, Arrives sample_start), (sample_platform, Arrives sample_literal)] (sample_session [])"
  obtain st present where st: "scratch_run ?ins (sample_session [], False) = (st, present)"
    by force
  then have eq: "st = ?st"
    using own_part [of ?ins "(sample_session [], False)"] by simp
  have "ss_running ?st"
    using sample_received
    by (simp add: receiving_def aside_def) (simp add: sample_session_def new_session_def)
  from stop_leaves_no_trace [of ?ins sample_platform "ss_service (sample_session [])" st present ?fs] this st show ?thesis
    unfolding eq by (simp add: clears_def sample_platform_def sample_session_def new_session_def new_service_def Let_def)
qed

text \<open>The last transfer that lands takes the directory with it.\<close>

theorem idle_leaves_no_trace:
  assumes "all_works pf" "list_all (\<lambda>(pf, i). clears pf) ins \<and> sv_temp sv = Map.empty" "length ins < 2 ^ 32"
    and "st = session_run ins (new_session sv)" "\<not> ss_incompatible st"
    and "sv_tag (ss_service s) = sv_tag (ss_service st)"
    and "ss_incoming st = [(xid, inc)]" "temp_of st xid = Some data" "sf_remove fs" "\<not> sf_others fs"
  shows "\<not> step_dir fs pf (Arrives (file_end s xid (pf_sha pf data))) st present"
proof -
  have tidy: "tidy st"
    using tidy_history assms(2-4) by blast
  have inc: "om_find (ss_incoming st) xid = Some inc" "om_inv (ss_incoming st)"
    using assms(7) by simp_all
  have "transfer_ok (2 ^ 32 * length ins) (temp_of st xid) xid inc"
    using reached_ok [OF assms(3), of sv] inc assms(4) by (simp add: ok_but_find)
  then have x: "in_xid inc = xid" "in_hash inc = data"
    using assms(8) by (simp_all add: transfer_ok_def)
  have "temp_of st k = None" if "k \<noteq> xid" for k
    using tidy assms(7) that by (auto simp: tidy_but_def)
  then have "(sv_temp (ss_service st))(xid := None) = Map.empty"
    by auto
  then have "\<not> finalize_dir fs pf inc st present"
    using assms(1,7-10) x
    by (simp add: finalize_dir_def move_replace_def Let_def all_works_def prune_temp_dir_def send_msg_def set_temp_def set_disk_def om_erase_def)
  moreover have "step_dir fs pf (Arrives (file_end s xid (pf_sha pf data))) st present
      = file_end_dir fs pf (rd (be64 xid @ pf_sha pf data @ [])) st present"
    using deliver_dir_message [OF assms(5)] assms(5,6) by (simp add: file_end_bytes handle_dir_def)
  moreover have "\<dots> = finalize_dir fs pf inc st present"
    using inc x assms(1) unfolding file_end_dir_def Let_def r_u64_rd split
    by (simp add: all_works_def r_bytes_rd [of _ 32 "[]", simplified])
  ultimately show ?thesis by simp
qed

text \<open>The one that fails does not: it leaves the empty directory in the tree until the next transfer lands
  or the session stops.\<close>

theorem failed_transfer_leaves_directory:
  assumes "clears pf" "list_all (\<lambda>(pf, i). clears pf) ins \<and> sv_temp sv = Map.empty" "length ins < 2 ^ 32"
    and "st = session_run ins (new_session sv)" "\<not> ss_incompatible st"
    and "sv_tag (ss_service s) = sv_tag (ss_service st)"
    and "ss_incoming st = [(xid, inc)]" "length digest = 32" "pf_sha pf (in_hash inc) \<noteq> digest"
  shows "step_dir fs pf (Arrives (file_end s xid digest)) st present = present
    \<and> ss_incoming (deliver pf (file_end s xid digest) st) = []
    \<and> sv_temp (ss_service (deliver pf (file_end s xid digest) st)) = Map.empty"
proof -
  let ?r = "rd (be64 xid @ digest @ [])"
  have inc: "om_find (ss_incoming st) xid = Some inc"
    using assms(7) by simp
  have "transfer_ok (2 ^ 32 * length ins) (temp_of st xid) xid inc"
    using reached_ok [OF assms(3), of sv] inc assms(4) by (simp add: ok_but_find)
  then have x: "in_xid inc = xid"
    by (rule transfer_ok_xid)
  have read: "r_bytes 32 (rd digest) = (digest, rd [])"
    using r_bytes_rd [of digest 32 "[]"] assms(8) by simp
  have steps: "deliver pf (file_end s xid digest) st = handle_file_end pf ?r st"
    "step_dir fs pf (Arrives (file_end s xid digest)) st present = file_end_dir fs pf ?r st present"
    using deliver_message [OF assms(5), of pf FileEnd] deliver_dir_message [OF assms(5)] assms(5,6)
    by (simp_all add: file_end_bytes handle_def handle_dir_def)
  have "tidy (handle_file_end pf ?r st)"
    using tidy_file_end [OF assms(1) tidy_history [OF assms(2) [THEN conjunct1] assms(2) [THEN conjunct2] assms(3)]] assms(4) by simp
  moreover have "ss_incoming (handle_file_end pf ?r st) = []"
    using inc assms(7,9) x read unfolding handle_file_end_def Let_def r_u64_rd split
    by (simp add: fail_incoming_def Let_def drop_temp_def set_temp_def frame own_fields [OF own_maybe_synced]
        send_msg_def abandon_pull_def release_pull_def om_erase_def)
  moreover have "file_end_dir fs pf ?r st present = present"
    using inc assms(9) read unfolding file_end_dir_def Let_def r_u64_rd split by simp
  ultimately show ?thesis
    unfolding steps by (auto simp: tidy_but_def)
qed

end
