(* ===== verification/File_Ops.thy ===== *)
theory File_Ops
  imports Fs_Path File_Stat
begin

text \<open>
  The file-system helpers of \<open>net/sync_session.cpp\<close>: removing a file that may be held open, finding where a
  link's bytes belong, and dropping the directories a removed file leaves empty. The operating system
  answers through parameters; for the last one a directory tree with the documented behaviour of
  \<open>lstat\<close> and \<open>std::filesystem::remove\<close> says what the walk makes of it.
\<close>

section \<open>Removing a file\<close>

definition kRetries :: nat where
  "kRetries = 3"

text \<open>\<open>removed\<close> and \<open>exists\<close> are the answers of \<open>fs::remove\<close> and \<open>fs::exists\<close> at each attempt.\<close>

partial_function (option) remove_loop :: "(nat \<Rightarrow> bool) \<Rightarrow> (nat \<Rightarrow> bool) \<Rightarrow> nat \<Rightarrow> bool option" where
  "remove_loop removed exists attempt =
     (if removed attempt \<or> \<not> exists attempt then Some True
      else if attempt = kRetries then Some False
      else remove_loop removed exists (attempt + 1))"

definition remove_file :: "(nat \<Rightarrow> bool) \<Rightarrow> (nat \<Rightarrow> bool) \<Rightarrow> bool option" where
  "remove_file removed exists = remove_loop removed exists 0"

lemma remove_loop_from:
  "attempt + left = kRetries \<Longrightarrow>
   remove_loop removed exists attempt = Some (\<exists>a \<in> {attempt..kRetries}. removed a \<or> \<not> exists a)"
proof (induction left arbitrary: attempt)
  case 0
  then show ?case
    by (subst remove_loop.simps) auto
next
  case (Suc left)
  then have "remove_loop removed exists (attempt + 1) =
      Some (\<exists>a \<in> {attempt + 1..kRetries}. removed a \<or> \<not> exists a)"
    by simp
  moreover have "{attempt..kRetries} = insert attempt {attempt + 1..kRetries}"
    using Suc.prems by auto
  ultimately show ?case
    using Suc.prems by (subst remove_loop.simps) auto
qed

section \<open>Following a link\<close>

definition resolve_link ::
  "(bytes \<Rightarrow> posix_stat option) \<Rightarrow> (bytes \<Rightarrow> bytes option) \<Rightarrow> bytes \<Rightarrow> bool \<Rightarrow> bytes" where
  "resolve_link lstat realpath path follow =
     (if \<not> follow then path
      else if \<not> fs_link (stat_nofollow lstat path) then path
      else let real = real_path realpath path in if real = [] then path else real)"

section \<open>Pruning\<close>

text \<open>The walk up from a directory, on any tree that answers \<open>lstat\<close> and \<open>fs::remove\<close>.\<close>

partial_function (option) prune_loop ::
  "('t \<Rightarrow> bytes \<Rightarrow> posix_stat option) \<Rightarrow> (bytes \<Rightarrow> 't \<Rightarrow> bool \<times> 't) \<Rightarrow> bytes \<Rightarrow> bytes \<Rightarrow> 't \<Rightarrow> 't option" where
  "prune_loop lstat remove root dir t =
     (if dir = [] then Some t
      else if fs_link (stat_nofollow (lstat t) (fs_join root dir)) then Some t
      else (case remove (fs_join root dir) t of
          (gone, t) \<Rightarrow> if \<not> gone then Some t else prune_loop lstat remove root (fs_parent_path dir) t))"

definition prune_empty_dirs ::
  "('t \<Rightarrow> bytes \<Rightarrow> posix_stat option) \<Rightarrow> (bytes \<Rightarrow> 't \<Rightarrow> bool \<times> 't) \<Rightarrow> bytes \<Rightarrow> bytes \<Rightarrow> 't \<Rightarrow> 't option" where
  "prune_empty_dirs lstat remove root rel_path t = prune_loop lstat remove root (fs_parent_path rel_path) t"

section \<open>A directory tree\<close>

text \<open>The entries of a file system by the names that lead to them; \<open>may\<close> is what permissions allow.\<close>

datatype node = Directory | Regular | Symlink

type_synonym tree = "(bytes list \<times> node) list"

definition stat_of :: "node \<Rightarrow> posix_stat" where
  "stat_of n = \<lparr>st_link = (n = Symlink), st_dir = (n = Directory), st_exec = False, st_size = 0, st_mtime = 0\<rparr>"

definition tree_lstat :: "tree \<Rightarrow> bytes \<Rightarrow> posix_stat option" where
  "tree_lstat t path = map_option stat_of (map_of t (names_of path))"

definition children :: "tree \<Rightarrow> bytes list \<Rightarrow> tree" where
  "children t p = filter (\<lambda>e. fst e \<noteq> [] \<and> butlast (fst e) = p) t"

definition tree_remove :: "(bytes list \<Rightarrow> bool) \<Rightarrow> bytes \<Rightarrow> tree \<Rightarrow> bool \<times> tree" where
  "tree_remove may path t =
     (let p = names_of path
      in case map_of t p of
           None \<Rightarrow> (False, t)
         | Some n \<Rightarrow>
             if \<not> may p \<or> n = Directory \<and> children t p \<noteq> [] then (False, t)
             else (True, filter (\<lambda>e. fst e \<noteq> p) t))"

definition tree_ok :: "tree \<Rightarrow> bool" where
  "tree_ok t \<longleftrightarrow> (\<forall>p n. map_of t p = Some n \<longrightarrow> p \<noteq> [] \<longrightarrow> map_of t (butlast p) = Some Directory)"

lemma children_iff: "children t p \<noteq> [] \<longleftrightarrow> (\<exists>y. map_of t (p @ [y]) \<noteq> None)"
proof
  assume "children t p \<noteq> []"
  then obtain e where "e \<in> set t" "fst e \<noteq> []" "butlast (fst e) = p"
    by (auto simp: children_def filter_empty_conv)
  then have "p @ [last (fst e)] \<in> fst ` set t"
    by (metis append_butlast_last_id imageI)
  then show "\<exists>y. map_of t (p @ [y]) \<noteq> None"
    by (auto simp: map_of_eq_None_iff)
next
  assume "\<exists>y. map_of t (p @ [y]) \<noteq> None"
  then obtain y n where "(p @ [y], n) \<in> set t"
    by (auto dest: map_of_SomeD)
  then show "children t p \<noteq> []"
    by (force simp: children_def filter_empty_conv)
qed

lemma map_of_filter_key: "map_of (filter (\<lambda>e. fst e \<noteq> p) t) = (map_of t)(p := None)"
  by (induction t) (auto simp: fun_eq_iff)

lemma tree_ok_remove:
  assumes "tree_ok t" "children t p = []"
  shows "tree_ok (filter (\<lambda>e. fst e \<noteq> p) t)"
proof -
  have "butlast q \<noteq> p" if "map_of t q = Some n" "q \<noteq> []" for q n
    using assms(2) children_iff [of t p] that by (metis append_butlast_last_id option.distinct(1))
  with assms(1) show ?thesis
    by (auto simp: tree_ok_def map_of_filter_key)
qed

lemma tree_ok_upper:
  assumes "tree_ok t" "map_of t (xs @ ys) = Some n" "ys \<noteq> []"
  shows "map_of t xs = Some Directory"
  using assms(2,3)
proof (induction ys arbitrary: n rule: rev_induct)
  case (snoc y ys)
  have "map_of t (butlast ((xs @ ys) @ [y])) = Some Directory"
    using assms(1) snoc.prems(1) unfolding tree_ok_def by (metis append_assoc append_is_Nil_conv not_Cons_self2)
  then have upper: "map_of t (xs @ ys) = Some Directory"
    by (simp only: butlast_snoc)
  then show ?case
    using snoc.IH by (cases "ys = []") auto
qed simp

section \<open>Paths of the walk\<close>

lemma pieces_app: "pieces slash (s @ slash # t) = pieces slash s @ pieces slash t"
proof (induction s)
  case (Cons c s)
  then show ?case by (cases "pieces slash s") auto
qed simp

lemma resolve_append: "resolve at (xs @ ys) = resolve (resolve at xs) ys"
  by (induction at xs rule: resolve.induct) auto

lemma resolve_names: "list_all plain_name xs \<Longrightarrow> resolve at xs = at @ xs"
  by (induction xs arbitrary: at) (auto simp: plain_name_def)

lemma names_join:
  assumes "is_absolute root" "list_all plain_name xs" "xs \<noteq> []"
  shows "names_of (fs_join root (join_slash xs)) = names_of root @ xs"
proof -
  have rel: "join_slash xs \<noteq> []" "pieces slash (join_slash xs) = xs"
    using join_slash_last(1) [OF assms(2,3)] pieces_join [OF assms(2,3)] by simp_all
  have "hd (join_slash xs) \<noteq> slash"
    using assms(2,3) by (cases xs; cases "hd xs") (auto simp: join_slash_Cons plain_name_def)
  then consider "last root = slash" "fs_join root (join_slash xs) = root @ join_slash xs"
    | "fs_join root (join_slash xs) = root @ slash # join_slash xs"
    using assms(1) by (cases "last root = slash") (auto simp: fs_join_def is_absolute_def)
  then show ?thesis
  proof cases
    case 1
    then obtain r where r: "root = r @ [slash]"
      using assms(1) by (metis append_butlast_last_id is_absolute_def)
    then have "names_of (root @ join_slash xs) = resolve (names_of r) xs"
      using rel(2) by (simp add: pieces_app resolve_append)
    moreover have "names_of root = names_of r"
      by (simp add: r pieces_app resolve_append)
    ultimately show ?thesis
      using 1(2) resolve_names [OF assms(2)] by simp
  next
    case 2
    then show ?thesis
      using rel(2) resolve_names [OF assms(2)] by (simp add: pieces_app resolve_append)
  qed
qed

lemma parent_join:
  assumes "list_all plain_name (xs @ [x])"
  shows "fs_parent_path (join_slash (xs @ [x])) = join_slash xs"
proof (cases "xs = []")
  case True
  have "dropWhile (\<lambda>c. c \<noteq> slash) (rev x) = []"
    using assms by (auto simp: True plain_name_def dropWhile_eq_Nil_conv)
  then show ?thesis
    by (simp add: True fs_parent_path_def Let_def del: dropWhile_eq_Nil_conv)
next
  case False
  have plain: "list_all plain_name xs" "slash \<notin> set x"
    using assms by (simp_all add: plain_name_def)
  have "join_slash (xs @ [x]) = join_slash xs @ slash # x"
    using join_slash_append [OF False, of "[x]"] by simp
  moreover have "dropWhile (\<lambda>c. c \<noteq> slash) (rev x @ slash # rev (join_slash xs)) = slash # rev (join_slash xs)"
    using plain(2) by (subst dropWhile_append2) auto
  moreover have "dropWhile (\<lambda>c. c = slash) (rev (join_slash xs)) = rev (join_slash xs)"
    using join_slash_last [OF plain(1) False] by (cases "join_slash xs" rule: rev_cases) auto
  ultimately show ?thesis
    using join_slash_last(1) [OF plain(1) False]
    by (simp add: fs_parent_path_def Let_def del: dropWhile_eq_Nil_conv)
qed

section \<open>What the walk leaves\<close>

text \<open>Only empty directories on the way up go, and none that is empty stays where removing is allowed.\<close>

definition pruned :: "(bytes list \<Rightarrow> bool) \<Rightarrow> bytes list \<Rightarrow> bytes list \<Rightarrow> tree \<Rightarrow> tree \<Rightarrow> bool" where
  "pruned may root xs t t' \<longleftrightarrow> tree_ok t'
     \<and> (\<forall>q. map_of t' q = map_of t q \<or> map_of t' q = None \<and> map_of t q = Some Directory
          \<and> (\<exists>k. 0 < k \<and> k \<le> length xs \<and> q = root @ take k xs))
     \<and> ((\<forall>p. may p) \<longrightarrow> (\<forall>k. 0 < k \<and> k \<le> length xs \<longrightarrow> map_of t' (root @ take k xs) = Some Directory \<longrightarrow>
          children t' (root @ take k xs) \<noteq> []))"

lemma pruned_stop:
  assumes "tree_ok t" "map_of t (root @ xs) = Some n" "\<forall>p. may p \<Longrightarrow> n = Directory \<Longrightarrow> children t (root @ xs) \<noteq> []"
  shows "pruned may root xs t t"
proof -
  have "children t (root @ take k xs) \<noteq> []" if k: "k \<le> length xs" "map_of t (root @ take k xs) = Some Directory"
    and may: "\<forall>p. may p" for k
  proof (cases "k = length xs")
    case True
    then show ?thesis
      using assms(2,3) k(2) may by auto
  next
    case False
    then have "xs = take k xs @ xs ! k # drop (Suc k) xs"
      using k(1) by (simp add: id_take_nth_drop)
    then have split: "root @ xs = ((root @ take k xs) @ [xs ! k]) @ drop (Suc k) xs"
      by (metis append.assoc append_Cons append_Nil)
    have "\<exists>m. map_of t ((root @ take k xs) @ [xs ! k]) = Some m"
    proof (cases "drop (Suc k) xs = []")
      case True
      then show ?thesis
        using split assms(2) by simp
    next
      case False
      then show ?thesis
        using tree_ok_upper [OF assms(1), of "(root @ take k xs) @ [xs ! k]" "drop (Suc k) xs" n] split assms(2)
        by metis
    qed
    then show ?thesis
      unfolding children_iff by auto
  qed
  with assms(1) show ?thesis
    by (simp add: pruned_def)
qed

lemma pruned_at:
  assumes "pruned may R xs t t'"
  shows "map_of t' q = map_of t q \<or> map_of t' q = None \<and> map_of t q = Some Directory
    \<and> (\<exists>k. 0 < k \<and> k \<le> length xs \<and> q = R @ take k xs)"
  using assms [unfolded pruned_def] by (elim conjE allE [of _ q]) assumption

text \<open>One more directory removed in front of a walk.\<close>

lemma pruned_step:
  assumes walk: "pruned may R xs (filter (\<lambda>e. fst e \<noteq> R @ xs @ [x]) t) t'" and dir: "map_of t (R @ xs @ [x]) = Some Directory"
  shows "pruned may R (xs @ [x]) t t'"
proof -
  let ?p = "R @ xs @ [x]"
  have gone: "map_of t' ?p = None"
    using pruned_at [OF walk, of ?p] by (auto simp: map_of_filter_key)
  show ?thesis
    unfolding pruned_def
  proof (intro conjI allI impI)
    show "tree_ok t'"
      using walk by (simp add: pruned_def)
    fix q
    show "map_of t' q = map_of t q \<or> map_of t' q = None \<and> map_of t q = Some Directory
        \<and> (\<exists>k. 0 < k \<and> k \<le> length (xs @ [x]) \<and> q = R @ take k (xs @ [x]))"
    proof (cases "q = ?p")
      case True
      then show ?thesis
        using gone dir by (auto intro!: exI [of _ "length (xs @ [x])"])
    next
      case False
      then have "map_of (filter (\<lambda>e. fst e \<noteq> ?p) t) q = map_of t q"
        by (simp add: map_of_filter_key)
      moreover have "take k (xs @ [x]) = take k xs \<and> k \<le> length (xs @ [x])" if "k \<le> length xs" for k
        using that by simp
      ultimately show ?thesis
        using pruned_at [OF walk, of q] by metis
    qed
  next
    fix k
    assume may: "\<forall>p. may p" and k: "0 < k \<and> k \<le> length (xs @ [x])"
      and there: "map_of t' (R @ take k (xs @ [x])) = Some Directory"
    then have "k \<le> length xs"
      using gone by (cases "k = Suc (length xs)") auto
    then show "children t' (R @ take k (xs @ [x])) \<noteq> []"
      using walk may k there by (simp add: pruned_def)
  qed
qed

lemma prune_walk:
  assumes "is_absolute root" "list_all plain_name xs" "tree_ok t"
    and "xs \<noteq> [] \<Longrightarrow> \<exists>n. map_of t (names_of root @ xs) = Some n \<and> n \<noteq> Regular"
  shows "\<exists>t'. prune_loop tree_lstat (tree_remove may) root (join_slash xs) t = Some t'
    \<and> pruned may (names_of root) xs t t'"
  using assms(2-)
proof (induction xs arbitrary: t rule: rev_induct)
  case Nil
  then show ?case
    by (subst prune_loop.simps) (simp add: pruned_def)
next
  case (snoc x xs)
  let ?R = "names_of root" and ?dir = "join_slash (xs @ [x])"
  let ?p = "?R @ xs @ [x]"
  have dir: "?dir \<noteq> []" "names_of (fs_join root ?dir) = ?p" "fs_parent_path ?dir = join_slash xs"
    using join_slash_last(1) [OF snoc.prems(1)] names_join [OF assms(1) snoc.prems(1)] parent_join [OF snoc.prems(1)]
    by simp_all
  obtain n where n: "map_of t ?p = Some n" "n \<noteq> Regular"
    using snoc.prems(3) by auto
  have link: "fs_link (stat_nofollow (tree_lstat t) (fs_join root ?dir)) \<longleftrightarrow> n = Symlink"
    using n(1) by (auto simp: tree_lstat_def dir(2) stat_of_def)
  show ?case
  proof (cases "n = Symlink \<or> \<not> may ?p \<or> children t ?p \<noteq> []")
    case True
    have "n = Symlink \<or> n = Directory"
      using n(2) by (cases n) auto
    with True have "n = Symlink \<or> tree_remove may (fs_join root ?dir) t = (False, t)"
      using n(1) dir(2) by (auto simp: tree_remove_def Let_def)
    then have "prune_loop tree_lstat (tree_remove may) root ?dir t = Some t"
      using link dir(1) by (subst prune_loop.simps) (auto simp del: stat_nofollow_fields)
    moreover have "pruned may ?R (xs @ [x]) t t"
      using True n by (intro pruned_stop [OF snoc.prems(2)]) auto
    ultimately show ?thesis
      by blast
  next
    case False
    then have n': "n = Directory"
      using n(2) by (cases n) auto
    let ?t = "filter (\<lambda>e. fst e \<noteq> ?p) t"
    have step: "prune_loop tree_lstat (tree_remove may) root ?dir t =
        prune_loop tree_lstat (tree_remove may) root (join_slash xs) ?t"
      using False n(1) n' link dir
      by (subst prune_loop.simps) (simp add: tree_remove_def del: stat_nofollow_fields)
    have ok: "tree_ok ?t"
      using False snoc.prems(2) by (simp add: tree_ok_remove)
    have "map_of t (?R @ xs) = Some Directory"
      using tree_ok_upper [OF snoc.prems(2), of "?R @ xs" "[x]"] n(1) by simp
    then have "\<exists>n. map_of ?t (?R @ xs) = Some n \<and> n \<noteq> Regular"
      by (simp add: map_of_filter_key)
    then obtain t' where t': "prune_loop tree_lstat (tree_remove may) root (join_slash xs) ?t = Some t'"
      "pruned may ?R xs ?t t'"
      using snoc.IH [OF _ ok] snoc.prems(1) by auto
    have "pruned may ?R (xs @ [x]) t t'"
      using pruned_step [OF t'(2)] n(1) n' by simp
    with t'(1) show ?thesis
      by (simp add: step)
  qed
qed

section \<open>Properties\<close>

text \<open>Removing a file ends after at most four attempts and says whether one of them found it gone.\<close>

theorem remove_file_bounded:
  "remove_file removed exists = Some (\<exists>a \<in> {0..3}. removed a \<or> \<not> exists a)"
  using remove_loop_from [of 0 3 removed exists] by (simp add: remove_file_def kRetries_def)

text \<open>Where links are followed, the bytes of a transfer land on a link only when it leads nowhere.\<close>

theorem resolve_link_target:
  assumes "\<forall>p q. realpath p = Some q \<longrightarrow> q \<noteq> [] \<and> \<not> fs_link (stat_nofollow lstat q)"
    and "fs_link (stat_nofollow lstat (resolve_link lstat realpath path True))"
  shows "resolve_link lstat realpath path True = path \<and> realpath path = None"
  using assms by (auto simp: resolve_link_def real_path_def Let_def split: if_splits option.splits)

text \<open>C40. Pruning ends, and removes nothing but directories left empty on the way up from a removed file: every
  entry it takes is a directory between the sync root and that file, the root itself stays, and so
  does every other entry, each with its parent. Where removing is permitted, no directory on the way
  up is left empty.\<close>

theorem prune_exact:
  assumes "is_absolute root" "list_all plain_name (xs @ [leaf])" "tree_ok t"
    and "xs \<noteq> [] \<Longrightarrow> map_of t (names_of root @ xs) \<in> {Some Directory, Some Symlink}"
  shows "\<exists>t'. prune_empty_dirs tree_lstat (tree_remove may) root (join_slash (xs @ [leaf])) t = Some t' \<and> tree_ok t'
    \<and> map_of t' (names_of root) = map_of t (names_of root)
    \<and> (\<forall>q. map_of t' q = map_of t q \<or> map_of t' q = None \<and> map_of t q = Some Directory
          \<and> (\<exists>k. 0 < k \<and> k \<le> length xs \<and> q = names_of root @ take k xs))
    \<and> ((\<forall>p. may p) \<longrightarrow> (\<forall>k. 0 < k \<and> k \<le> length xs \<longrightarrow> map_of t' (names_of root @ take k xs) = Some Directory \<longrightarrow>
          children t' (names_of root @ take k xs) \<noteq> []))"
proof -
  have xs: "list_all plain_name xs"
    using assms(2) by simp
  have start: "xs \<noteq> [] \<Longrightarrow> \<exists>n. map_of t (names_of root @ xs) = Some n \<and> n \<noteq> Regular"
    using assms(4) by auto
  from prune_walk [OF assms(1) xs assms(3) start, of may]
  obtain t' where t': "prune_empty_dirs tree_lstat (tree_remove may) root (join_slash (xs @ [leaf])) t = Some t'"
    "pruned may (names_of root) xs t t'"
    by (auto simp: prune_empty_dirs_def parent_join [OF assms(2)])
  have "map_of t' (names_of root) = map_of t (names_of root)"
    using pruned_at [OF t'(2), of "names_of root"] by auto
  moreover note t'(2) [unfolded pruned_def]
  ultimately show ?thesis
    using t'(1) by (intro exI [of _ t']) (elim conjE, intro conjI)
qed

text \<open>/s/a/b held one file, /s/a another.\<close>

definition sample_tree :: tree where
  "sample_tree = [([], Directory), ([[115]], Directory), ([[115], [97]], Directory),
     ([[115], [97], [98]], Directory), ([[115], [97], [99]], Regular)]"

theorem prune_exact_witness:
  "\<exists>t'. prune_empty_dirs tree_lstat (tree_remove (\<lambda>p. True)) [47, 115] (join_slash ([[97], [98]] @ [[102]])) sample_tree = Some t'
    \<and> map_of t' [[115]] = Some Directory \<and> children t' [[115], [97]] \<noteq> []"
proof -
  have names: "names_of [47, 115] = [[115]]"
    by simp
  have ok: "tree_ok sample_tree"
    by (auto simp: tree_ok_def sample_tree_def split: if_splits)
  have at: "map_of sample_tree (names_of [47, 115] @ [[97], [98]]) \<in> {Some Directory, Some Symlink}"
    by (simp add: names sample_tree_def)
  have plain: "list_all plain_name ([[97], [98]] @ [[102]])" "is_absolute [47, 115]"
    by (simp_all add: plain_name_def is_absolute_def)
  from prune_exact [OF plain(2,1) ok at, of "\<lambda>p. True"] obtain t' where
    t': "prune_empty_dirs tree_lstat (tree_remove (\<lambda>p. True)) [47, 115] (join_slash ([[97], [98]] @ [[102]])) sample_tree = Some t'"
    "map_of t' [[115]] = map_of sample_tree [[115]]"
    "\<And>q. map_of t' q = map_of sample_tree q \<or> map_of sample_tree q = Some Directory"
    unfolding names by auto
  have "map_of t' ([[115], [97]] @ [[99]]) = Some Regular"
    using t'(3) [of "[[115], [97], [99]]"] by (simp add: sample_tree_def)
  then have "children t' [[115], [97]] \<noteq> []"
    unfolding children_iff by blast
  with t'(1,2) show ?thesis
    by (auto simp: sample_tree_def)
qed

end
