(* ===== verification/File_Stat_Windows.thy ===== *)
theory File_Stat_Windows
  imports File_Stat "HOL-Library.Signed_Division"
begin

text \<open>
  \<open>core/file_stat.cpp\<close>, the Windows build: the same three questions, answered from file attributes and
  handles. The calls of the operating system are the fields of a record.
\<close>

unbundle bit_operations_syntax

section \<open>Times\<close>

record filetime =
  ft_high :: u32
  ft_low :: u32

text \<open>The difference overflows only for times that are negative as 64-bit numbers; that is undefined in C++
  and exact here. The division rounds towards zero.\<close>

definition unix_seconds :: "filetime \<Rightarrow> i64" where
  "unix_seconds ft =
     (let li = (word_cat (ft_high ft) (ft_low ft) :: i64)
      in of_int ((sint li - 116444736000000000) sdiv 10000000))"

section \<open>The operating system\<close>

text \<open>What both attribute calls report.\<close>

record attribute_data =
  ad_attributes :: u32
  ad_size_high :: u32
  ad_size_low :: u32
  ad_last_write :: filetime

text \<open>\<open>wn_open\<close> is \<open>CreateFileA\<close> with the flags the caller adds, \<open>wn_final_path\<close> what
  \<open>GetFinalPathNameByHandleA\<close> returns for a buffer of the given size and what it leaves in it.\<close>

record 'h windows =
  wn_open :: "bytes \<Rightarrow> u32 \<Rightarrow> 'h option"
  wn_info :: "'h \<Rightarrow> attribute_data option"
  wn_attributes :: "bytes \<Rightarrow> attribute_data option"
  wn_tag :: "'h \<Rightarrow> u32 option"
  wn_final_path :: "'h \<Rightarrow> nat \<Rightarrow> nat \<times> bytes"

definition FILE_ATTRIBUTE_DIRECTORY :: u32 where
  "FILE_ATTRIBUTE_DIRECTORY = 0x10"

definition FILE_ATTRIBUTE_REPARSE_POINT :: u32 where
  "FILE_ATTRIBUTE_REPARSE_POINT = 0x400"

definition FILE_FLAG_OPEN_REPARSE_POINT :: u32 where
  "FILE_FLAG_OPEN_REPARSE_POINT = 0x200000"

definition IsReparseTagNameSurrogate :: "u32 \<Rightarrow> bool" where
  "IsReparseTagNameSurrogate tag \<longleftrightarrow> tag AND 0x20000000 \<noteq> 0"

definition MAX_PATH :: nat where
  "MAX_PATH = 260"

section \<open>The three questions\<close>

definition size_of :: "attribute_data \<Rightarrow> u64" where
  "size_of d = push_bit 32 (ucast (ad_size_high d)) OR ucast (ad_size_low d)"

definition win_stat_follow :: "'h windows \<Rightarrow> bytes \<Rightarrow> file_stat" where
  "win_stat_follow w path =
     (case wn_open w path 0 of None \<Rightarrow> no_stat
      | Some h \<Rightarrow>
          (case wn_info w h of None \<Rightarrow> no_stat
           | Some info \<Rightarrow>
               let s = no_stat\<lparr>fs_exists := True,
                         fs_directory := (ad_attributes info AND FILE_ATTRIBUTE_DIRECTORY \<noteq> 0)\<rparr>;
                   s = (if \<not> fs_directory s then s\<lparr>fs_size := size_of info\<rparr> else s)
               in s\<lparr>fs_mtime := unix_seconds (ad_last_write info)\<rparr>))"

definition win_stat_nofollow :: "'h windows \<Rightarrow> bytes \<Rightarrow> file_stat" where
  "win_stat_nofollow w path =
     (case wn_attributes w path of None \<Rightarrow> no_stat
      | Some fad \<Rightarrow>
          let s = no_stat\<lparr>fs_exists := True,
                    fs_directory := (ad_attributes fad AND FILE_ATTRIBUTE_DIRECTORY \<noteq> 0),
                    fs_mtime := unix_seconds (ad_last_write fad)\<rparr>;
              s = (if ad_attributes fad AND FILE_ATTRIBUTE_REPARSE_POINT \<noteq> 0
                   then (case wn_open w path FILE_FLAG_OPEN_REPARSE_POINT of None \<Rightarrow> s
                         | Some h \<Rightarrow>
                             (case wn_tag w h of None \<Rightarrow> s
                              | Some tag \<Rightarrow> s\<lparr>fs_link := IsReparseTagNameSurrogate tag\<rparr>))
                   else s)
          in if \<not> fs_directory s \<and> \<not> fs_link s then s\<lparr>fs_size := size_of fad\<rparr> else s)"

text \<open>The spelling \<open>\\?\\<close> of a path that is not to be parsed, and of a network path.\<close>

definition verbatim :: bytes where
  "verbatim = [backslash, backslash, question, backslash]"

definition verbatim_unc :: bytes where
  "verbatim_unc = verbatim @ [85, 78, 67, backslash]"

definition plain_spelling :: "bytes \<Rightarrow> bytes" where
  "plain_spelling out =
     (if take 8 out = verbatim_unc then [backslash, backslash] @ drop 8 out
      else if take 4 out = verbatim then drop 4 out
      else out)"

definition win_real_path :: "'h windows \<Rightarrow> bytes \<Rightarrow> bytes" where
  "win_real_path w path =
     (case wn_open w path 0 of None \<Rightarrow> []
      | Some h \<Rightarrow>
          let (n, stack_buf) = wn_final_path w h MAX_PATH;
              out = (if n > 0 \<and> n < MAX_PATH then take n stack_buf
                     else if n \<ge> MAX_PATH then
                       (let (written, out) = wn_final_path w h n
                        in take (if written > 0 \<and> written < n then written else 0) out)
                     else [])
          in plain_spelling out)"

section \<open>What they answer\<close>

text \<open>A time in \<open>FILETIME\<close> ticks of 100 ns since 1601.\<close>

definition ticks :: "filetime \<Rightarrow> int" where
  "ticks ft = uint (ft_high ft) * 2 ^ 32 + uint (ft_low ft)"

lemma sint_in_range:
  assumes "- (2 ^ 63) \<le> k" "k < 2 ^ 63"
  shows "sint (of_int k :: i64) = k"
  using assms int_word_sint [of k, where 'a = 64] by simp

lemma unix_seconds_ticks:
  assumes "ticks ft < 2 ^ 63"
  shows "sint (unix_seconds ft) = (ticks ft - 116444736000000000) sdiv 10000000"
proof -
  have range: "0 \<le> ticks ft"
    by (simp add: ticks_def)
  have "(word_cat (ft_high ft) (ft_low ft) :: i64) = of_int (ticks ft)"
    by (simp add: word_cat_eq ticks_def push_bit_eq_mult concat_bit_eq)
  with range assms have li: "sint (word_cat (ft_high ft) (ft_low ft) :: i64) = ticks ft"
    by (simp add: sint_in_range)
  let ?x = "(ticks ft - 116444736000000000) sdiv 10000000"
  have "- (2 ^ 63) \<le> ?x \<and> ?x < 2 ^ 63"
    using range assms by (auto simp: signed_divide_int_def sgn_if)
  then show ?thesis
    by (simp add: unix_seconds_def li sint_in_range)
qed

text \<open>The contract of \<open>GetFinalPathNameByHandleA\<close>: the length of a path that fits, which it then stores, or the
  size a buffer needs.\<close>

definition final_path_contract :: "'h windows \<Rightarrow> ('h \<Rightarrow> bytes) \<Rightarrow> bool" where
  "final_path_contract w target \<longleftrightarrow> (\<forall>h size. target h \<noteq> [] \<and>
     (if length (target h) < size
      then fst (wn_final_path w h size) = length (target h) \<and> take (length (target h)) (snd (wn_final_path w h size)) = target h
      else fst (wn_final_path w h size) = length (target h) + 1))"

text \<open>A resolved path is read whole, however long it is, and comes back in the spelling of the walk.\<close>

theorem win_real_path_whole:
  assumes "final_path_contract w target"
  shows "win_real_path w path = (case wn_open w path 0 of None \<Rightarrow> [] | Some h \<Rightarrow> plain_spelling (target h))"
proof (cases "wn_open w path 0")
  case (Some h)
  have c: "target h \<noteq> []" "length (target h) < size \<Longrightarrow> fst (wn_final_path w h size) = length (target h)"
    "length (target h) < size \<Longrightarrow> take (length (target h)) (snd (wn_final_path w h size)) = target h"
    "\<not> length (target h) < size \<Longrightarrow> fst (wn_final_path w h size) = length (target h) + 1" for size
    using assms unfolding final_path_contract_def by metis+
  show ?thesis
    using c(1) c(2-4) [of MAX_PATH] c(2,3) [of "length (target h) + 1"]
    by (cases "length (target h) < MAX_PATH")
      (auto simp: win_real_path_def Some Let_def split: prod.split)
qed (simp add: win_real_path_def)

text \<open>Asking through a link and asking the entry itself agree on every entry that is no link, to the second of
  its time, cloud placeholders and other reparse points that stand for themselves included; and an entry
  is a link exactly when it is a reparse point with a tag that names something else.\<close>

theorem win_stats_agree:
  assumes "wn_attributes w path = Some fad"
    and "\<exists>h info. wn_open w path 0 = Some h \<and> wn_info w h = Some info \<and> ad_attributes info = ad_attributes fad
      \<and> size_of info = size_of fad \<and> ad_last_write info = ad_last_write fad"
  shows "(fs_link (win_stat_nofollow w path) \<longleftrightarrow> ad_attributes fad AND FILE_ATTRIBUTE_REPARSE_POINT \<noteq> 0
      \<and> (\<exists>h tag. wn_open w path FILE_FLAG_OPEN_REPARSE_POINT = Some h \<and> wn_tag w h = Some tag \<and> IsReparseTagNameSurrogate tag))
    \<and> (\<not> fs_link (win_stat_nofollow w path) \<longrightarrow> win_stat_nofollow w path = win_stat_follow w path)"
  using assms
  by (auto simp: win_stat_nofollow_def win_stat_follow_def no_stat_def Let_def split: option.splits)

text \<open>The Unix time of a file written at or after 1970 is the second its ticks lie in.\<close>

theorem filetime_seconds:
  assumes "ticks ft = 116444736000000000 + 10000000 * s + k" "0 \<le> s" "0 \<le> k" "k < 10000000" "ticks ft < 2 ^ 63"
  shows "sint (unix_seconds ft) = s"
proof -
  have "sint (unix_seconds ft) = (10000000 * s + k) sdiv 10000000"
    using unix_seconds_ticks [OF assms(5)] assms(1) by simp
  also have "\<dots> = (10000000 * s + k) div 10000000"
    using assms(2,3) by (simp add: signed_divide_int_def sgn_if)
  also have "\<dots> = s"
    using assms(3,4) by simp
  finally show ?thesis .
qed

end
