(* ===== verification/Terminal.thy ===== *)
theory Terminal
  imports Prelude Complex_Main
begin

text \<open>
  \<open>app/terminal.h\<close> / \<open>.cpp\<close>: styled text and sizes for people. Whether colours are on is a global of the
  code and an argument here; \<open>double\<close> is the rationals it stands for, with the rounding of the
  conversion from an integer written out - every later operation is exact.
\<close>

section \<open>Styles\<close>

text \<open>\<open>no_color\<close> is the environment variable \<open>NO_COLOR\<close>, \<open>tty\<close> whether the standard output is a terminal.\<close>

definition term_init :: "bool \<Rightarrow> bytes option \<Rightarrow> bool \<Rightarrow> bool" where
  "term_init force_no_color no_color tty \<longleftrightarrow> \<not> force_no_color \<and> no_color = None \<and> tty"

definition term_wrap :: "bool \<Rightarrow> bytes \<Rightarrow> string \<Rightarrow> bytes" where
  "term_wrap color s code = (if \<not> color then s else [27, 91] @ str code @ [109] @ s @ [27, 91, 48, 109])"

definition bold :: "bool \<Rightarrow> bytes \<Rightarrow> bytes" where
  "bold color s = term_wrap color s ''1''"

definition dim :: "bool \<Rightarrow> bytes \<Rightarrow> bytes" where
  "dim color s = term_wrap color s ''2''"

definition red :: "bool \<Rightarrow> bytes \<Rightarrow> bytes" where
  "red color s = term_wrap color s ''31''"

definition green :: "bool \<Rightarrow> bytes \<Rightarrow> bytes" where
  "green color s = term_wrap color s ''32''"

definition yellow :: "bool \<Rightarrow> bytes \<Rightarrow> bytes" where
  "yellow color s = term_wrap color s ''33''"

definition blue :: "bool \<Rightarrow> bytes \<Rightarrow> bytes" where
  "blue color s = term_wrap color s ''34''"

definition cyan :: "bool \<Rightarrow> bytes \<Rightarrow> bytes" where
  "cyan color s = term_wrap color s ''36''"

definition gray :: "bool \<Rightarrow> bytes \<Rightarrow> bytes" where
  "gray color s = term_wrap color s ''90''"

lemmas style_defs = bold_def dim_def red_def green_def yellow_def blue_def cyan_def gray_def

section \<open>Sizes\<close>

text \<open>A \<open>double\<close> keeps 53 significant bits, rounding to the nearest value and half way to the even one.\<close>

fun excess_bits :: "nat \<Rightarrow> nat" where
  "excess_bits n = (if n < 2 ^ 53 then 0 else Suc (excess_bits (n div 2)))"

declare excess_bits.simps [simp del]

definition to_double :: "nat \<Rightarrow> nat" where
  "to_double n =
     (let s = 2 ^ excess_bits n; q = n div s; r = n mod s
      in if 2 * r > s \<or> 2 * r = s \<and> odd q then (q + 1) * s else q * s)"

definition units :: "bytes list" where
  "units = map str [''B'', ''KiB'', ''MiB'', ''GiB'', ''TiB'', ''PiB'']"

function unit_loop :: "rat \<Rightarrow> nat \<Rightarrow> rat \<times> nat" where
  "unit_loop v u = (if v \<ge> 1024 \<and> u + 1 < length units then unit_loop (v / 1024) (u + 1) else (v, u))"
  by pat_completeness auto
termination
  by (relation "measure (\<lambda>(v, u). length units - u)") auto

declare unit_loop.simps [simp del]

text \<open>\<open>%.1f\<close>: the exact value, rounded to tenths, half way to the even one.\<close>

definition tenths :: "rat \<Rightarrow> nat" where
  "tenths v =
     (let x = 10 * v; k = nat \<lfloor>x\<rfloor>; f = x - of_nat k
      in if f > 1 / 2 \<or> f = 1 / 2 \<and> odd k then k + 1 else k)"

definition one_decimal :: "rat \<Rightarrow> bytes" where
  "one_decimal v = decimal (tenths v div 10) @ [dot, 48 + of_nat (tenths v mod 10)]"

text \<open>The buffer holds 31 characters and the terminating zero.\<close>

definition term_bytes :: "u64 \<Rightarrow> bytes" where
  "term_bytes n =
     (let (v, u) = unit_loop (of_nat (to_double (unat n))) 0
      in take 31 (if u = 0 then decimal (unat n) @ [32] @ units ! u else one_decimal v @ [32] @ units ! u))"

section \<open>What the rounding costs\<close>

lemma excess_bits_zero: "n < 2 ^ 53 \<Longrightarrow> excess_bits n = 0"
  by (simp add: excess_bits.simps)

lemma excess_bits_le: "n < 2 ^ (53 + k) \<Longrightarrow> excess_bits n \<le> k"
proof (induction k arbitrary: n)
  case 0
  then show ?case by (simp add: excess_bits.simps)
next
  case (Suc k)
  have "(2 :: nat) ^ (53 + Suc k) = 2 ^ (53 + k) * 2"
    by (simp only: add_Suc_right power_Suc mult.commute)
  with Suc.prems have "n div 2 < 2 ^ (53 + k)"
    by (simp only: div_less_iff_less_mult)
  from Suc.IH [OF this] show ?case
    by (simp add: excess_bits.simps [of n])
qed

lemma to_double_small: "n < 2 ^ 53 \<Longrightarrow> to_double n = n"
  by (simp add: to_double_def excess_bits_zero)

lemma to_double_near:
  fixes n :: nat
  shows "\<bar>int (to_double n) - int n\<bar> * 2 \<le> 2 ^ excess_bits n"
proof -
  define s q r where "s = (2 :: nat) ^ excess_bits n" and "q = n div s" and "r = n mod s"
  have n: "n = q * s + r" and r: "r < s"
    by (simp_all only: q_def r_def div_mult_mod_eq) (simp add: s_def)
  have "to_double n = (if 2 * r > s \<or> 2 * r = s \<and> odd q then (q + 1) * s else q * s)"
    by (simp add: to_double_def s_def q_def r_def Let_def)
  then have "\<bar>int (to_double n) - int n\<bar> * 2 \<le> int s"
    using r by (auto simp: n)
  then show ?thesis by (simp add: s_def)
qed

section \<open>What is printed\<close>

lemma unit_loop_steps:
  assumes "u < 6" "unit_loop (x / 1024 ^ u) u = (v, k)"
  shows "u \<le> k \<and> k < 6 \<and> v = x / 1024 ^ k \<and> (k = u \<or> 1024 ^ k \<le> x) \<and> (x < 1024 ^ Suc k \<or> k = 5)"
  using assms
proof (induction "5 - u" arbitrary: u)
  case 0
  then show ?case
    by (subst (asm) unit_loop.simps) (auto simp: units_def)
next
  case (Suc d)
  have down: "x / 1024 ^ u \<ge> 1024 \<longleftrightarrow> 1024 ^ Suc u \<le> x"
    by (simp add: pos_le_divide_eq mult.commute)
  show ?case
  proof (cases "1024 ^ Suc u \<le> x")
    case True
    have "u < 5"
      using Suc.hyps(2) by simp
    have "unit_loop y u = unit_loop (y / 1024) (Suc u)" if "1024 \<le> y" for y
      using that \<open>u < 5\<close> by (subst unit_loop.simps) (simp add: units_def)
    moreover have "x / 1024 ^ u / 1024 = x / 1024 ^ Suc u"
      by simp
    ultimately have "unit_loop (x / 1024 ^ u) u = unit_loop (x / 1024 ^ Suc u) (Suc u)"
      using True down by metis
    then have "unit_loop (x / 1024 ^ Suc u) (Suc u) = (v, k)"
      using Suc.prems(2) by simp
    from Suc.hyps(1) [OF _ _ this] \<open>u < 5\<close> Suc.hyps(2) have "Suc u \<le> k \<and> k < 6 \<and> v = x / 1024 ^ k
        \<and> (k = Suc u \<or> 1024 ^ k \<le> x) \<and> (x < 1024 ^ Suc k \<or> k = 5)"
      by simp
    with True show ?thesis by auto
  next
    case False
    then have "unit_loop (x / 1024 ^ u) u = (x / 1024 ^ u, u)"
      using down by (subst unit_loop.simps) simp
    with False Suc.prems show ?thesis by auto
  qed
qed

lemma tenths_near:
  assumes "0 \<le> v"
  shows "\<bar>of_nat (tenths v) - 10 * v\<bar> \<le> 1 / 2"
proof -
  define k where "k = nat \<lfloor>10 * v\<rfloor>"
  have "of_nat k = (of_int \<lfloor>10 * v\<rfloor> :: rat)"
    using assms by (simp add: k_def)
  then have "of_nat k \<le> 10 * v" "10 * v < of_nat k + 1"
    using floor_correct [of "10 * v"] by simp_all
  moreover have "tenths v = (if 10 * v - of_nat k > 1 / 2 \<or> 10 * v - of_nat k = 1 / 2 \<and> odd k then k + 1 else k)"
    unfolding tenths_def Let_def k_def by (rule refl)
  ultimately show ?thesis
    by (auto simp: abs_le_iff)
qed

lemma decimal_length: "n < 10 ^ Suc k \<Longrightarrow> length (decimal n) \<le> Suc k"
proof (induction k arbitrary: n)
  case 0
  then show ?case by (simp add: decimal.simps)
next
  case (Suc k)
  then have "n div 10 < 10 ^ Suc k" by simp
  from Suc.IH [OF this] show ?case
    by (simp add: decimal.simps [of n])
qed

text \<open>A 64-bit number loses at most \<open>2 ^ 10\<close>.\<close>

lemma double_error:
  assumes "n < 2 ^ 64"
  shows "\<bar>int (to_double n) - int n\<bar> \<le> 2 ^ 10" "to_double n < 2 ^ 64 + 2 ^ 11"
proof -
  have "excess_bits n \<le> 11"
    using assms by (intro excess_bits_le) simp
  then have "(2 :: int) ^ excess_bits n \<le> 2 ^ 11"
    by (intro power_increasing) simp_all
  then show near: "\<bar>int (to_double n) - int n\<bar> \<le> 2 ^ 10"
    using to_double_near [of n] by simp
  have "a < 2 ^ 64 + 2 ^ 11" if "\<bar>int a - int b\<bar> \<le> 2 ^ 10" "b < 2 ^ 64" for a b :: nat
    using that by (simp add: abs_le_iff)
  from this [OF near assms] show "to_double n < 2 ^ 64 + 2 ^ 11" .
qed

lemma rat_compare:
  "1024 ^ k \<le> (of_nat m :: rat) \<longleftrightarrow> 1024 ^ k \<le> m" "(of_nat m :: rat) < 1024 ^ k \<longleftrightarrow> m < 1024 ^ k"
  by (metis of_nat_le_iff of_nat_numeral of_nat_power, metis of_nat_less_iff of_nat_numeral of_nat_power)

lemma unit_chosen:
  assumes "n < 2 ^ 64" "unit_loop (of_nat (to_double n)) 0 = (v, u)"
  shows "u < 6" "v = of_nat (to_double n) / 1024 ^ u" "u = 0 \<or> 1024 ^ u \<le> n" "n < 1024 ^ Suc u \<or> u = 5"
    "u \<noteq> 5 \<Longrightarrow> to_double n = n" "v < 16385"
proof -
  show u: "u < 6" and v: "v = of_nat (to_double n) / 1024 ^ u"
    using unit_loop_steps [of 0 "of_nat (to_double n)" v u] assms(2) by simp_all
  have d: "u = 0 \<or> 1024 ^ u \<le> to_double n" "to_double n < 1024 ^ Suc u \<or> u = 5"
    using unit_loop_steps [of 0 "of_nat (to_double n)" v u] assms(2) by (simp_all add: rat_compare del: power_Suc)
  have small: "n < 2 ^ 53 \<or> u = 5"
  proof (rule ccontr)
    assume large: "\<not> (n < 2 ^ 53 \<or> u = 5)"
    then have "(1024 :: nat) ^ Suc u \<le> 1024 ^ 5"
      using u by (intro power_increasing) simp_all
    with d(2) large double_error(1) [OF assms(1)] show False
      by simp
  qed
  then show "u = 0 \<or> 1024 ^ u \<le> n" "n < 1024 ^ Suc u \<or> u = 5" "u \<noteq> 5 \<Longrightarrow> to_double n = n"
    using d to_double_small [of n] by (cases "n < 2 ^ 53"; simp)+
  show "v < 16385"
  proof (cases "u = 5")
    case True
    have "of_nat (to_double n) < (of_nat (2 ^ 64 + 2 ^ 11) :: rat)"
      using double_error(2) [OF assms(1)] by (simp only: of_nat_less_iff)
    then show ?thesis
      by (simp add: v True)
  next
    case False
    then have "of_nat (to_double n) < (1024 ^ Suc u :: rat)"
      using d(2) by (simp add: rat_compare del: power_Suc)
    then have "v < 1024"
      by (simp add: v pos_divide_less_eq mult.commute)
    then show ?thesis by simp
  qed
qed

lemma unit_error:
  assumes "n < 2 ^ 64" "unit_loop (of_nat (to_double n)) 0 = (v, u)"
  shows "\<bar>v - of_nat n / 1024 ^ u\<bar> \<le> 1 / 2 ^ 40"
proof (cases "u = 5")
  case True
  have "of_int \<bar>int (to_double n) - int n\<bar> \<le> (of_int (2 ^ 10) :: rat)"
    using double_error(1) [OF assms(1)] by (simp only: of_int_le_iff)
  then have "\<bar>of_nat (to_double n) - of_nat n\<bar> / 1024 ^ 5 \<le> (2 ^ 10 / 1024 ^ 5 :: rat)"
    by (intro divide_right_mono) simp_all
  then show ?thesis
    by (simp add: unit_chosen(2) [OF assms] True flip: diff_divide_distrib)
next
  case False
  then show ?thesis
    using unit_chosen(5) [OF assms] by (simp add: unit_chosen(2) [OF assms])
qed

lemma one_decimal_length:
  assumes "0 \<le> v" "v < 16385"
  shows "length (one_decimal v) \<le> 7"
proof -
  have "a < 163851" if "\<bar>of_nat a - 10 * v\<bar> \<le> 1 / 2" for a :: nat
  proof -
    have "(of_nat a :: rat) < 163851"
      using that assms(2) by linarith
    then show ?thesis
      by (metis of_nat_less_iff of_nat_numeral)
  qed
  with tenths_near [OF assms(1)] have "tenths v < 163851"
    by blast
  then have "tenths v div 10 < 10 ^ Suc 4"
    by simp
  from decimal_length [OF this] show ?thesis
    by (simp add: one_decimal_def)
qed

lemma units_length: "u < 6 \<Longrightarrow> length (units ! u) \<le> 3"
proof -
  have "\<forall>w \<in> set units. length w \<le> 3" "length units = 6"
    by (simp_all add: units_def str_def)
  then show "u < 6 \<Longrightarrow> length (units ! u) \<le> 3"
    by simp
qed

text \<open>A size is shown in the largest unit it fills, within half a tenth of it and \<open>2 ^ -40\<close> for the rounding
  to a \<open>double\<close>; below a kilobyte it is shown exactly. The buffer always holds all of it.\<close>

theorem bytes_shown:
  "\<exists>u t. u < 6 \<and> (u = 0 \<or> 1024 ^ u \<le> unat n) \<and> (unat n < 1024 ^ Suc u \<or> u = 5)
    \<and> term_bytes n = (if u = 0 then decimal (unat n) else decimal (t div 10) @ [dot, 48 + of_nat (t mod 10)]) @ [32] @ units ! u
    \<and> \<bar>of_nat t / 10 - of_nat (unat n) / (1024 ^ u :: rat)\<bar> \<le> 1 / 20 + 1 / 2 ^ 40"
proof -
  define N where "N = unat n"
  obtain v u where loop: "unit_loop (of_nat (to_double N)) 0 = (v, u)"
    by force
  have n: "N < 2 ^ 64"
    using unsigned_less [of n] by (simp add: N_def)
  note chosen = unit_chosen [OF n loop]
  have v: "0 \<le> v"
    by (simp add: chosen(2))
  have "length (decimal N) \<le> 4" if "u = 0"
    using chosen(4) that by (intro decimal_length [of _ 3, simplified]) simp
  then have fits: "term_bytes n = (if u = 0 then decimal N else one_decimal v) @ [32] @ units ! u"
    using loop one_decimal_length [OF v chosen(6)] units_length [OF chosen(1)]
    by (cases "u = 0") (simp_all add: term_bytes_def N_def)
  have "\<bar>of_nat (tenths v) / 10 - v\<bar> \<le> 1 / 20"
    using tenths_near [OF v] by linarith
  with unit_error [OF n loop] have "\<bar>of_nat (tenths v) / 10 - of_nat N / (1024 ^ u :: rat)\<bar> \<le> 1 / 20 + 1 / 2 ^ 40"
    by linarith
  with chosen(1,3,4) fits show ?thesis
    unfolding one_decimal_def N_def by blast
qed

end
