(* ===== verification/Start_Up.thy ===== *)
theory Start_Up
  imports Daemon Terminal
begin

text \<open>
  \<open>app/daemon.cpp\<close>, \<open>run_daemon\<close> up to the watch loop: how the pieces of \<open>Daemon\<close> make a node with one
  service per folder, every refusal on the way, and all that is printed. What the machine and librats
  answer comes from the record \<open>world\<close>; a line is what \<open>line\<close> prints, without its newline.
\<close>

section \<open>The machine\<close>

text \<open>\<open>wo_move\<close> is what moving folder \<open>i\<close>'s old state meets, \<open>wo_os\<close> the file system its first scan sees,
  \<open>wo_scan_ms\<close> how long that takes; \<open>wo_version\<close> comes from the build.\<close>

record 'e world =
  wo_cwd :: "bytes option"
  wo_env :: "bytes \<Rightarrow> bytes"
  wo_no_color :: "bytes option"
  wo_tty :: bool
  wo_is_dir :: "bytes \<Rightarrow> dir_status"
  wo_read_file :: "bytes \<Rightarrow> bytes option"
  wo_sha :: "bytes \<Rightarrow> bytes"
  wo_from_hex :: "bytes \<Rightarrow> peer_id option"
  wo_move :: "nat \<Rightarrow> 'e move_outcomes \<times> 'e entries option \<times> 'e entries"
  wo_disk :: "nat \<Rightarrow> path \<Rightarrow> disk_file option"
  wo_baseline :: "nat \<Rightarrow> bytes option"
  wo_platform :: "nat \<Rightarrow> platform"
  wo_os :: "nat \<Rightarrow> os"
  wo_scan_ms :: "nat \<Rightarrow> nat"
  wo_node_starts :: bool
  wo_local_id :: bytes
  wo_listen_port :: u16
  wo_dht_port :: u16
  wo_version :: bytes

section \<open>State directories\<close>

text \<open>None: moving the old state ends in an exception that nothing catches.\<close>

definition give_state :: "'e world \<Rightarrow> bool \<Rightarrow> nat \<Rightarrow> bytes \<Rightarrow> watched \<Rightarrow> (bytes list \<times> watched) option" where
  "give_state w c i dir f =
     (let f = f\<lparr>wd_data_dir := dir\<rparr>;
          legacy = fs_join (wd_root f) (str ''.rasync'');
          (os, from_dir, to_dir) = wo_move w i
      in case fst (migrate_state_dir os legacy (wd_data_dir f) from_dir to_dir) of
           None \<Rightarrow> None
         | Some moved \<Rightarrow>
             Some (if moved > 0
                   then [dim c (str ''moved '') @ decimal moved @ dim c (str '' state file(s) out of '') @ wd_root f
                         @ dim c (str '' into '') @ wd_data_dir f]
                   else [], f))"

text \<open>The lines printed, and the folders unless an exception ended the program.\<close>

fun give_states :: "'e world \<Rightarrow> bool \<Rightarrow> nat \<Rightarrow> (bytes \<times> watched) list \<Rightarrow> bytes list \<times> watched list option" where
  "give_states w c i [] = ([], Some [])"
| "give_states w c i ((dir, f) # rest) =
     (case give_state w c i dir f of
        None \<Rightarrow> ([], None)
      | Some (lines, f) \<Rightarrow>
          (case give_states w c (i + 1) rest of
             (further, fs) \<Rightarrow> (lines @ further, map_option (\<lambda>fs. f # fs) fs)))"

section \<open>The node\<close>

record node_config =
  nc_listen_port :: u16
  nc_enable_listen :: bool
  nc_bind_address :: bytes
  nc_protocol :: bytes
  nc_data_dir :: bytes

record dht_config =
  dc_data_dir :: bytes
  dc_discovery_key :: bytes

definition node_config_of :: "(bytes \<Rightarrow> bytes) \<Rightarrow> options \<Rightarrow> bytes \<Rightarrow> node_config" where
  "node_config_of sha q node_dir =
     \<lparr>nc_listen_port = opt_port q, nc_enable_listen = True, nc_bind_address = str ''::'',
      nc_protocol = protocol_id sha (opt_key q), nc_data_dir = node_dir\<rparr>"

definition dht_of :: "(bytes \<Rightarrow> bytes) \<Rightarrow> options \<Rightarrow> bytes \<Rightarrow> dht_config option" where
  "dht_of sha q node_dir =
     (if opt_discover q \<and> \<not> opt_lan_only q
      then Some \<lparr>dc_data_dir = node_dir, dc_discovery_key = discovery_id sha (opt_key q)\<rparr> else None)"

section \<open>One service per folder\<close>

fun add_services ::
  "'e world \<Rightarrow> bytes list \<Rightarrow> nat \<Rightarrow> (folder_options \<times> watched) list \<Rightarrow> router \<Rightarrow> bytes + watched list \<times> router" where
  "add_services w allow i [] rt = Inr ([], rt)"
| "add_services w allow i ((fo, f) # rest) rt =
     (let f = f\<lparr>wd_scanner := folder_scanner (wo_read_file w) fo f\<rparr>
      in case folder_config (wo_from_hex w) allow fo f of
           Inl e \<Rightarrow> Inl e
         | Inr cfg \<Rightarrow>
             let (added, rt) = add_folder (new_service (wo_sha w) (state_dir_for (wo_sha w) (wo_env w) (wo_cwd w)) cfg
                   (wo_disk w i) (wo_baseline w i)) rt
             in if \<not> added
                then Inl (str ''folder '' @ [39] @ wd_name f @ [39] @ str '' collides with another on the wire '' @ em_dash
                       @ str '' give one a different --name'')
                else (case add_services w allow (i + 1) rest rt of
                        Inl e \<Rightarrow> Inl e
                      | Inr (fs, rt) \<Rightarrow> Inr (f # fs, rt)))"

section \<open>The first scan\<close>

definition link_report :: "scan_stats \<Rightarrow> bytes" where
  "link_report stats =
     (if symlinks_followed stats \<noteq> 0 then str '', '' @ decimal (unat (symlinks_followed stats)) @ str '' link(s) followed'' else [])
     @ (if symlinks_skipped stats \<noteq> 0 then str '', '' @ decimal (unat (symlinks_skipped stats)) @ str '' link(s) skipped'' else [])"

definition indexed_line :: "bool \<Rightarrow> bool \<Rightarrow> watched \<Rightarrow> manifest \<Rightarrow> scan_stats \<Rightarrow> nat \<Rightarrow> bytes" where
  "indexed_line c multi f m stats ms =
     green c (str ''indexed '') @ decimal (length m) @ str '' files ('' @ term_bytes (total_bytes m) @ str '') in ''
     @ decimal ms @ str ''ms'' @ gray c (link_report stats) @ (if multi then gray c (str ''  '' @ wd_name f) else [])"

text \<open>None: a scan does not return.\<close>

fun index_folders ::
  "'e world \<Rightarrow> bool \<Rightarrow> bool \<Rightarrow> nat \<Rightarrow> watched list \<Rightarrow> router \<Rightarrow> (bytes list \<times> router) option" where
  "index_folders w c multi i [] rt = Some ([], rt)"
| "index_folders w c multi i (f # fs) rt =
     (case scan_tree (wo_os w i) (wd_scanner f) (wd_root f) None of
        None \<Rightarrow> None
      | Some (m, stats) \<Rightarrow>
          (case index_folders w c multi (i + 1) fs (on_folder i (folder_scanned (wo_platform w i) [] m) rt) of
             None \<Rightarrow> None
           | Some (lines, rt) \<Rightarrow>
               Some ([dim c (str ''scanning '') @ wd_root f @ dim c (str '' ...''),
                      indexed_line c multi f m stats (wo_scan_ms w i)] @ lines, rt)))"

section \<open>The banner\<close>

definition folder_banner :: "bool \<Rightarrow> nat \<Rightarrow> folder_options \<Rightarrow> watched \<Rightarrow> bytes list" where
  "folder_banner c i fo f =
     [gray c (if i = 0 then str ''  folder   '' else str ''           '') @ bold c (wd_name f) @ gray c (str ''  '' @ wd_root f),
      str ''             ''
      @ (if fo_mode fo = Mirror then str ''mirror ('' @ (if fo_source fo then str ''source'' else str ''replica'') @ str '')''
         else str ''two-way'')
      @ (if fo_mode fo = Mirror then [] else dim c (str ''  conflict '') @ conflict_policy_name (fo_conflict fo))
      @ (if fo_no_delta fo then dim c (str ''  no-delta'') else [])
      @ (if fo_no_delete fo then dim c (str ''  no-delete'') else [])
      @ (if fo_follow_symlinks fo then dim c (str ''  follow-symlinks'') else [])]"

definition access_text :: "bool \<Rightarrow> options \<Rightarrow> bytes" where
  "access_text c q =
     (let listed = decimal (length (opt_allow q)) @ str '' allowed peer(s)''
      in if opt_key q \<noteq> []
         then green c (str ''shared key'')
           @ (if opt_allow q = [] then [] else gray c ([32] @ middle_dot @ [32] @ listed))
         else if opt_allow q \<noteq> []
         then green c (str ''allow-list'') @ gray c ([32] @ middle_dot @ [32] @ listed @ str '', no shared key'')
         else yellow c (str ''open '' @ em_dash @ str '' any rasync peer that reaches this port can sync''))"

definition banner :: "'e world \<Rightarrow> bool \<Rightarrow> options \<Rightarrow> watched list \<Rightarrow> bytes \<Rightarrow> bytes list \<Rightarrow> bool \<Rightarrow> bytes list" where
  "banner w c q fs node_dir dirs dht =
     (let folder_state = (if length fs = 1 then wd_data_dir (hd fs) else fs_parent_path (hd dirs))
      in [[], bold c (cyan c (str ''rasync'')) @ [32] @ wo_version w,
          gray c (str ''  id       '') @ wo_local_id w]
         @ concat (map (\<lambda>(i, fo, f). folder_banner c i fo f) (enumerate 0 (zip (opt_folders q) fs)))
         @ [gray c (str ''  state    '') @ node_dir @ gray c (str ''  (node)'')]
         @ (if folder_state \<noteq> node_dir
            then [gray c (str ''           '') @ folder_state
                  @ gray c (if length fs = 1 then str ''  (this folder)'' else str ''  (one per folder)'')]
            else [])
         @ [gray c (str ''  access   '') @ access_text c q,
            gray c (str ''  listen   '') @ str ''port '' @ decimal (unat (wo_listen_port w))]
         @ (if opt_discover q
            then [gray c (str ''  discover '') @ (if opt_lan_only q then str ''mDNS (LAN)'' else str ''DHT + mDNS'')] else [])
         @ (if dht then [gray c (str ''  dht      '') @ str ''port '' @ decimal (unat (wo_dht_port w))] else [])
         @ [[]])"

section \<open>Explicit peers\<close>

record dial_target =
  dt_spec :: bytes
  dt_host :: bytes
  dt_port :: u16

fun dial_targets :: "bool \<Rightarrow> bytes list \<Rightarrow> bytes list \<times> dial_target list" where
  "dial_targets c [] = ([], [])"
| "dial_targets c (spec # specs) =
     (let (lines, targets) = dial_targets c specs
      in case parse_hostport spec of
           None \<Rightarrow> ((yellow c (str ''! '') @ str ''ignoring bad --peer '' @ spec) # lines, targets)
         | Some (host, port) \<Rightarrow> (lines, \<lparr>dt_spec = spec, dt_host = host, dt_port = port\<rparr> # targets))"

definition dialing :: "bool \<Rightarrow> string \<Rightarrow> dial_target \<Rightarrow> bytes" where
  "dialing c verb t = dim c (str verb) @ dt_spec t @ dim c (str '' ...'')"

definition closing_notes :: "'e world \<Rightarrow> bool \<Rightarrow> options \<Rightarrow> bytes list" where
  "closing_notes w c q =
     (if \<not> opt_discover q \<and> opt_peers q = []
      then [yellow c (str ''note: '') @ str ''no --peer and no --discover '' @ em_dash
            @ str '' waiting for inbound peers on port '' @ decimal (unat (wo_listen_port w))] else [])
     @ [dim c (if opt_once q then str ''running once; will exit when idle after syncing...''
               else str ''watching for changes (Ctrl-C to stop)'')]"

section \<open>All of it\<close>

record running =
  rn_folders :: "watched list"
  rn_node :: node_config
  rn_dht :: "dht_config option"
  rn_mdns :: bool
  rn_router :: router
  rn_targets :: "dial_target list"

text \<open>How starting up ends: with an exit code, by an exception that nothing catches, or with a node that runs.\<close>

datatype ending = Exits nat | Aborts | Started running

fun give_up :: "bool \<Rightarrow> bytes list \<Rightarrow> failure \<Rightarrow> bytes list \<times> ending" where
  "give_up c lines (Fails why) = (lines @ [red c (str ''error: '') @ why], Exits 2)"
| "give_up c lines Throws = (lines, Aborts)"

definition start_up :: "'e world \<Rightarrow> options \<Rightarrow> (bytes list \<times> ending) option" where
  "start_up w q =
     (let c = term_init (opt_no_color q) (wo_no_color w) (wo_tty w); multi = length (opt_folders q) > 1
      in case resolve_all (wo_cwd w) (wo_is_dir w) (opt_folders q) of
           Inl e \<Rightarrow> Some (give_up c [] e)
         | Inr fs \<Rightarrow>
             let (node_dir, dirs) = resolve_state (wo_sha w) (wo_env w) (wo_cwd w) (opt_data_dir q) fs
             in case give_states w c 0 (zip dirs fs) of
                  (moved, None) \<Rightarrow> Some (give_up c moved Throws)
                | (moved, Some fs) \<Rightarrow>
                    (case add_services w (opt_allow q) 0 (zip (opt_folders q) fs) new_router of
                       Inl e \<Rightarrow> Some (give_up c moved (Fails e))
                     | Inr (fs, rt) \<Rightarrow>
                         let rt = start_folders (attach rt); dht = dht_of (wo_sha w) q node_dir
                         in case index_folders w c multi 0 fs rt of
                              None \<Rightarrow> None
                            | Some (indexed, rt) \<Rightarrow>
                                if \<not> wo_node_starts w
                                then Some (give_up c (moved @ indexed) (Fails (str ''failed to start network (port in use?)'')))
                                else
                                  let (ignored, targets) = dial_targets c (opt_peers q)
                                  in Some (moved @ indexed @ banner w c q fs node_dir dirs (dht \<noteq> None) @ ignored
                                           @ map (dialing c ''dialing '') targets @ closing_notes w c q,
                                       Started \<lparr>rn_folders = fs, rn_node = node_config_of (wo_sha w) q node_dir, rn_dht = dht,
                                         rn_mdns = opt_discover q, rn_router = rt, rn_targets = targets\<rparr>)))"

section \<open>What the services are\<close>

definition service_for :: "'e world \<Rightarrow> nat \<Rightarrow> sync_config \<Rightarrow> service" where
  "service_for w i cfg =
     new_service (wo_sha w) (state_dir_for (wo_sha w) (wo_env w) (wo_cwd w)) cfg (wo_disk w i) (wo_baseline w i)"

text \<open>The folder and the service made of one directory of the command line.\<close>

definition served :: "'e world \<Rightarrow> bytes list \<Rightarrow> nat \<Rightarrow> folder_options \<times> watched \<Rightarrow> watched \<Rightarrow> service \<Rightarrow> bool" where
  "served w allow i fof f sv \<longleftrightarrow>
     f = (snd fof)\<lparr>wd_scanner := folder_scanner (wo_read_file w) (fst fof) (snd fof)\<rparr>
     \<and> (\<exists>cfg. folder_config (wo_from_hex w) allow (fst fof) f = Inr cfg \<and> sv = service_for w i cfg)"

lemma add_folder_added:
  assumes "add_folder sv rt = (added, rt')"
  shows "rt_attached rt' = rt_attached rt" "rt_stopped rt' = rt_stopped rt"
    "rt_folders rt' = rt_folders rt @ (if added then [new_folder sv] else [])"
    "\<not> rt_stopped rt \<Longrightarrow> reached {pfs} rt \<Longrightarrow> reached {pfs} rt'"
proof -
  show "rt_attached rt' = rt_attached rt" "rt_stopped rt' = rt_stopped rt"
    "rt_folders rt' = rt_folders rt @ (if added then [new_folder sv] else [])"
    using assms by (auto simp: add_folder_def split: if_splits)
  show "\<not> rt_stopped rt \<Longrightarrow> reached {pfs} rt \<Longrightarrow> reached {pfs} rt'"
    using reached.Steps [OF _ singletonI Adds [of rt pfs sv]] assms by simp
qed

lemma add_services_result:
  assumes "add_services w allow i fofs rt = Inr (fs, rt')" "\<not> rt_stopped rt" "reached {pfs} rt"
  shows "rt_attached rt' = rt_attached rt \<and> \<not> rt_stopped rt' \<and> reached {pfs} rt' \<and> length fs = length fofs
    \<and> (\<exists>svs. rt_folders rt' = rt_folders rt @ map new_folder svs \<and> length svs = length fofs
        \<and> (\<forall>j < length fofs. served w allow (i + j) (fofs ! j) (fs ! j) (svs ! j)))"
  using assms
proof (induction fofs arbitrary: i fs rt)
  case (Cons fof fofs)
  obtain fo f where fof: "fof = (fo, f)"
    by force
  define g where "g = f\<lparr>wd_scanner := folder_scanner (wo_read_file w) fo f\<rparr>"
  obtain cfg where cfg: "folder_config (wo_from_hex w) allow fo g = Inr cfg"
    using Cons.prems(1) by (auto simp: fof g_def Let_def split: sum.splits)
  obtain added rt1 where add: "add_folder (service_for w i cfg) rt = (added, rt1)"
    by force
  obtain fs1 where rest: "added" "add_services w allow (i + 1) fofs rt1 = Inr (fs1, rt')" "fs = g # fs1"
    using Cons.prems(1) add cfg by (auto simp: fof g_def Let_def service_for_def split: if_splits sum.splits)
  note a = add_folder_added [OF add]
  have "\<not> rt_stopped rt1" "reached {pfs} rt1"
    using a(2) a(4) Cons.prems(2,3) by simp_all
  from Cons.IH [OF rest(2) this] obtain svs where svs: "rt_attached rt' = rt_attached rt1" "\<not> rt_stopped rt'" "reached {pfs} rt'"
    "length fs1 = length fofs" "rt_folders rt' = rt_folders rt1 @ map new_folder svs" "length svs = length fofs"
    "\<forall>j < length fofs. served w allow (i + 1 + j) (fofs ! j) (fs1 ! j) (svs ! j)"
    by blast
  have "served w allow i fof g (service_for w i cfg)"
    using cfg by (simp add: served_def fof g_def)
  with svs(7) have "\<forall>j < length (fof # fofs). served w allow (i + j) ((fof # fofs) ! j) (fs ! j) ((service_for w i cfg # svs) ! j)"
    by (simp add: All_less_Suc2 rest(3))
  then show ?case
    using svs a rest(1,3) by (intro conjI exI [of _ "service_for w i cfg # svs"]) simp_all
qed simp

section \<open>What the first scan leaves\<close>

lemma folder_scanned_idle: "folder_scanned pf [] m fd = fd\<lparr>fd_service := set_local_manifest m (fd_service fd)\<rparr>"
  by (simp add: folder_scanned_def notify_sessions_def)

lemma index_folders_result:
  assumes "index_folders w c multi i fs rt = Some (lines, rt')" "i + length fs \<le> length (rt_folders rt)" "reached {pfs} rt"
  shows "rt_attached rt' = rt_attached rt \<and> rt_stopped rt' = rt_stopped rt \<and> reached {pfs} rt'
    \<and> length (rt_folders rt') = length (rt_folders rt)
    \<and> (\<forall>k < i. rt_folders rt' ! k = rt_folders rt ! k)
    \<and> (\<forall>j < length fs. \<exists>m stats. scan_tree (wo_os w (i + j)) (wd_scanner (fs ! j)) (wd_root (fs ! j)) None = Some (m, stats)
        \<and> rt_folders rt' ! (i + j) = (rt_folders rt ! (i + j))\<lparr>fd_service := set_local_manifest m (fd_service (rt_folders rt ! (i + j)))\<rparr>)"
  using assms
proof (induction fs arbitrary: i rt lines)
  case (Cons f fs)
  obtain m stats where scan: "scan_tree (wo_os w i) (wd_scanner f) (wd_root f) None = Some (m, stats)"
    using Cons.prems(1) by (auto split: option.splits)
  define rt1 where "rt1 = on_folder i (folder_scanned (wo_platform w i) [] m) rt"
  obtain lines1 where rest: "index_folders w c multi (i + 1) fs rt1 = Some (lines1, rt')"
    using Cons.prems(1) scan by (auto simp: rt1_def split: option.splits)
  have rt1: "rt_attached rt1 = rt_attached rt" "rt_stopped rt1 = rt_stopped rt"
    "length (rt_folders rt1) = length (rt_folders rt)" "i < length (rt_folders rt)"
    "\<And>k. k \<noteq> i \<Longrightarrow> rt_folders rt1 ! k = rt_folders rt ! k"
    "rt_folders rt1 ! i = (rt_folders rt ! i)\<lparr>fd_service := set_local_manifest m (fd_service (rt_folders rt ! i))\<rparr>"
    using Cons.prems(2) by (simp_all add: rt1_def on_folder_def folder_scanned_idle)
  have "folder_scanned (wo_platform w i) [] m = folder_scanned (pfs i) [] m"
    by (simp add: fun_eq_iff folder_scanned_idle)
  then have "reached {pfs} rt1"
    using reached.Steps [OF Cons.prems(3) singletonI router_step.Scans [OF rt1(4), of pfs "[]" m]] by (simp add: rt1_def)
  moreover have "i + 1 + length fs \<le> length (rt_folders rt1)"
    using Cons.prems(2) rt1(3) by simp
  ultimately have IH: "rt_attached rt' = rt_attached rt1 \<and> rt_stopped rt' = rt_stopped rt1 \<and> reached {pfs} rt'
      \<and> length (rt_folders rt') = length (rt_folders rt1)"
    "\<And>k. k < i + 1 \<Longrightarrow> rt_folders rt' ! k = rt_folders rt1 ! k"
    "\<And>j. j < length fs \<Longrightarrow> \<exists>m stats. scan_tree (wo_os w (i + 1 + j)) (wd_scanner (fs ! j)) (wd_root (fs ! j)) None = Some (m, stats)
        \<and> rt_folders rt' ! (i + 1 + j) = (rt_folders rt1 ! (i + 1 + j))\<lparr>fd_service := set_local_manifest m (fd_service (rt_folders rt1 ! (i + 1 + j)))\<rparr>"
    using Cons.IH [OF rest] by blast+
  show ?case
  proof (intro conjI allI impI)
    fix j
    assume j: "j < length (f # fs)"
    show "\<exists>m stats. scan_tree (wo_os w (i + j)) (wd_scanner ((f # fs) ! j)) (wd_root ((f # fs) ! j)) None = Some (m, stats)
        \<and> rt_folders rt' ! (i + j) = (rt_folders rt ! (i + j))\<lparr>fd_service := set_local_manifest m (fd_service (rt_folders rt ! (i + j)))\<rparr>"
    proof (cases j)
      case 0
      then show ?thesis
        using scan IH(2) [of i] rt1(6) by simp
    next
      case (Suc k)
      then show ?thesis
        using IH(3) [of k] j rt1(5) [of "i + 1 + k"] by simp
    qed
  qed (use IH(1,2) rt1 in simp_all)
qed simp

section \<open>The folders behind the services\<close>

lemma resolve_folders_nth:
  "resolve_folders cwd is_dir fos = Inr fs \<Longrightarrow>
   length fs = length fos \<and> (\<forall>j < length fos. resolve_folder cwd is_dir (fos ! j) = Inr (fs ! j))"
  by (induction fos arbitrary: fs) (auto simp: All_less_Suc2 split: sum.splits)

lemma resolve_all_result:
  assumes "resolve_all cwd is_dir fos = Inr fs"
  shows "resolve_folders cwd is_dir fos = Inr fs" "distinct (map wd_name fs)"
    "\<And>i j. i < length fs \<Longrightarrow> j < length fs \<Longrightarrow> i \<noteq> j \<Longrightarrow> \<not> path_within (wd_root_key (fs ! i)) (wd_root_key (fs ! j))"
  using assms check_overlap_None [of fs] overlap_free [of "length fs" fs] check_leaf_names_None [of "[]" fs]
  by (auto simp: resolve_all_def split: sum.splits option.splits)

lemma resolve_state_length: "length (snd (resolve_state sha env cwd d fs)) = length fs"
  by (simp add: resolve_state_def Let_def)

lemma give_states_nth:
  "give_states w c i dfs = (lines, Some fs) \<Longrightarrow>
   length fs = length dfs \<and> (\<forall>j < length dfs. fs ! j = (snd (dfs ! j))\<lparr>wd_data_dir := fst (dfs ! j)\<rparr>)"
proof (induction dfs arbitrary: i lines fs)
  case (Cons df dfs)
  obtain dir f where df: "df = (dir, f)"
    by force
  obtain l1 f1 l2 fs2 where steps: "give_state w c i dir f = Some (l1, f1)" "give_states w c (i + 1) dfs = (l2, Some fs2)" "fs = f1 # fs2"
    using Cons.prems by (auto simp: df split: option.splits prod.splits)
  then have "f1 = f\<lparr>wd_data_dir := dir\<rparr>"
    by (auto simp: give_state_def Let_def split: prod.splits option.splits)
  with Cons.IH [OF steps(2)] show ?case
    by (simp add: All_less_Suc2 df steps(3))
qed simp

text \<open>The parts of a run that does start.\<close>

lemma give_up_ends: "give_up c lines e \<noteq> (lines', Started r)" "(lines', Started r) \<noteq> give_up c lines e"
  by (cases e; simp)+

lemma start_up_parts:
  assumes "start_up w q = Some (lines, Started r)"
  obtains fs0 node_dir dirs moved fs1 fs rt0 rt c multi indexed where
    "resolve_all (wo_cwd w) (wo_is_dir w) (opt_folders q) = Inr fs0"
    "resolve_state (wo_sha w) (wo_env w) (wo_cwd w) (opt_data_dir q) fs0 = (node_dir, dirs)"
    "give_states w c 0 (zip dirs fs0) = (moved, Some fs1)"
    "add_services w (opt_allow q) 0 (zip (opt_folders q) fs1) new_router = Inr (fs, rt0)"
    "index_folders w c multi 0 fs (start_folders (attach rt0)) = Some (indexed, rt)"
    "rn_folders r = fs" "rn_router r = rt"
  using assms give_up_ends
  by (auto simp: start_up_def Let_def split: sum.splits option.splits prod.splits if_splits)

text \<open>A folder that is up: its directory is one of the command line's, its rules and configuration are the ones
  given for it, its manifest is a scan of its directory and its baseline what the last run left.\<close>

definition folder_up :: "'e world \<Rightarrow> options \<Rightarrow> nat \<Rightarrow> watched \<Rightarrow> folder \<Rightarrow> bool" where
  "folder_up w q i f fd \<longleftrightarrow>
     (\<exists>f0. resolve_folder (wo_cwd w) (wo_is_dir w) (opt_folders q ! i) = Inr f0
        \<and> wd_name f = wd_name f0 \<and> wd_root f = wd_root f0 \<and> wd_root_key f = wd_root_key f0)
     \<and> wd_scanner f = folder_scanner (wo_read_file w) (opt_folders q ! i) f
     \<and> (\<exists>cfg. folder_config (wo_from_hex w) (opt_allow q) (opt_folders q ! i) f = Inr cfg
          \<and> sv_config (fd_service fd) = with_defaults (state_dir_for (wo_sha w) (wo_env w) (wo_cwd w)) cfg)
     \<and> (\<exists>stats. scan_tree (wo_os w i) (wd_scanner f) (wd_root f) None = Some (sv_local (fd_service fd), stats))
     \<and> sv_base (fd_service fd) = (case man_load (wo_baseline w i) of None \<Rightarrow> [] | Some m \<Rightarrow> m)
     \<and> sv_disk (fd_service fd) = wo_disk w i \<and> fd_sessions fd = [] \<and> \<not> fd_stopped fd"

lemma fresh_folder_up:
  assumes "resolve_folder (wo_cwd w) (wo_is_dir w) (opt_folders q ! i) = Inr f0"
    and "served w (opt_allow q) i (opt_folders q ! i, f0\<lparr>wd_data_dir := dir\<rparr>) f sv"
    and "scan_tree (wo_os w i) (wd_scanner f) (wd_root f) None = Some (m, stats)"
  shows "folder_up w q i f \<lparr>fd_service = set_local_manifest m (clean_temp_dir (load_baseline sv)),
    fd_sessions = [], fd_stopped = False\<rparr>"
proof -
  have "folder_scanner rf fo (f\<lparr>wd_scanner := sc\<rparr>) = folder_scanner rf fo f" for rf fo sc f
    by (simp add: folder_scanner_def)
  then show ?thesis
    using assms
    by (auto simp: folder_up_def served_def service_for_def new_service_def Let_def set_local_manifest_def
        load_baseline_def bump_def clean_temp_dir_def split: option.splits)
qed

lemma start_up_folders:
  assumes "start_up w q = Some (lines, Started r)"
  shows "reached {pfs} (rn_router r) \<and> rt_attached (rn_router r) \<and> \<not> rt_stopped (rn_router r)
    \<and> length (rn_folders r) = length (opt_folders q) \<and> length (rt_folders (rn_router r)) = length (opt_folders q)
    \<and> (\<forall>i < length (opt_folders q). folder_up w q i (rn_folders r ! i) (rt_folders (rn_router r) ! i))"
proof (rule start_up_parts [OF assms])
  fix fs0 node_dir dirs moved fs1 fs rt0 rt c multi indexed
  assume resolved: "resolve_all (wo_cwd w) (wo_is_dir w) (opt_folders q) = Inr fs0"
    and state: "resolve_state (wo_sha w) (wo_env w) (wo_cwd w) (opt_data_dir q) fs0 = (node_dir, dirs)"
    and given: "give_states w c 0 (zip dirs fs0) = (moved, Some fs1)"
    and added: "add_services w (opt_allow q) 0 (zip (opt_folders q) fs1) new_router = Inr (fs, rt0)"
    and scanned: "index_folders w c multi 0 fs (start_folders (attach rt0)) = Some (indexed, rt)"
    and r: "rn_folders r = fs" "rn_router r = rt"
  let ?n = "length (opt_folders q)"
  note res = resolve_folders_nth [OF resolve_all_result(1) [OF resolved]]
  have len: "length fs0 = ?n" "length dirs = ?n" "length fs1 = ?n"
    using res resolve_state_length [of "wo_sha w" "wo_env w" "wo_cwd w" "opt_data_dir q" fs0] state give_states_nth [OF given] by auto
  have new: "\<not> rt_stopped new_router" "reached {pfs} new_router" "rt_folders new_router = []"
    by (simp_all add: reached.Starts) (simp_all add: new_router_def)
  obtain svs where svs: "\<not> rt_stopped rt0" "reached {pfs} rt0" "length fs = ?n" "rt_folders rt0 = map new_folder svs" "length svs = ?n"
    "\<And>j. j < ?n \<Longrightarrow> served w (opt_allow q) j (zip (opt_folders q) fs1 ! j) (fs ! j) (svs ! j)"
    using add_services_result [OF added new(1,2)] new(3) len by auto
  let ?rt = "start_folders (attach rt0)"
  have rt: "reached {pfs} ?rt" "rt_attached ?rt" "\<not> rt_stopped ?rt" "length (rt_folders ?rt) = ?n"
    "\<And>j. j < ?n \<Longrightarrow> rt_folders ?rt ! j = \<lparr>fd_service = clean_temp_dir (load_baseline (svs ! j)), fd_sessions = [], fd_stopped = False\<rparr>"
    using svs(1,4,5) reached.Steps [OF reached.Steps [OF svs(2) singletonI router_step.Attaches] singletonI router_step.Starts]
    by (simp_all add: start_folders_def on_folders_def attach_def new_folder_def)
  have "0 + length fs \<le> length (rt_folders ?rt)"
    using svs(3) rt(4) by simp
  note idx = index_folders_result [OF scanned this rt(1)]
  have "folder_up w q i (fs ! i) (rt_folders rt ! i)" if i: "i < ?n" for i
  proof -
    have "resolve_folder (wo_cwd w) (wo_is_dir w) (opt_folders q ! i) = Inr (fs0 ! i)"
      using res i by blast
    moreover have "served w (opt_allow q) i (opt_folders q ! i, (fs0 ! i)\<lparr>wd_data_dir := dirs ! i\<rparr>) (fs ! i) (svs ! i)"
      using svs(6) [OF i] give_states_nth [OF given] len i by simp
    moreover obtain m stats where "scan_tree (wo_os w i) (wd_scanner (fs ! i)) (wd_root (fs ! i)) None = Some (m, stats)"
      "rt_folders rt ! i = (rt_folders ?rt ! i)\<lparr>fd_service := set_local_manifest m (fd_service (rt_folders ?rt ! i))\<rparr>"
      using idx i svs(3) by auto
    ultimately show ?thesis
      using fresh_folder_up [of w q i "fs0 ! i" "dirs ! i" "fs ! i" "svs ! i" m stats] rt(5) [OF i] by simp
  qed
  then show ?thesis
    using idx rt svs(3) by (simp add: r)
qed

section \<open>What depends on the key\<close>

text \<open>A started run but for the node's protocol id and the discovery key.\<close>

definition without_key :: "running \<Rightarrow> running" where
  "without_key r = r\<lparr>rn_node := (rn_node r)\<lparr>nc_protocol := []\<rparr>, rn_dht := map_option (\<lambda>d. d\<lparr>dc_discovery_key := []\<rparr>) (rn_dht r)\<rparr>"

fun ending_without_key :: "ending \<Rightarrow> ending" where
  "ending_without_key (Started r) = Started (without_key r)"
| "ending_without_key e = e"

lemma give_up_without_key: "map_prod id ending_without_key (give_up c lines e) = give_up c lines e"
  by (cases e) simp_all

lemma start_up_without_key:
  assumes "k \<noteq> []" "opt_key q \<noteq> []"
  shows "map_option (map_prod id ending_without_key) (start_up w (q\<lparr>opt_key := k\<rparr>)) =
    map_option (map_prod id ending_without_key) (start_up w q)"
proof -
  have "banner w c (q\<lparr>opt_key := k\<rparr>) fs node_dir dirs dht = banner w c q fs node_dir dirs dht"
    "closing_notes w c (q\<lparr>opt_key := k\<rparr>) = closing_notes w c q"
    "(dht_of sha (q\<lparr>opt_key := k\<rparr>) d = None) = (dht_of sha q d = None)"
    "map_option (\<lambda>d. d\<lparr>dc_discovery_key := []\<rparr>) (dht_of sha (q\<lparr>opt_key := k\<rparr>) d) =
      map_option (\<lambda>d. d\<lparr>dc_discovery_key := []\<rparr>) (dht_of sha q d)"
    "(node_config_of sha (q\<lparr>opt_key := k\<rparr>) d)\<lparr>nc_protocol := []\<rparr> = (node_config_of sha q d)\<lparr>nc_protocol := []\<rparr>"
    for c fs node_dir dirs dht sha d
    using assms by (simp_all add: banner_def access_text_def closing_notes_def dht_of_def node_config_of_def Let_def)
  then show ?thesis
    by (simp add: start_up_def Let_def give_up_without_key without_key_def split: sum.split option.split prod.split)
qed

section \<open>That it ends\<close>

definition scannable :: "'e world \<Rightarrow> nat \<Rightarrow> watched \<Rightarrow> bool" where
  "scannable w i f \<longleftrightarrow> sane_names (wo_os w i) \<and> finitely_many_dirs (wo_os w i) (wd_scanner f) (wd_root f)"

lemma index_folders_ends:
  assumes "\<forall>j < length fs. scannable w (i + j) (fs ! j)"
  shows "\<exists>lines rt'. index_folders w c multi i fs rt = Some (lines, rt')"
  using assms
proof (induction fs arbitrary: i rt)
  case (Cons f fs)
  have "scannable w i f"
    using Cons.prems by force
  then obtain m stats where "scan_tree (wo_os w i) (wd_scanner f) (wd_root f) None = Some (m, stats)"
    using scan_tree_result [of "wo_os w i" "wd_scanner f" "wd_root f" None] unfolding scannable_def by blast
  moreover have "\<forall>j < length fs. scannable w (i + 1 + j) (fs ! j)"
    using Cons.prems by (auto simp: All_less_Suc2)
  ultimately show ?case
    using Cons.IH [of "i + 1" "on_folder i (folder_scanned (wo_platform w i) [] m) rt"] by auto
qed simp

text \<open>What a run prints last when it gives up, and how it ends.\<close>

definition refused :: "'e world \<Rightarrow> options \<Rightarrow> bytes list \<Rightarrow> nat \<Rightarrow> bool" where
  "refused w q lines code \<longleftrightarrow> code = 2 \<and> lines \<noteq> [] \<and>
     (\<exists>why. last lines = red (term_init (opt_no_color q) (wo_no_color w) (wo_tty w)) (str ''error: '') @ why)"

text \<open>When starting up throws: the status of a directory of the command line cannot be had, and all before it are
  directories; or all directories are accepted and the move of some folder's old state throws.\<close>

definition status_of :: "'e world \<Rightarrow> folder_options \<Rightarrow> dir_status option" where
  "status_of w fo = map_option (wo_is_dir w) (fs_absolute (wo_cwd w) (fo_directory fo))"

definition move_throws :: "'e world \<Rightarrow> nat \<Rightarrow> bytes \<Rightarrow> bytes \<Rightarrow> bool" where
  "move_throws w i tree dir \<longleftrightarrow>
     (case wo_move w i of (os, from_dir, to_dir) \<Rightarrow>
        fst (migrate_state_dir os (fs_join tree (str ''.rasync'')) dir from_dir to_dir) = None)"

definition uncaught :: "'e world \<Rightarrow> options \<Rightarrow> bool" where
  "uncaught w q \<longleftrightarrow>
     (\<exists>j < length (opt_folders q). status_of w (opt_folders q ! j) = Some Status_error
        \<and> (\<forall>i < j. status_of w (opt_folders q ! i) = Some Is_directory))
     \<or> (\<exists>fs. resolve_all (wo_cwd w) (wo_is_dir w) (opt_folders q) = Inr fs
        \<and> (\<exists>i < length fs. move_throws w i (wd_root (fs ! i))
              (snd (resolve_state (wo_sha w) (wo_env w) (wo_cwd w) (opt_data_dir q) fs) ! i)))"

lemma resolve_folder_status:
  "resolve_folder (wo_cwd w) (wo_is_dir w) fo = Inl Throws \<longleftrightarrow> status_of w fo = Some Status_error"
  "(\<exists>f. resolve_folder (wo_cwd w) (wo_is_dir w) fo = Inr f) \<longleftrightarrow> status_of w fo = Some Is_directory"
  by (auto simp: resolve_folder_def status_of_def split: option.split dir_status.split)

lemma resolve_folders_throws:
  "resolve_folders (wo_cwd w) (wo_is_dir w) fos = Inl Throws \<longleftrightarrow>
     (\<exists>j < length fos. status_of w (fos ! j) = Some Status_error \<and> (\<forall>i < j. status_of w (fos ! i) = Some Is_directory))"
proof (induction fos)
  case (Cons fo fos)
  show ?case
    using Cons.IH resolve_folder_status [of w fo]
    by (auto simp: Ex_less_Suc2 All_less_Suc2 split: sum.split)
qed simp

lemma resolve_all_throws:
  "resolve_all (wo_cwd w) (wo_is_dir w) fos = Inl Throws \<longleftrightarrow>
     (\<exists>j < length fos. status_of w (fos ! j) = Some Status_error \<and> (\<forall>i < j. status_of w (fos ! i) = Some Is_directory))"
  unfolding resolve_folders_throws [symmetric] by (auto simp: resolve_all_def split: sum.split option.split)

lemma give_states_throws:
  "snd (give_states w c k dfs) = None \<longleftrightarrow>
     (\<exists>i < length dfs. move_throws w (k + i) (wd_root (snd (dfs ! i))) (fst (dfs ! i)))"
proof (induction dfs arbitrary: k)
  case (Cons df dfs)
  obtain dir f where df: "df = (dir, f)" by force
  have "give_state w c k dir f = None \<longleftrightarrow> move_throws w k (wd_root f) dir"
    by (simp add: give_state_def move_throws_def Let_def split: prod.split option.split)
  then show ?case
    using Cons.IH [of "k + 1"]
    by (auto simp: df Ex_less_Suc2 split: option.split prod.split)
qed simp

text \<open>Every service that was added can be scanned, when every folder of the command line can.\<close>

lemma services_scannable:
  assumes "\<forall>i < length (opt_folders q). \<forall>f. wd_scanner f = folder_scanner (wo_read_file w) (opt_folders q ! i) f
      \<and> (\<exists>f0. resolve_folder (wo_cwd w) (wo_is_dir w) (opt_folders q ! i) = Inr f0 \<and> wd_root f = wd_root f0)
      \<longrightarrow> scannable w i f"
    and resolved: "resolve_all (wo_cwd w) (wo_is_dir w) (opt_folders q) = Inr fs0"
    and given: "give_states w c 0 (zip dirs fs0) = (moved, Some fs1)"
    and added: "add_services w (opt_allow q) 0 (zip (opt_folders q) fs1) new_router = Inr (fs, rt0)"
    and "length dirs = length fs0" "j < length fs"
  shows "scannable w j (fs ! j)"
proof -
  note res = resolve_folders_nth [OF resolve_all_result(1) [OF resolved]]
  have len: "length fs0 = length (opt_folders q)" "length fs1 = length fs0"
    using res give_states_nth [OF given] assms(5) by auto
  have "\<not> rt_stopped new_router"
    by (simp add: new_router_def)
  from add_services_result [OF added this reached.Starts]
  obtain svs where svs: "length fs = length fs0"
    "\<And>j. j < length fs0 \<Longrightarrow> served w (opt_allow q) j (zip (opt_folders q) fs1 ! j) (fs ! j) (svs ! j)"
    using len by auto
  have "fs ! j = (fs1 ! j)\<lparr>wd_scanner := folder_scanner (wo_read_file w) (opt_folders q ! j) (fs1 ! j)\<rparr>"
    using svs(2) [of j] assms(6) svs(1) len by (simp add: served_def)
  moreover have "fs1 ! j = (fs0 ! j)\<lparr>wd_data_dir := dirs ! j\<rparr>"
    using give_states_nth [OF given] assms(5,6) svs(1) len by simp
  ultimately have "wd_root (fs ! j) = wd_root (fs0 ! j)"
    "wd_scanner (fs ! j) = folder_scanner (wo_read_file w) (opt_folders q ! j) (fs ! j)"
    by (simp_all add: folder_scanner_def)
  with assms(1,6) res svs(1) len show ?thesis by metis
qed

lemma start_up_cases:
  assumes "\<forall>i < length (opt_folders q). \<forall>f. wd_scanner f = folder_scanner (wo_read_file w) (opt_folders q ! i) f
      \<and> (\<exists>f0. resolve_folder (wo_cwd w) (wo_is_dir w) (opt_folders q ! i) = Inr f0 \<and> wd_root f = wd_root f0)
      \<longrightarrow> scannable w i f"
  shows "\<exists>lines out. start_up w q = Some (lines, out) \<and> (\<forall>code. out = Exits code \<longrightarrow> refused w q lines code)
    \<and> (out = Aborts \<longleftrightarrow> uncaught w q)"
proof -
  define c where "c = term_init (opt_no_color q) (wo_no_color w) (wo_tty w)"
  note up = start_up_def [of w q, folded c_def]
  have refuse: "refused w q (lines @ [red c (str ''error: '') @ why]) 2" for lines why
    by (simp add: refused_def c_def)
  show ?thesis
  proof (cases "resolve_all (wo_cwd w) (wo_is_dir w) (opt_folders q)")
    case (Inl e)
    then have "uncaught w q \<longleftrightarrow> e = Throws"
      using resolve_all_throws [of w "opt_folders q"] by (auto simp: uncaught_def)
    then show ?thesis
      using refuse [of "[]"] Inl by (cases e) (simp_all add: up)
  next
    case (Inr fs0)
    obtain node_dir dirs where state: "resolve_state (wo_sha w) (wo_env w) (wo_cwd w) (opt_data_dir q) fs0 = (node_dir, dirs)"
      by force
    obtain moved gs where given: "give_states w c 0 (zip dirs fs0) = (moved, gs)"
      by force
    note res = resolve_folders_nth [OF resolve_all_result(1) [OF Inr]]
    have dirs: "length dirs = length fs0"
      using resolve_state_length [of "wo_sha w" "wo_env w" "wo_cwd w" "opt_data_dir q" fs0] state by simp
    have "(\<exists>j < length (opt_folders q). status_of w (opt_folders q ! j) = Some Status_error
        \<and> (\<forall>i < j. status_of w (opt_folders q ! i) = Some Is_directory)) \<longleftrightarrow> False"
      using resolve_all_throws [of w "opt_folders q"] Inr by simp
    then have throws: "uncaught w q \<longleftrightarrow> gs = None"
      using give_states_throws [of w c 0 "zip dirs fs0"] Inr state given dirs by (simp add: uncaught_def) auto
    show ?thesis
    proof (cases gs)
      case None
      with throws given Inr state show ?thesis
        by (simp add: up)
    next
      case (Some fs1)
      note given = given [unfolded Some]
      show ?thesis
      proof (cases "add_services w (opt_allow q) 0 (zip (opt_folders q) fs1) new_router")
        case (Inl e)
        then show ?thesis
          using refuse [of moved e] Inr state given throws Some by (simp add: up)
      next
        case added: (Inr fsrt)
        obtain fs rt0 where fsrt: "fsrt = (fs, rt0)"
          by force
        have "scannable w j (fs ! j)" if "j < length fs" for j
          using services_scannable [OF assms Inr given added [unfolded fsrt] dirs that] .
        then have "\<forall>j < length fs. scannable w (0 + j) (fs ! j)"
          by simp
        from index_folders_ends [OF this] obtain indexed rt where
          scanned: "index_folders w c (Suc 0 < length (opt_folders q)) 0 fs (start_folders (attach rt0)) = Some (indexed, rt)"
          by blast
        show ?thesis
          using refuse [of "moved @ indexed" "str ''failed to start network (port in use?)''"]
          by (cases "wo_node_starts w")
            (auto simp: up Inr state given added fsrt scanned throws Some Let_def split: prod.split)
      qed
    qed
  qed
qed

section \<open>Property\<close>

text \<open>C14. A run starts completely or says why not, unless an exception ends it: on file systems whose scans end,
  starting up ends. It ends by an uncaught exception exactly when the status of a directory on the command line
  cannot be had, all before it being directories, or when all are accepted and moving some folder's old state
  throws. Otherwise it prints an error last and exits with code 2, or the node is attached with one service for
  each directory of the command line, in order, each with the directory's own rules and configuration, the
  manifest of a scan of exactly that directory under those rules, the baseline of the last run and
  no session yet; the names differ and no root lies in another.\<close>

theorem start_up_ready:
  assumes "\<forall>i < length (opt_folders q). \<forall>f. wd_scanner f = folder_scanner (wo_read_file w) (opt_folders q ! i) f
      \<and> (\<exists>f0. resolve_folder (wo_cwd w) (wo_is_dir w) (opt_folders q ! i) = Inr f0 \<and> wd_root f = wd_root f0)
      \<longrightarrow> scannable w i f"
  shows "\<exists>lines out. start_up w q = Some (lines, out) \<and> (out = Aborts \<longleftrightarrow> uncaught w q) \<and>
    (case out of Exits code \<Rightarrow> refused w q lines code
     | Aborts \<Rightarrow> True
     | Started r \<Rightarrow> (\<forall>pfs. reached {pfs} (rn_router r)) \<and> rt_attached (rn_router r) \<and> \<not> rt_stopped (rn_router r)
        \<and> length (rn_folders r) = length (opt_folders q) \<and> length (rt_folders (rn_router r)) = length (opt_folders q)
        \<and> (\<forall>i < length (opt_folders q). folder_up w q i (rn_folders r ! i) (rt_folders (rn_router r) ! i))
        \<and> distinct (map wd_name (rn_folders r))
        \<and> (\<forall>i < length (opt_folders q). \<forall>j < length (opt_folders q). i \<noteq> j \<longrightarrow>
             \<not> path_within (wd_root_key (rn_folders r ! i)) (wd_root_key (rn_folders r ! j))))"
proof -
  obtain lines out where up: "start_up w q = Some (lines, out)" "\<forall>code. out = Exits code \<longrightarrow> refused w q lines code"
    "out = Aborts \<longleftrightarrow> uncaught w q"
    using start_up_cases [OF assms] by blast
  show ?thesis
  proof (cases out)
    case (Started r)
    note started = start_up_folders [OF up(1) [unfolded Started]]
    obtain fs0 where fs0: "resolve_all (wo_cwd w) (wo_is_dir w) (opt_folders q) = Inr fs0"
      using start_up_parts [OF up(1) [unfolded Started]] by metis
    note res = resolve_folders_nth [OF resolve_all_result(1) [OF fs0]]
    have same: "wd_name (rn_folders r ! i) = wd_name (fs0 ! i)" "wd_root_key (rn_folders r ! i) = wd_root_key (fs0 ! i)"
      if "i < length (opt_folders q)" for i
      using started res that unfolding folder_up_def by force+
    have "map wd_name (rn_folders r) = map wd_name fs0"
      using started res same(1) by (intro nth_equalityI) simp_all
    then have "distinct (map wd_name (rn_folders r))"
      using resolve_all_result(2) [OF fs0] by simp
    moreover have "\<forall>i < length (opt_folders q). \<forall>j < length (opt_folders q). i \<noteq> j \<longrightarrow>
        \<not> path_within (wd_root_key (rn_folders r ! i)) (wd_root_key (rn_folders r ! j))"
      using resolve_all_result(3) [OF fs0] res same(2) by simp
    ultimately show ?thesis
      using up(1,3) started by (simp add: Started)
  qed (use up in simp_all)
qed

text \<open>A directory with one file, at any path.\<close>

definition one_file_os :: os where
  "one_file_os = \<lparr>os_list = (\<lambda>d. Some [\<lparr>de_name = [97], de_is_directory = False, de_size = 3, de_modified = 5\<rparr>]),
     os_lstat = (\<lambda>p. Some \<lparr>st_link = False, st_dir = False, st_exec = False, st_size = 3, st_mtime = 5\<rparr>),
     os_stat = (\<lambda>p. None), os_realpath = (\<lambda>p. None), os_combine = (\<lambda>r p. r @ [47] @ p), os_hash = (\<lambda>p. Some (replicate 32 1))\<rparr>"

lemma one_file_scannable: "sane_names one_file_os \<and> finitely_many_dirs one_file_os sc d"
proof -
  have "subdirs one_file_os sc d v = []" for v
    by (simp add: subdirs_def entries_of_def one_file_os_def map_filter_simps entry_dir_def dir_of_def entry_info_def
        probe_entry_def stat_nofollow_def no_stat_def)
  then have "Collect (visited one_file_os sc d) = {scan_start one_file_os sc d}"
    unfolding visited_def by (auto elim: converse_rtranclpE)
  then show ?thesis
    by (simp add: finitely_many_dirs_def) (simp add: sane_names_def one_file_os_def)
qed

definition sample_world :: "bytes world" where
  "sample_world = \<lparr>wo_cwd = Some (str ''/''), wo_env = (\<lambda>v. []), wo_no_color = None, wo_tty = False, wo_is_dir = (\<lambda>p. Is_directory),
     wo_read_file = (\<lambda>p. None), wo_sha = (\<lambda>x. replicate 32 7), wo_from_hex = Some,
     wo_move = (\<lambda>i. (\<lparr>mv_equivalent = False, mv_created = False, mv_listing = Not_opened, mv_stat_throws = (\<lambda>n. False), mv_sees = (\<lambda>e. True), mv_rename = (\<lambda>n. False),
       mv_copy = (\<lambda>n. Copied), mv_remove = (\<lambda>n. Removed), mv_rmdir = False\<rparr>, None, [])),
     wo_disk = (\<lambda>i. Map.empty), wo_baseline = (\<lambda>i. None), wo_platform = (\<lambda>i. sample_platform), wo_os = (\<lambda>i. one_file_os),
     wo_scan_ms = (\<lambda>i. 4), wo_node_starts = True, wo_local_id = str ''ab'', wo_listen_port = 9000, wo_dht_port = 9001,
     wo_version = str ''1''\<rparr>"

definition sample_run :: options where
  "sample_run = default_options\<lparr>opt_folders := [default_folder\<lparr>fo_directory := str ''/s''\<rparr>], opt_key := str ''k''\<rparr>"

text \<open>The sample directory cannot be looked at.\<close>

definition barred_world :: "bytes world" where
  "barred_world = sample_world\<lparr>wo_is_dir := (\<lambda>p. Status_error)\<rparr>"

theorem start_up_ready_witness:
  "(\<exists>lines r. start_up sample_world sample_run = Some (lines, Started r) \<and> rt_attached (rn_router r)
      \<and> length (rt_folders (rn_router r)) = 1)
   \<and> (\<exists>lines. start_up barred_world sample_run = Some (lines, Aborts))"
proof
  have ends: "\<forall>i < length (opt_folders sample_run). \<forall>f. wd_scanner f = folder_scanner (wo_read_file sample_world) (opt_folders sample_run ! i) f
      \<and> (\<exists>f0. resolve_folder (wo_cwd sample_world) (wo_is_dir sample_world) (opt_folders sample_run ! i) = Inr f0 \<and> wd_root f = wd_root f0)
      \<longrightarrow> scannable sample_world i f"
    "\<forall>i < length (opt_folders sample_run). \<forall>f. wd_scanner f = folder_scanner (wo_read_file barred_world) (opt_folders sample_run ! i) f
      \<and> (\<exists>f0. resolve_folder (wo_cwd barred_world) (wo_is_dir barred_world) (opt_folders sample_run ! i) = Inr f0 \<and> wd_root f = wd_root f0)
      \<longrightarrow> scannable barred_world i f"
    using one_file_scannable by (simp_all add: scannable_def sample_world_def barred_world_def)
  obtain f where f: "resolve_all (wo_cwd sample_world) (wo_is_dir sample_world) (opt_folders sample_run) = Inr [f]"
    by (simp add: sample_run_def sample_world_def resolve_all_def resolve_folder_def fs_absolute_def is_absolute_def
        fs_join_def str_def check_overlap_def map_filter_simps overlap_at_def)
  moreover have index: "wo_node_starts sample_world"
    by (simp add: sample_world_def)
  moreover have "add_services sample_world (opt_allow sample_run) 0 (zip (opt_folders sample_run) gs) new_router \<noteq> Inl e" for gs e
    by (cases gs) (simp_all add: sample_run_def default_options_def folder_config_def Let_def add_folder_def new_router_def split: prod.split)
  moreover have "move_throws sample_world i tree dir = False" for i tree dir
    by (simp add: move_throws_def sample_world_def migrate_state_dir_def)
  then have "give_states sample_world c 0 dfs \<noteq> (moved, None)" for c dfs moved
    using give_states_throws [of sample_world c 0 dfs] by auto
  ultimately have "start_up sample_world sample_run \<noteq> Some (lines, Exits code)"
    "start_up sample_world sample_run \<noteq> Some (lines, Aborts)" for lines code
    using index by (auto simp: start_up_def Let_def split: prod.splits sum.splits option.splits)
  moreover obtain lines out where out: "start_up sample_world sample_run = Some (lines, out)"
    "case out of Exits code \<Rightarrow> True | Aborts \<Rightarrow> True
      | Started r \<Rightarrow> rt_attached (rn_router r) \<and> length (rt_folders (rn_router r)) = length (opt_folders sample_run)"
    using start_up_ready [OF ends(1)] by (force split: ending.splits)
  moreover have "length (opt_folders sample_run) = 1"
    by (simp add: sample_run_def)
  ultimately show "\<exists>lines r. start_up sample_world sample_run = Some (lines, Started r) \<and> rt_attached (rn_router r)
      \<and> length (rt_folders (rn_router r)) = 1"
    by (cases out) auto
  have "status_of barred_world (opt_folders sample_run ! 0) = Some Status_error"
    by (simp add: status_of_def barred_world_def sample_world_def sample_run_def fs_absolute_def is_absolute_def str_def)
  then have "uncaught barred_world sample_run"
    by (auto simp: uncaught_def sample_run_def)
  then show "\<exists>lines. start_up barred_world sample_run = Some (lines, Aborts)"
    using start_up_ready [OF ends(2)] by blast
qed

end
