(* ===== verification/Help.thy ===== *)
theory Help
  imports Cli Terminal
begin

text \<open>
  \<open>app/cli.cpp\<close>, \<open>help_text\<close>: what \<open>--help\<close> prints, section by section, and that it tells the truth about
  the parser next to it.
\<close>

section \<open>The text\<close>

text \<open>A row describes an option, or two at once, or continues the row before.\<close>

datatype help_row = Described bytes bytes | Described_pair bytes bytes bytes bytes | Continued bytes

definition row_text :: "bool \<Rightarrow> help_row \<Rightarrow> bytes" where
  "row_text c r =
     (case r of
        Described names about \<Rightarrow> str ''  '' @ green c names @ about @ [10]
      | Described_pair names between names' about \<Rightarrow> str ''  '' @ green c names @ between @ green c names' @ about @ [10]
      | Continued about \<Rightarrow> about @ [10])"

definition connection_rows :: "help_row list" where
  "connection_rows =
    [Described (str ''-p, --port'') (str '' <n>         listen on TCP port <n> (default: ephemeral)''),
     Described (str ''    --peer'') (str '' <host:port>  dial a specific peer (repeatable)''),
     Described (str ''    --key'') (str '' <secret>      shared secret: peers must match it to connect''),
     Continued (str ''                            (also keys auto-discovery over DHT + mDNS)''),
     Described (str ''    --allow'') (str '' <peer-id>    only sync with this peer id (64 hex, repeatable)''),
     Described (str ''    --discover'') (str ''           enable DHT + mDNS discovery without a key''),
     Described (str ''    --lan'') (str ''                discover on the local network only (mDNS)'')]"

definition folder_rows :: "help_row list" where
  "folder_rows =
    [Described (str ''    --name'') (str '' <label>      the name both peers know this folder by''),
     Continued (str ''                            (default: the directory'' @ [39] @ str ''s own leaf name; both''),
     Continued (str ''                             sides must agree or the folder never pairs)''),
     Described (str ''    --mirror'') (str ''             one-way mirror instead of two-way merge''),
     Described_pair (str ''    --source'') (str '' / '') (str ''--replica'') (str ''  mirror role (source is authoritative)''),
     Described (str ''    --conflict'') (str '' <policy>  newer|larger|local|remote (default: newer)''),
     Continued (str ''                            (peers must pair: newer/newer, larger/larger,''),
     Continued (str ''                             local/remote '' @ em_dash @ str '' a mismatch is refused)''),
     Described (str ''    --no-delete'') (str ''          never delete files (additive sync)''),
     Described (str ''    --no-delta'') (str ''           send whole files instead of rsync deltas''),
     Described (str ''    --follow-symlinks'') (str ''    sync what a symlink points at as a real file''),
     Continued (str ''                            or directory (default: links are skipped; an''),
     Continued (str ''                            update to one is written to its target)''),
     Described (str ''    --ignore'') (str '' <pattern>   exclude paths (gitignore syntax, repeatable)''),
     Described (str ''    --ignore-file'') (str '' <path> load ignore patterns from a file''),
     Continued (str ''                            (default: <directory>/.rasyncignore)'')]"

definition run_mode_rows :: "help_row list" where
  "run_mode_rows =
    [Described (str ''    --interval'') (str '' <secs>    rescan cadence for change detection (default: 3)''),
     Described (str ''    --once'') (str ''               reconcile once with connected peers, then exit''),
     Described (str ''    --data-dir'') (str '' <path>    keep sync state here instead of in the''),
     Continued (str ''                            per-user state directory (nothing of rasync'' @ [39] @ str ''s''),
     Continued (str ''                            is stored in a synced folder by default)'')]"

definition output_rows :: "help_row list" where
  "output_rows =
    [Described (str ''-v, --verbose'') (str ''            show every file operation''),
     Described (str ''-q, --quiet'') (str ''              only warnings and errors''),
     Described (str ''    --no-color'') (str ''           disable coloured output''),
     Described (str ''-h, --help'') (str ''               show this help''),
     Described (str ''    --version'') (str ''            show version'')]"

text \<open>An example: what it is for, its words after the name of the program, a remark.\<close>

definition help_examples :: "(bytes list \<times> bytes \<times> bytes) list" where
  "help_examples =
    [([str ''Host A: listen and share ./data''], str '' -p 9000 ./data'', []),
     ([str ''Host B: connect to A and keep ./data identical''], str '' --peer a.example.com:9000 ./data'', []),
     ([str ''Both hosts: find each other automatically, and only each other,'', str ''by a shared secret (a peer without it cannot even handshake)''], str '' --key s3cr3t-passphrase ./data'', []),
     ([str ''Several folders over one connection''], str '' --key s3cr3t ./documents ./photos ./code'', []),
     ([ellipsis @ str ''where the other machine keeps them under different paths''], str '' --key s3cr3t ~/Docs --name documents ~/Pictures --name photos'', []),
     ([str ''Two-way for one folder, one-way backup for another''], str '' --key s3cr3t ./work ./archive --mirror --source'', []),
     ([str ''One-way backup mirror (source pushes, replica follows)''], str '' --mirror --source -p 9000 ./data'', str ''(on the source)''),
     ([], str '' --mirror --replica --peer host:9000 ./backup'', [])]"

definition example_text :: "bool \<Rightarrow> bytes \<Rightarrow> bytes list \<times> bytes \<times> bytes \<Rightarrow> bytes" where
  "example_text c prog e =
     (case e of (comments, args, remark) \<Rightarrow>
        concat (map (\<lambda>t. dim c (str ''  # '' @ t @ [10])) comments)
        @ str ''  '' @ prog @ args @ (if remark = [] then [] else str ''      '' @ dim c remark) @ [10])"

text \<open>The title and the usage; the options.\<close>

definition help_head :: "bool \<Rightarrow> bytes \<Rightarrow> bytes \<Rightarrow> bytes" where
  "help_head c version prog =
     bold c (cyan c (str ''rasync'')) @ [32] @ version @ [32] @ em_dash @ str '' real-time two-way directory sync over P2P'' @ [10, 10]
     @ bold c (str ''USAGE'' @ [10])
     @ str ''  '' @ prog @ str '' [options] '' @ bold c (str ''<directory>'') @ str '' [[options] '' @ bold c (str ''<directory>'')
     @ str '']...'' @ [10, 10]
     @ str ''  Folder options apply to the directory they follow; given before the'' @ [10]
     @ str ''  first directory they are the default for every folder.'' @ [10, 10]"

definition help_sections :: "bool \<Rightarrow> bytes" where
  "help_sections c =
     bold c (str ''CONNECTION'') @ dim c (str ''  (node-wide '' @ em_dash @ str '' one connection carries every folder)'' @ [10])
     @ concat (map (row_text c) connection_rows) @ [10]
     @ bold c (str ''FOLDER'') @ dim c (str ''  (applies to the directory it follows)'' @ [10])
     @ concat (map (row_text c) folder_rows) @ [10]
     @ bold c (str ''RUN MODE'' @ [10]) @ concat (map (row_text c) run_mode_rows) @ [10]
     @ bold c (str ''OUTPUT'' @ [10]) @ concat (map (row_text c) output_rows) @ [10]"

definition help_text :: "bool \<Rightarrow> bytes \<Rightarrow> bytes \<Rightarrow> bytes" where
  "help_text c version prog =
     help_head c version prog @ help_sections c
     @ bold c (str ''EXAMPLES'' @ [10]) @ concat (map (example_text c prog) help_examples)"

section \<open>Reading it\<close>

text \<open>What is left to read when the terminal has taken out the styles, each from an escape to the next \<open>m\<close>; the
  words, between blanks, commas and newlines; and those that look like options.\<close>

function drop_styles :: "bytes \<Rightarrow> bytes" where
  "drop_styles [] = []"
| "drop_styles (b # s) = (if b = 27 then drop_styles (tl (dropWhile (\<lambda>x. x \<noteq> 109) s)) else b # drop_styles s)"
  by pat_completeness auto
termination
proof (relation "measure length")
  fix s :: bytes
  have "length (tl (dropWhile (\<lambda>x. x \<noteq> 109) s)) \<le> length s"
    using length_dropWhile_le [of "\<lambda>x. x \<noteq> 109" s] by simp
  then show "(tl (dropWhile (\<lambda>x. x \<noteq> 109) s), b # s) \<in> measure length" for b
    by (simp add: le_imp_less_Suc)
qed simp_all

fun split_words :: "bytes \<Rightarrow> bytes \<Rightarrow> bytes list" where
  "split_words word [] = (if word = [] then [] else [rev word])"
| "split_words word (b # s) =
     (if b = 32 \<or> b = 44 \<or> b = 10 then (if word = [] then [] else [rev word]) @ split_words [] s else split_words (b # word) s)"

definition words_of :: "bytes \<Rightarrow> bytes list" where
  "words_of = split_words []"

definition dashed :: "bytes \<Rightarrow> bytes list" where
  "dashed text = filter (\<lambda>w. hd w = 45) (words_of text)"

definition option_words :: "bytes \<Rightarrow> bytes list" where
  "option_words text = dashed (drop_styles text)"

text \<open>A single word that is no option: the name of the program and the version are such words.\<close>

definition plain_word :: "bytes \<Rightarrow> bool" where
  "plain_word w \<longleftrightarrow> w \<noteq> [] \<and> hd w \<noteq> 45 \<and> set w \<inter> {10, 27, 32, 44} = {}"

section \<open>Without the styles\<close>

lemma drop_plain: "27 \<notin> set x \<Longrightarrow> drop_styles (x @ t) = x @ drop_styles t"
  by (induction x) auto

lemma drop_style:
  assumes "27 \<notin> set x"
  shows "drop_styles (bold c x @ t) = x @ drop_styles t" "drop_styles (dim c x @ t) = x @ drop_styles t"
    "drop_styles (green c x @ t) = x @ drop_styles t" "drop_styles (bold c (cyan c x) @ t) = x @ drop_styles t"
  using assms by (auto simp: style_defs term_wrap_def str_def drop_plain)

definition row_plain :: "help_row \<Rightarrow> bool" where
  "row_plain r =
     (case r of
        Described a b \<Rightarrow> 27 \<notin> set a \<and> 27 \<notin> set b
      | Described_pair a b c d \<Rightarrow> 27 \<notin> set a \<and> 27 \<notin> set b \<and> 27 \<notin> set c \<and> 27 \<notin> set d
      | Continued a \<Rightarrow> 27 \<notin> set a)"

lemma drop_row:
  assumes "row_plain r"
  shows "drop_styles (row_text c r @ t) = row_text False r @ drop_styles t"
proof -
  have "27 \<notin> set (str ''  '')"
    by code_simp
  note this [THEN drop_plain]
  moreover have "green False x = x" for x
    by (simp add: green_def term_wrap_def)
  moreover have "27 \<notin> set [10 :: u8]"
    by simp
  note this [THEN drop_plain]
  ultimately show ?thesis
    using assms by (cases r) (simp_all add: row_plain_def row_text_def drop_plain drop_style)
qed

lemma drop_rows: "list_all row_plain rows \<Longrightarrow>
    drop_styles (concat (map (row_text c) rows) @ t) = concat (map (row_text False) rows) @ drop_styles t"
  by (induction rows) (simp_all add: drop_row)

lemma rows_plain: "list_all row_plain connection_rows" "list_all row_plain folder_rows" "list_all row_plain run_mode_rows"
  "list_all row_plain output_rows"
  by code_simp+

lemma drop_example:
  assumes "list_all (\<lambda>t. 27 \<notin> set t) comments" "27 \<notin> set args" "27 \<notin> set remark" "27 \<notin> set prog"
  shows "drop_styles (example_text c prog (comments, args, remark) @ t) = example_text False prog (comments, args, remark) @ drop_styles t"
proof -
  have "drop_styles (concat (map (\<lambda>t. dim c (str ''  # '' @ t @ [10])) comments) @ u) =
      concat (map (\<lambda>t. dim False (str ''  # '' @ t @ [10])) comments) @ drop_styles u" for u
    using assms(1)
    by (induction comments) (simp_all add: drop_style str_def, simp add: dim_def term_wrap_def)
  then show ?thesis
    using assms(2-4) by (simp add: example_text_def drop_plain drop_style str_def) (simp add: dim_def term_wrap_def)
qed

definition example_plain :: "bytes list \<times> bytes \<times> bytes \<Rightarrow> bool" where
  "example_plain e = (case e of (comments, args, remark) \<Rightarrow>
     list_all (\<lambda>t. 27 \<notin> set t) comments \<and> 27 \<notin> set args \<and> 27 \<notin> set remark \<and> args \<noteq> [] \<and> hd args = 32)"

lemma examples_plain: "list_all example_plain help_examples"
  by code_simp

lemma drop_examples:
  assumes "27 \<notin> set prog" "list_all example_plain es"
  shows "drop_styles (concat (map (example_text c prog) es) @ t) = concat (map (example_text False prog) es) @ drop_styles t"
  using assms(2) by (induction es) (auto simp: example_plain_def drop_example assms(1))

lemma drop_head:
  assumes "27 \<notin> set version" "27 \<notin> set prog"
  shows "drop_styles (help_head c version prog @ t) = help_head False version prog @ drop_styles t"
proof -
  have "27 \<notin> set (str ''rasync'')" "27 \<notin> set em_dash" "27 \<notin> set (str '' real-time two-way directory sync over P2P'')"
    "27 \<notin> set (str ''USAGE'' @ [10])" "27 \<notin> set (str ''  '')" "27 \<notin> set (str '' [options] '')" "27 \<notin> set (str ''<directory>'')"
    "27 \<notin> set (str '' [[options] '')" "27 \<notin> set (str '']...'')"
    "27 \<notin> set (str ''  Folder options apply to the directory they follow; given before the'')"
    "27 \<notin> set (str ''  first directory they are the default for every folder.'')"
    by code_simp+
  note plain = this [THEN drop_plain] this [THEN drop_style(1)] this [THEN drop_style(4)] assms [THEN drop_plain]
  have "bold False x = x" "cyan False x = x" for x
    by (simp_all add: style_defs term_wrap_def)
  then show ?thesis
    using drop_plain [of "[10]"] drop_plain [of "[10, 10]"] drop_plain [of "[32]"] by (simp add: help_head_def plain)
qed

lemma drop_sections: "drop_styles (help_sections c @ t) = help_sections False @ drop_styles t"
proof -
  have "27 \<notin> set (str ''CONNECTION'')" "27 \<notin> set (str ''  (node-wide '' @ em_dash @ str '' one connection carries every folder)'' @ [10])"
    "27 \<notin> set (str ''FOLDER'')" "27 \<notin> set (str ''  (applies to the directory it follows)'' @ [10])"
    "27 \<notin> set (str ''RUN MODE'' @ [10])" "27 \<notin> set (str ''OUTPUT'' @ [10])"
    by code_simp+
  note plain = this [THEN drop_style(1)] this [THEN drop_style(2)]
  have "bold False x = x" "dim False x = x" for x
    by (simp_all add: style_defs term_wrap_def)
  then show ?thesis
    by (simp add: help_sections_def plain drop_rows [OF rows_plain(1)] drop_rows [OF rows_plain(2)] drop_rows [OF rows_plain(3)]
        drop_rows [OF rows_plain(4)])
qed

lemma drop_help:
  assumes "27 \<notin> set version" "27 \<notin> set prog"
  shows "drop_styles (help_text c version prog) = help_text False version prog"
proof -
  have "27 \<notin> set (str ''EXAMPLES'' @ [10])"
    by code_simp
  note this [THEN drop_style(1)]
  moreover have "bold False x = x" for x
    by (simp add: style_defs term_wrap_def)
  moreover have "drop_styles (concat (map (example_text c prog) help_examples)) = concat (map (example_text False prog) help_examples)"
    using drop_examples [OF assms(2) examples_plain, of c "[]"] by simp
  ultimately show ?thesis
    using drop_head [OF assms] drop_sections by (simp add: help_text_def)
qed

section \<open>Its words\<close>

lemma split_words_sep: "b \<in> {32, 44, 10} \<Longrightarrow> split_words w (x @ b # t) = split_words w x @ split_words [] t"
  by (induction x arbitrary: w) auto

lemma dashed_sep: "b \<in> {32, 44, 10} \<Longrightarrow> dashed (x @ b # t) = dashed x @ dashed t"
  by (simp add: dashed_def words_of_def split_words_sep)

lemma dashed_line: "dashed ((x @ [10]) @ t) = dashed (x @ [10]) @ dashed t"
  using dashed_sep [of 10 x t] dashed_sep [of 10 x "[]"] by (simp add: dashed_def words_of_def)

lemma dashed_plain: "plain_word w \<Longrightarrow> dashed w = []"
proof -
  assume w: "plain_word w"
  have "split_words v w = [rev v @ w]" if "set w \<inter> {10, 27, 32, 44} = {}" "v \<noteq> [] \<or> w \<noteq> []" for v
    using that by (induction w arbitrary: v) auto
  with w show ?thesis
    by (simp add: dashed_def words_of_def plain_word_def)
qed

lemma dashed_rows: "dashed (concat (map (row_text False) rows) @ t) = concat (map (\<lambda>r. dashed (row_text False r)) rows) @ dashed t"
proof (induction rows)
  case (Cons r rows)
  have "\<exists>x. row_text False r = x @ [10]"
    by (cases r) (auto simp: row_text_def)
  then obtain x where x: "row_text False r = x @ [10]" by blast
  have "dashed (row_text False r @ u) = dashed (row_text False r) @ dashed u" for u
    unfolding x by (rule dashed_line)
  with Cons show ?case by simp
qed simp

lemma dashed_example:
  assumes "plain_word prog" "example_plain e"
  shows "dashed (example_text False prog e @ t) = dashed (example_text False [120] e) @ dashed t"
proof -
  obtain comments args remark where e: "e = (comments, 32 # args, remark)"
    using assms(2) by (auto simp: example_plain_def neq_Nil_conv split: prod.splits)
  let ?above = "concat (map (\<lambda>t. dim False (str ''  # '' @ t @ [10])) comments)"
  let ?below = "args @ (if remark = [] then [] else str ''      '' @ dim False remark)"
  have shape: "example_text False p e = (?above @ [32]) @ 32 # p @ 32 # ?below @ [10]" for p
    by (simp add: e example_text_def str_def)
  have "plain_word [120]"
    by (simp add: plain_word_def)
  have split: "dashed (example_text False p e @ u) = dashed (?above @ [32]) @ dashed (?below @ [10]) @ dashed u" if "plain_word p" for p u
    using dashed_sep [of 32 "?above @ [32]" "p @ 32 # (?below @ [10]) @ u"] dashed_sep [of 32 p "(?below @ [10]) @ u"]
      dashed_line [of ?below u] dashed_plain [OF that]
    unfolding shape by simp
  show ?thesis
    using split [OF assms(1), of t] split [OF \<open>plain_word [120]\<close>, of "[]"] by (simp add: dashed_def words_of_def)
qed

lemma dashed_examples:
  assumes "plain_word prog" "list_all example_plain es"
  shows "dashed (concat (map (example_text False prog) es)) = concat (map (\<lambda>e. dashed (example_text False [120] e)) es)"
  using assms(2)
proof (induction es)
  case (Cons e es)
  then show ?case
    using dashed_example [OF assms(1), of e] by simp
qed (simp add: dashed_def words_of_def)

lemma dashed_head:
  assumes "plain_word version" "plain_word prog"
  shows "dashed (help_head False version prog @ t) = dashed t"
proof -
  let ?a = "str ''rasync''"
  let ?b = "em_dash @ str '' real-time two-way directory sync over P2P'' @ [10, 10] @ str ''USAGE'' @ [10, 32]"
  let ?c = "str ''[options] <directory> [[options] <directory>]...'' @ [10, 10]
    @ str ''  Folder options apply to the directory they follow; given before the'' @ [10]
    @ str ''  first directory they are the default for every folder.'' @ [10]"
  have head: "help_head False version prog = ?a @ 32 # version @ 32 # ?b @ 32 # prog @ 32 # ?c @ [10]"
    by (simp add: help_head_def style_defs term_wrap_def str_def)
  have "dashed ?a = []" "dashed ?b = []" "dashed (?c @ [10]) = []"
    by code_simp+
  then show ?thesis
    using dashed_sep [of 32 ?a "version @ 32 # ?b @ 32 # prog @ 32 # (?c @ [10]) @ t"]
      dashed_sep [of 32 version "?b @ 32 # prog @ 32 # (?c @ [10]) @ t"] dashed_sep [of 32 ?b "prog @ 32 # (?c @ [10]) @ t"]
      dashed_sep [of 32 prog "(?c @ [10]) @ t"] dashed_line [of ?c t] dashed_plain [OF assms(1)] dashed_plain [OF assms(2)]
    unfolding head by simp
qed

lemma rows_dashed:
  "concat (map (\<lambda>r. dashed (row_text False r)) connection_rows) =
    map str [''-p'', ''--port'', ''--peer'', ''--key'', ''--allow'', ''--discover'', ''--lan'']"
  "concat (map (\<lambda>r. dashed (row_text False r)) folder_rows) =
    map str [''--name'', ''--mirror'', ''--source'', ''--replica'', ''--conflict'', ''--no-delete'', ''--no-delta'', ''--follow-symlinks'',
      ''--ignore'', ''--ignore-file'']"
  "concat (map (\<lambda>r. dashed (row_text False r)) run_mode_rows) = map str [''--interval'', ''--once'', ''--data-dir'']"
  "concat (map (\<lambda>r. dashed (row_text False r)) output_rows) =
    map str [''-v'', ''--verbose'', ''-q'', ''--quiet'', ''--no-color'', ''-h'', ''--help'', ''--version'']"
  by code_simp+

text \<open>The options in the order of the text; those of the examples come last.\<close>

definition sections_options :: "bytes list" where
  "sections_options = map str
     [''-p'', ''--port'', ''--peer'', ''--key'', ''--allow'', ''--discover'', ''--lan'', ''--name'', ''--mirror'', ''--source'', ''--replica'',
      ''--conflict'', ''--no-delete'', ''--no-delta'', ''--follow-symlinks'', ''--ignore'', ''--ignore-file'', ''--interval'', ''--once'',
      ''--data-dir'', ''-v'', ''--verbose'', ''-q'', ''--quiet'', ''--no-color'', ''-h'', ''--help'', ''--version'']"

definition examples_options :: "bytes list" where
  "examples_options = map str
     [''-p'', ''--peer'', ''--key'', ''--key'', ''--key'', ''--name'', ''--name'', ''--key'', ''--mirror'', ''--source'', ''--mirror'', ''--source'',
      ''-p'', ''--mirror'', ''--replica'', ''--peer'']"

lemma dashed_lines_rows:
  "dashed ((a @ [10]) @ concat (map (row_text False) r1) @ (b @ [10]) @ concat (map (row_text False) r2) @ (c @ [10])
      @ concat (map (row_text False) r3) @ (d @ [10]) @ concat (map (row_text False) r4) @ ([] @ [10]) @ t) =
    dashed (a @ [10]) @ concat (map (\<lambda>r. dashed (row_text False r)) r1) @ dashed (b @ [10])
      @ concat (map (\<lambda>r. dashed (row_text False r)) r2) @ dashed (c @ [10]) @ concat (map (\<lambda>r. dashed (row_text False r)) r3)
      @ dashed (d @ [10]) @ concat (map (\<lambda>r. dashed (row_text False r)) r4) @ dashed ([] @ [10]) @ dashed t"
  by (simp only: dashed_line dashed_rows)

lemma dashed_sections: "dashed (help_sections False @ t) = sections_options @ dashed t"
proof -
  let ?conn = "str ''CONNECTION'' @ str ''  (node-wide '' @ em_dash @ str '' one connection carries every folder)''"
  let ?fold = "[10] @ str ''FOLDER'' @ str ''  (applies to the directory it follows)''"
  let ?mode = "[10] @ str ''RUN MODE''"
  let ?out = "[10] @ str ''OUTPUT''"
  have titles: "dashed (?conn @ [10]) = []" "dashed (?fold @ [10]) = []" "dashed (?mode @ [10]) = []" "dashed (?out @ [10]) = []"
    "dashed ([] @ [10]) = []"
    by code_simp+
  have parts: "help_sections False @ t =
      (?conn @ [10]) @ concat (map (row_text False) connection_rows) @ (?fold @ [10]) @ concat (map (row_text False) folder_rows)
      @ (?mode @ [10]) @ concat (map (row_text False) run_mode_rows) @ (?out @ [10]) @ concat (map (row_text False) output_rows)
      @ ([] @ [10]) @ t"
    by (simp add: help_sections_def bold_def dim_def term_wrap_def)
  have "dashed (help_sections False @ t) = concat (map (\<lambda>r. dashed (row_text False r)) connection_rows)
      @ concat (map (\<lambda>r. dashed (row_text False r)) folder_rows) @ concat (map (\<lambda>r. dashed (row_text False r)) run_mode_rows)
      @ concat (map (\<lambda>r. dashed (row_text False r)) output_rows) @ dashed t"
    unfolding parts dashed_lines_rows titles by simp
  then show ?thesis
    unfolding rows_dashed sections_options_def by simp
qed

lemma dashed_help:
  assumes "plain_word version" "plain_word prog"
  shows "option_words (help_text c version prog) = sections_options @ examples_options"
proof -
  have "27 \<notin> set version" "27 \<notin> set prog"
    using assms by (auto simp: plain_word_def)
  note plain = drop_help [OF this]
  have "dashed (str ''EXAMPLES'' @ [10]) = []"
    by code_simp
  moreover have "concat (map (\<lambda>e. dashed (example_text False [120] e)) help_examples) = examples_options"
    by code_simp
  ultimately show ?thesis
    using dashed_line [of "str ''EXAMPLES''"] dashed_examples [OF assms(2) examples_plain]
    by (simp add: option_words_def plain) (simp add: help_text_def bold_def term_wrap_def dashed_head [OF assms] dashed_sections)
qed

lemma options_known:
  "map opt_of sections_options =
     map Some [O_port, O_port, O_peer, O_key, O_allow, O_discover, O_lan, O_name, O_mirror, O_source, O_replica, O_conflict,
       O_no_delete, O_no_delta, O_follow_symlinks, O_ignore, O_ignore_file, O_interval, O_once, O_data_dir,
       O_verbose, O_verbose, O_quiet, O_quiet, O_no_color, O_help, O_help, O_version]"
  "map opt_of examples_options =
     map Some [O_port, O_peer, O_key, O_key, O_key, O_name, O_name, O_key, O_mirror, O_source, O_mirror, O_source, O_port,
       O_mirror, O_replica, O_peer]"
  by (simp_all add: sections_options_def examples_options_def opt_of_def str_inject)

lemma sample_run_1: "pr_action (parse_args ([120] # words_of (str '' -p 9000 ./data''))) = Run"
  by code_simp

lemma sample_run_2: "pr_action (parse_args ([120] # words_of (str '' --peer a.example.com:9000 ./data''))) = Run"
  by code_simp

lemma sample_run_3: "pr_action (parse_args ([120] # words_of (str '' --key s3cr3t-passphrase ./data''))) = Run"
  by code_simp

lemma sample_run_4: "pr_action (parse_args ([120] # words_of (str '' --key s3cr3t ./documents ./photos ./code''))) = Run"
  by code_simp

lemma sample_run_5: "pr_action (parse_args ([120] # words_of (str '' --key s3cr3t ~/Docs --name documents ~/Pictures --name photos''))) = Run"
  by code_simp

lemma sample_run_6: "pr_action (parse_args ([120] # words_of (str '' --key s3cr3t ./work ./archive --mirror --source''))) = Run"
  by code_simp

lemma sample_run_7: "pr_action (parse_args ([120] # words_of (str '' --mirror --source -p 9000 ./data''))) = Run"
  by code_simp

lemma sample_run_8: "pr_action (parse_args ([120] # words_of (str '' --mirror --replica --peer host:9000 ./backup''))) = Run"
  by code_simp

lemma examples_run: "e \<in> set help_examples \<Longrightarrow> pr_action (parse_args (prog # words_of (fst (snd e)))) = Run"
proof -
  assume e: "e \<in> set help_examples"
  have "parse_args (prog # args) = parse_args ([120] # args)" for args
    by (simp add: parse_args_def)
  then show ?thesis
    using e sample_run_1 sample_run_2 sample_run_3 sample_run_4 sample_run_5 sample_run_6 sample_run_7 sample_run_8
    by (auto simp: help_examples_def)
qed

lemma example_in_help:
  assumes "e \<in> set help_examples"
  shows "\<exists>above below. help_text c version prog = above @ example_text c prog e @ below"
proof -
  obtain es fs where parts: "help_examples = es @ e # fs"
    using assms by (meson split_list)
  have "help_text c version prog = (help_head c version prog @ help_sections c @ bold c (str ''EXAMPLES'' @ [10])
      @ concat (map (example_text c prog) es)) @ example_text c prog e @ concat (map (example_text c prog) fs)"
    unfolding help_text_def parts by simp
  then show ?thesis by blast
qed

lemma sections_options_words: "option_words (help_sections c) = sections_options"
proof -
  have "drop_styles (help_sections c) = help_sections False"
    using drop_sections [of c "[]"] by simp
  moreover have "dashed (help_sections False) = sections_options"
    using dashed_sections [of "[]"] by (simp add: dashed_def words_of_def)
  ultimately show ?thesis
    by (simp add: option_words_def)
qed

text \<open>C35. What \<open>--help\<close> prints is true to the parser, whatever the version, the name of the program and the terminal.
  Of the text as printed, with the styles a terminal takes out of it left out: every word that looks like an option is
  one the parser knows; the sections above the examples name every option of the parser; and each example stands in
  the text under the name of the program, and the parser accepts it. The version and the name are words of their
  own, not beginning with a dash.\<close>

theorem help_accurate:
  assumes "plain_word version" "plain_word prog"
  shows "(\<forall>w \<in> set (option_words (help_text c version prog)). opt_of w \<noteq> None)
    \<and> (\<exists>above below. help_text c version prog = above @ help_sections c @ below)
    \<and> (\<forall>op. \<exists>w \<in> set (option_words (help_sections c)). opt_of w = Some op)
    \<and> (\<forall>e \<in> set help_examples. (\<exists>above below. help_text c version prog = above @ example_text c prog e @ below)
        \<and> pr_action (parse_args (prog # words_of (fst (snd e)))) = Run)"
proof (intro conjI allI ballI)
  fix w assume "w \<in> set (option_words (help_text c version prog))"
  then have "opt_of w \<in> set (map opt_of sections_options) \<union> set (map opt_of examples_options)"
    unfolding dashed_help [OF assms] by auto
  then show "opt_of w \<noteq> None"
    unfolding options_known by auto
next
  show "\<exists>above below. help_text c version prog = above @ help_sections c @ below"
    unfolding help_text_def by blast
next
  fix op
  have "Some op \<in> set (map opt_of sections_options)"
    unfolding options_known by (cases op) simp_all
  then show "\<exists>w \<in> set (option_words (help_sections c)). opt_of w = Some op"
    unfolding sections_options_words by (metis (no_types, lifting) image_iff list.set_map)
qed (simp_all add: example_in_help examples_run)

text \<open>A coloured help of \<open>rasync\<close> 1.0.0.\<close>

lemma help_accurate_witness:
  "opt_of (str ''--lan'') \<noteq> None
    \<and> pr_action (parse_args (str ''rasync'' # words_of (str '' --mirror --replica --peer host:9000 ./backup''))) = Run"
proof -
  have plain: "plain_word (str ''1.0.0'')" "plain_word (str ''rasync'')"
    by code_simp+
  note told = help_accurate [OF plain, of True]
  have lan: "str ''--lan'' \<in> set (option_words (help_text True (str ''1.0.0'') (str ''rasync'')))"
    unfolding dashed_help [OF plain] by (simp add: sections_options_def)
  have "([], str '' --mirror --replica --peer host:9000 ./backup'', []) \<in> set help_examples"
    by (simp add: help_examples_def)
  with told have "pr_action (parse_args (str ''rasync'' # words_of (str '' --mirror --replica --peer host:9000 ./backup''))) = Run"
    by (metis fst_conv snd_conv)
  with told lan show ?thesis
    by blast
qed

end
