(* ===== verification/Watch.thy ===== *)
theory Watch
  imports Start_Up Help
begin

text \<open>
  \<open>app/daemon.cpp\<close>, \<open>run_daemon\<close> from the watch loop on: the callbacks that run beside it, what they print and
  count, one iteration of the loop, and a whole run as the sequence of everything that happens in it.
  At the end \<open>main.cpp\<close>, from the words of the command line to the exit code.
\<close>

section \<open>What is printed\<close>

definition peer_up_line :: "bool \<Rightarrow> bytes \<Rightarrow> bytes" where
  "peer_up_line c short = green c full_circle @ str '' connected to peer '' @ bold c short"

definition peer_down_line :: "bool \<Rightarrow> bytes \<Rightarrow> bool \<Rightarrow> bytes \<Rightarrow> bytes" where
  "peer_down_line c short slow_consumer reason =
     (if slow_consumer
      then red c open_circle @ str '' peer '' @ bold c short @ str '' dropped us as a slow consumer '' @ em_dash
        @ str '' sent faster than the link drained''
      else yellow c open_circle @ str '' peer '' @ bold c short @ str '' disconnected'' @ dim c (str '' ('' @ reason @ str '')''))"

text \<open>Log lines of the router, with an empty label, and of a folder.\<close>

definition log_lines :: "bool \<Rightarrow> int \<Rightarrow> bytes \<Rightarrow> int \<Rightarrow> bytes \<Rightarrow> bytes list" where
  "log_lines c verbosity label level text =
     (if level \<ge> 2 then (if verbosity \<ge> 1 then [label @ yellow c (str ''! '') @ text] else [])
      else (if verbosity \<ge> 2 then [label @ dim c (str ''  '' @ text)] else []))"

definition label_of :: "bool \<Rightarrow> bool \<Rightarrow> watched \<Rightarrow> bytes" where
  "label_of c multi f = (if multi then gray c ([91] @ wd_name f @ [93, 32]) else [])"

definition round_lines :: "bool \<Rightarrow> int \<Rightarrow> bytes \<Rightarrow> sync_plan \<Rightarrow> bytes list" where
  "round_lines c verbosity label plan =
     (if verbosity < 2 \<or> plan_empty plan then []
      else [label @ dim c (str ''  reconcile: '') @ decimal (length (pl_pull plan)) @ down_arrow @ str ''  ''
            @ decimal (length (pl_push plan)) @ up_arrow @ str ''  ''
            @ decimal (length (pl_delete_local plan) + length (pl_delete_remote plan)) @ cross_mark @ str ''  ''
            @ (if pl_conflicts plan = [] then [] else yellow c (decimal (length (pl_conflicts plan)) @ str '' conflicts''))])"

definition file_done_lines :: "bool \<Rightarrow> int \<Rightarrow> bytes \<Rightarrow> bool \<Rightarrow> path \<Rightarrow> u64 \<Rightarrow> bool \<Rightarrow> u64 \<Rightarrow> bytes list" where
  "file_done_lines c verbosity label sent p len is_delta on_wire =
     (if verbosity < 1 then []
      else
        let arrow = (if \<not> sent then cyan c down_arrow else blue c up_arrow);
            detail = gray c (str ''('' @ term_bytes len);
            detail = (if is_delta then detail @ str '', delta '' @ term_bytes on_wire @ str '' on wire'' else detail);
            detail = detail @ str '')''
        in [label @ str ''  '' @ arrow @ [32] @ p @ [32] @ detail])"

definition synced_line :: "bool \<Rightarrow> bytes \<Rightarrow> bytes \<Rightarrow> nat \<Rightarrow> u64 \<Rightarrow> bytes" where
  "synced_line c label short files bytes =
     label @ green c (check_mark @ str '' in sync'')
     @ gray c (str '' with '' @ short @ [32] @ em_dash @ [32] @ decimal files @ str '' files, '' @ term_bytes bytes)"

definition event_lines :: "bool \<Rightarrow> int \<Rightarrow> bytes \<Rightarrow> bytes \<Rightarrow> event \<Rightarrow> bytes list" where
  "event_lines c verbosity label short ev =
     (case ev of
        Round plan \<Rightarrow> round_lines c verbosity label plan
      | FileDone sent p len is_delta on_wire \<Rightarrow> file_done_lines c verbosity label sent p len is_delta on_wire
      | Synced files bytes \<Rightarrow> [synced_line c label short files bytes])"

section \<open>What happens in a run\<close>

text \<open>What the rescan of one folder meets: the file system its scan sees, the state the router has reached once the
  scan has ended (its threads go on meanwhile), and what the sessions told of the change meet.\<close>

record rescan =
  rs_os :: os
  rs_meanwhile :: router
  rs_platform :: platform
  rs_order :: "peer_id list"

text \<open>The router's and the folders' callbacks, with the short form of the peer's id, the folder's index and the
  time; a move of the router and its sessions by their own threads; and the iterations of the loop: whether a stop
  was asked for, the time after the sleep, and what a rescan of each folder meets. The callback of a folder in sync
  stores two atomics one after the other, so it is two happenings: \<open>Marked\<close>, then the event.\<close>

datatype happening =
    Peer_up bytes
  | Peer_down bytes bool bytes
  | Logs int bytes
  | Marked nat
  | Folder_event nat bytes event int
  | Folder_logs nat int bytes
  | Router_moves router
  | Iteration bool int "nat \<Rightarrow> rescan"

text \<open>The counter of peers and the time of the last sync are the two atomics of the code.\<close>

record life =
  lf_peers :: int
  lf_last_sync_ms :: int
  lf_folders :: "watched list"
  lf_watch :: watch
  lf_router :: router

definition new_life :: "watched list \<Rightarrow> int \<Rightarrow> router \<Rightarrow> life" where
  "new_life fs now rt = \<lparr>lf_peers = 0, lf_last_sync_ms = 0, lf_folders = fs,
     lf_watch = \<lparr>wt_retry = new_dial_retry 8000 120000, wt_last_rescan = now, wt_started = now\<rparr>, lf_router = rt\<rparr>"

text \<open>The first store of the callback, and the second.\<close>

definition mark_synced :: "nat \<Rightarrow> life \<Rightarrow> life" where
  "mark_synced i lf = lf\<lparr>lf_folders := (lf_folders lf)[i := (lf_folders lf ! i)\<lparr>wd_synced_once := True\<rparr>]\<rparr>"

definition note_sync_time :: "int \<Rightarrow> life \<Rightarrow> life" where
  "note_sync_time now lf = lf\<lparr>lf_last_sync_ms := now div 1000000\<rparr>"

definition leave_line :: "bool \<Rightarrow> int \<Rightarrow> life \<Rightarrow> bytes" where
  "leave_line c now lf =
     (if all_synced (lf_folders lf) \<and> now div 1000000 - lf_last_sync_ms lf > 1500
      then green c (check_mark @ str '' done'') @ dim c (str '' (--once)'')
      else yellow c (str ''! '') @ str ''no peers connected within 30s '' @ em_dash @ str '' exiting'')"

text \<open>The line of a folder whose rescan found changes.\<close>

definition rescan_lines :: "bool \<Rightarrow> options \<Rightarrow> watched \<Rightarrow> manifest \<Rightarrow> manifest_patch \<Rightarrow> scan_stats \<Rightarrow> bytes list" where
  "rescan_lines c q f fresh patch s =
     (if patch_empty patch then []
      else if opt_verbosity q \<ge> 2
      then [label_of c (length (opt_folders q) > 1) f @ dim c (str ''rescan: '') @ decimal (length fresh) @ str '' files, ''
            @ decimal (patch_size patch) @ str '' changed, '' @ decimal (unat (files_hashed s)) @ str '' (re)hashed'']
      else [])"

text \<open>The folders in turn: the service's manifest when its scan begins, the scan against it, and the difference
  published to the service as it is when the scan ends. None: a scan does not return.\<close>

fun rescan_folders ::
  "bool \<Rightarrow> options \<Rightarrow> nat \<Rightarrow> watched list \<Rightarrow> (nat \<Rightarrow> rescan) \<Rightarrow> router \<Rightarrow> (bytes list \<times> router) option" where
  "rescan_folders c q i [] seen rt = Some ([], rt)"
| "rescan_folders c q i (f # fs) seen rt =
     (let before = sv_local (fd_service (rt_folders rt ! i))
      in case scan_tree (rs_os (seen i)) (wd_scanner f) (wd_root f) (Some before) of
           None \<Rightarrow> None
         | Some (fresh, stats) \<Rightarrow>
             let patch = diff_manifests before fresh;
                 rt = on_folder i (publish (rs_platform (seen i)) (rs_order (seen i)) patch) (rs_meanwhile (seen i))
             in case rescan_folders c q (i + 1) fs seen rt of
                  None \<Rightarrow> None
                | Some (further, rt) \<Rightarrow> Some (rescan_lines c q f fresh patch stats @ further, rt))"

text \<open>Lines printed, whether the loop is over, and what it leaves.\<close>

definition react ::
  "bool \<Rightarrow> options \<Rightarrow> dial_target list \<Rightarrow> happening \<Rightarrow> life \<Rightarrow> (bytes list \<times> bool \<times> life) option" where
  "react c q targets h lf =
     (let verbosity = opt_verbosity q; multi = length (opt_folders q) > 1;
          label = (\<lambda>i. label_of c multi (lf_folders lf ! i))
      in case h of
           Peer_up short \<Rightarrow> Some ([peer_up_line c short], False, lf\<lparr>lf_peers := lf_peers lf + 1\<rparr>)
         | Peer_down short slow reason \<Rightarrow>
             Some ([peer_down_line c short slow reason], False, lf\<lparr>lf_peers := lf_peers lf - 1\<rparr>)
         | Logs level text \<Rightarrow> Some (log_lines c verbosity [] level text, False, lf)
         | Marked i \<Rightarrow> Some ([], False, mark_synced i lf)
         | Folder_event i short ev now \<Rightarrow>
             Some (event_lines c verbosity (label i) short ev, False,
              case ev of Synced files bytes \<Rightarrow> note_sync_time now lf | _ \<Rightarrow> lf)
         | Folder_logs i level text \<Rightarrow> Some (log_lines c verbosity (label i) level text, False, lf)
         | Router_moves rt \<Rightarrow> Some ([], False, lf\<lparr>lf_router := rt\<rparr>)
         | Iteration asked now seen \<Rightarrow>
             if asked then Some ([], True, lf)
             else
               let (acts, wt) = watch_tick q (targets \<noteq> []) (lf_folders lf) now (lf_peers lf) (lf_last_sync_ms lf) (lf_watch lf);
                   lf = lf\<lparr>lf_watch := wt\<rparr>;
                   dialled = (if Dial_again \<in> set acts then map (dialing c ''re-dialing '') targets else [])
               in if Leave \<in> set acts then Some (dialled @ [leave_line c now lf], True, lf)
                  else if Rescan \<in> set acts
                  then (case rescan_folders c q 0 (lf_folders lf) seen (lf_router lf) of
                          None \<Rightarrow> None
                        | Some (scanned, rt) \<Rightarrow> Some (dialled @ scanned, False, lf\<lparr>lf_router := rt\<rparr>))
                  else Some (dialled, False, lf))"

fun watch_loop ::
  "bool \<Rightarrow> options \<Rightarrow> dial_target list \<Rightarrow> happening list \<Rightarrow> life \<Rightarrow> (bytes list \<times> bool \<times> life) option" where
  "watch_loop c q targets [] lf = Some ([], False, lf)"
| "watch_loop c q targets (h # hs) lf =
     (case react c q targets h lf of
        None \<Rightarrow> None
      | Some (lines, over, lf) \<Rightarrow>
          if over then Some (lines, True, lf)
          else (case watch_loop c q targets hs lf of
                  None \<Rightarrow> None
                | Some (further, over, lf) \<Rightarrow> Some (lines @ further, over, lf)))"

definition stop_lines :: "bool \<Rightarrow> bytes list" where
  "stop_lines c = [[], dim c (str ''shutting down...''), green c (str ''stopped.'')]"

text \<open>How the program stands: it has exited, an exception has ended it, or it goes on.\<close>

datatype outcome = Exited nat | Aborted | Going_on

text \<open>The whole of \<open>run_daemon\<close>: what it prints itself and its exit code, if it has one yet. None: a scan does not
  return. What librats logs on its own with \<open>-v\<close> is not part of it.\<close>

definition run_daemon :: "'e world \<Rightarrow> options \<Rightarrow> int \<Rightarrow> happening list \<Rightarrow> (bytes list \<times> outcome) option" where
  "run_daemon w q now hs =
     (let c = term_init (opt_no_color q) (wo_no_color w) (wo_tty w)
      in case start_up w q of
           None \<Rightarrow> None
         | Some (lines, Exits code) \<Rightarrow> Some (lines, Exited code)
         | Some (lines, Aborts) \<Rightarrow> Some (lines, Aborted)
         | Some (lines, Started r) \<Rightarrow>
             (case watch_loop c q (rn_targets r) hs (new_life (rn_folders r) now (rn_router r)) of
                None \<Rightarrow> None
              | Some (further, over, lf) \<Rightarrow>
                  Some (lines @ further @ (if over then stop_lines c else []), if over then Exited 0 else Going_on)))"

section \<open>The program\<close>

definition basename_of :: "bytes \<Rightarrow> bytes" where
  "basename_of p = rev (takeWhile (\<lambda>c. c \<noteq> slash \<and> c \<noteq> backslash) (rev p))"

definition version_text :: "bytes \<Rightarrow> bytes \<Rightarrow> bytes" where
  "version_text version describe =
     str ''rasync '' @ version @ (if describe \<noteq> str ''unknown'' then str '' ('' @ describe @ str '')'' else [])"

definition usage_error :: "bool \<Rightarrow> bytes \<Rightarrow> bytes \<Rightarrow> bytes list" where
  "usage_error c prog error =
     [red c (str ''error: '') @ error, [], str ''Run '' @ [39] @ prog @ str '' --help'' @ [39] @ str '' for usage.'']"

text \<open>What goes to the standard output, what goes to the error stream, and the exit code, if there is one yet.\<close>

definition main_program ::
  "'e world \<Rightarrow> bytes \<Rightarrow> bytes list \<Rightarrow> int \<Rightarrow> happening list \<Rightarrow> (bytes list \<times> bytes list \<times> outcome) option" where
  "main_program w describe argv now hs =
     (let prog = basename_of (if argv = [] then str ''rasync'' else hd argv); pr = parse_args argv;
          c = term_init False (wo_no_color w) (wo_tty w)
      in case pr_action pr of
           Help \<Rightarrow> Some ([help_text c (wo_version w) prog], [], Exited 0)
         | Version \<Rightarrow> Some ([version_text (wo_version w) describe], [], Exited 0)
         | Error \<Rightarrow> Some ([], usage_error c prog (pr_error pr), Exited 2)
         | Run \<Rightarrow> map_option (\<lambda>(lines, out). (lines, [], out)) (run_daemon w (pr_options pr) now hs))"

section \<open>A run and its history\<close>

text \<open>What the code's counters stand for: the connections made and lost, which folders were marked, and when the
  last report of one in sync noted the time.\<close>

definition ups :: "happening list \<Rightarrow> int" where
  "ups hs = int (length (filter (\<lambda>h. case h of Peer_up _ \<Rightarrow> True | _ \<Rightarrow> False) hs))"

definition downs :: "happening list \<Rightarrow> int" where
  "downs hs = int (length (filter (\<lambda>h. case h of Peer_down _ _ _ \<Rightarrow> True | _ \<Rightarrow> False) hs))"

definition marked :: "happening list \<Rightarrow> nat set" where
  "marked hs = {i. Marked i \<in> set hs}"

fun synced_at :: "happening \<Rightarrow> int option" where
  "synced_at (Folder_event i short (Synced files bytes) now) = Some now"
| "synced_at h = None"

definition last_sync :: "happening list \<Rightarrow> int" where
  "last_sync hs = (let times = List.map_filter synced_at hs in if times = [] then 0 else last times div 1000000)"

lemma history_simps [simp]:
  "ups [] = 0" "downs [] = 0" "marked [] = {}" "last_sync [] = 0"
  "ups (hs @ [h]) = ups hs + (case h of Peer_up _ \<Rightarrow> 1 | _ \<Rightarrow> 0)"
  "downs (hs @ [h]) = downs hs + (case h of Peer_down _ _ _ \<Rightarrow> 1 | _ \<Rightarrow> 0)"
  "marked (hs @ [h]) = marked hs \<union> (case h of Marked i \<Rightarrow> {i} | _ \<Rightarrow> {})"
  "last_sync (hs @ [h]) = (case synced_at h of None \<Rightarrow> last_sync hs | Some now \<Rightarrow> now div 1000000)"
  by (auto simp: ups_def downs_def marked_def last_sync_def List.map_filter_def Let_def split: happening.split option.split)

text \<open>The state after a history that has not ended.\<close>

definition recorded :: "watched list \<Rightarrow> int \<Rightarrow> happening list \<Rightarrow> life \<Rightarrow> bool" where
  "recorded fs now0 hs lf \<longleftrightarrow> lf_peers lf = ups hs - downs hs \<and> lf_last_sync_ms lf = last_sync hs
     \<and> length (lf_folders lf) = length fs
     \<and> (\<forall>i < length fs. lf_folders lf ! i = (fs ! i)\<lparr>wd_synced_once := i \<in> marked hs\<rparr>)
     \<and> wt_started (lf_watch lf) = now0"

lemma watch_tick_started:
  "watch_tick q targets fs now peers since wt = (acts, wt') \<Longrightarrow> wt_started wt' = wt_started wt"
  by (auto simp: watch_tick_def Let_def split: prod.splits if_splits)

lemma recorded_step:
  assumes "recorded fs now0 hs lf" "react c q targets h lf = Some (lines, over, lf')"
  shows "recorded fs now0 (hs @ [h]) lf'"
proof -
  have "lf_last_sync_ms lf' = (case synced_at h of None \<Rightarrow> lf_last_sync_ms lf | Some now \<Rightarrow> now div 1000000)
      \<and> wt_started (lf_watch lf') = wt_started (lf_watch lf)
      \<and> lf_folders lf' = (case h of Marked i \<Rightarrow> (lf_folders lf)[i := (lf_folders lf ! i)\<lparr>wd_synced_once := True\<rparr>] | _ \<Rightarrow> lf_folders lf)
      \<and> lf_peers lf' = lf_peers lf + (case h of Peer_up _ \<Rightarrow> 1 | Peer_down _ _ _ \<Rightarrow> - 1 | _ \<Rightarrow> 0)"
    using assms(2)
    by (auto simp: react_def Let_def mark_synced_def note_sync_time_def
        split: happening.splits event.splits if_splits prod.splits option.splits dest: watch_tick_started)
  moreover have at: "(lf_folders lf)[i := f] ! j = (if i = j then f else lf_folders lf ! j)" if "j < length fs" for i j f
    using assms(1) that by (simp add: recorded_def nth_list_update)
  ultimately show ?thesis
    using assms(1) by (auto simp: recorded_def at split: happening.split option.split)
qed

lemma recorded_new: "list_all (\<lambda>f. \<not> wd_synced_once f) fs \<Longrightarrow> recorded fs now0 [] (new_life fs now0 rt)"
  by (simp add: recorded_def new_life_def list_all_length)

lemma watch_loop_snoc:
  "watch_loop c q targets (hs @ [h]) lf =
    (case watch_loop c q targets hs lf of
       None \<Rightarrow> None
     | Some (lines, over, lf) \<Rightarrow> if over then Some (lines, True, lf)
         else (case react c q targets h lf of None \<Rightarrow> None | Some (out, over, lf) \<Rightarrow> Some (lines @ out, over, lf)))"
  by (induction hs arbitrary: lf) (auto split: prod.split option.split)

text \<open>When an iteration ends the run, by the history before it.\<close>

definition leaves :: "options \<Rightarrow> nat \<Rightarrow> int \<Rightarrow> happening list \<Rightarrow> bool \<Rightarrow> int \<Rightarrow> bool" where
  "leaves q n now0 hs asked now \<longleftrightarrow> asked \<or> opt_once q \<and>
     ((\<forall>i < n. i \<in> marked hs) \<and> now div 1000000 - last_sync hs > 1500
      \<or> ups hs = downs hs \<and> now - now0 > 30 * 1000000000)"

lemma iteration_over:
  assumes "recorded fs now0 hs lf" "react c q targets (Iteration asked now seen) lf = Some (out, over, lf')"
  shows "over \<longleftrightarrow> leaves q (length fs) now0 hs asked now"
proof -
  have "all_synced (lf_folders lf) \<longleftrightarrow> (\<forall>i < length fs. i \<in> marked hs)"
    using assms(1) by (auto simp: all_synced_def list_all_length recorded_def)
  moreover have "Leave \<in> set (fst (watch_tick q t (lf_folders lf) now (lf_peers lf) (lf_last_sync_ms lf) (lf_watch lf))) \<longleftrightarrow>
      opt_once q \<and> (all_synced (lf_folders lf) \<and> now div 1000000 - lf_last_sync_ms lf > 1500
        \<or> lf_peers lf = 0 \<and> now - wt_started (lf_watch lf) > 30 * 1000000000)" for t
    by (simp add: watch_tick_def Let_def split: prod.split)
  moreover have "over \<longleftrightarrow> asked \<or> Leave \<in> set (fst (watch_tick q (targets \<noteq> []) (lf_folders lf) now (lf_peers lf)
      (lf_last_sync_ms lf) (lf_watch lf)))"
    using assms(2) by (auto simp: react_def Let_def split: if_splits prod.splits option.splits)
  ultimately show ?thesis
    using assms(1) by (simp add: recorded_def leaves_def)
qed

lemma react_over: "react c q targets h lf = Some (out, over, lf') \<Longrightarrow> over \<Longrightarrow> \<exists>asked now seen. h = Iteration asked now seen"
  by (auto simp: react_def Let_def split: happening.splits)

text \<open>Some iteration of a history, with what came before it, is one that \<open>P\<close> holds of.\<close>

definition reaches :: "(happening list \<Rightarrow> bool \<Rightarrow> int \<Rightarrow> bool) \<Rightarrow> happening list \<Rightarrow> bool" where
  "reaches P hs \<longleftrightarrow> (\<exists>before asked now seen later. hs = before @ Iteration asked now seen # later \<and> P before asked now)"

lemma reaches_snoc: "reaches P (hs @ [h]) \<longleftrightarrow> reaches P hs \<or> (\<exists>asked now seen. h = Iteration asked now seen \<and> P hs asked now)"
proof
  assume "reaches P (hs @ [h])"
  then obtain before asked now seen later where "hs @ [h] = before @ Iteration asked now seen # later" "P before asked now"
    unfolding reaches_def by blast
  then show "reaches P hs \<or> (\<exists>asked now seen. h = Iteration asked now seen \<and> P hs asked now)"
    unfolding reaches_def by (cases later rule: rev_cases) (simp, simp, blast)
next
  assume "reaches P hs \<or> (\<exists>asked now seen. h = Iteration asked now seen \<and> P hs asked now)"
  then show "reaches P (hs @ [h])"
  proof
    assume "reaches P hs"
    then obtain before asked now seen later where "hs = before @ Iteration asked now seen # later" "P before asked now"
      unfolding reaches_def by blast
    then have "hs @ [h] = before @ Iteration asked now seen # (later @ [h])" "P before asked now"
      by simp_all
    then show ?thesis unfolding reaches_def by blast
  next
    assume "\<exists>asked now seen. h = Iteration asked now seen \<and> P hs asked now"
    then show ?thesis unfolding reaches_def by blast
  qed
qed

lemma watch_loop_recorded:
  assumes "list_all (\<lambda>f. \<not> wd_synced_once f) fs" "watch_loop c q targets hs (new_life fs now0 rt) = Some (lines, over, lf)"
  shows "(over \<longleftrightarrow> reaches (leaves q (length fs) now0) hs)
    \<and> (\<not> over \<longrightarrow> recorded fs now0 hs lf)"
  using assms(2)
proof (induction hs arbitrary: lines over lf rule: rev_induct)
  case Nil
  then have "\<not> over" "lf = new_life fs now0 rt"
    by auto
  then show ?case using recorded_new [OF assms(1)] by (simp add: reaches_def)
next
  case (snoc h hs)
  obtain l1 o1 lf1 where one: "watch_loop c q targets hs (new_life fs now0 rt) = Some (l1, o1, lf1)"
    using snoc.prems by (auto simp: watch_loop_snoc split: option.splits)
  note IH = snoc.IH [OF one]
  show ?case
  proof (cases o1)
    case True
    have over
      using snoc.prems True by (simp add: watch_loop_snoc one)
    with IH True show ?thesis
      by (auto simp: reaches_snoc)
  next
    case False
    obtain out where h: "react c q targets h lf1 = Some (out, over, lf)"
      using snoc.prems False by (auto simp: watch_loop_snoc one split: prod.splits option.splits)
    have rec1: "recorded fs now0 hs lf1"
      using IH False by blast
    have step: "over \<longleftrightarrow> (\<exists>asked now seen. h = Iteration asked now seen \<and> leaves q (length fs) now0 hs asked now)"
    proof (cases "\<exists>asked now seen. h = Iteration asked now seen")
      case True
      then obtain asked now seen where "h = Iteration asked now seen" by blast
      then show ?thesis
        using iteration_over [OF rec1] h by simp
    next
      case False
      then show ?thesis
        using react_over [OF h] by blast
    qed
    with IH False recorded_step [OF rec1 h] show ?thesis
      by (auto simp: reaches_snoc)
  qed
qed

text \<open>A history whose rescans walk file systems with finitely many directories below each root is gone through.\<close>

definition rescannable :: "watched list \<Rightarrow> happening list \<Rightarrow> bool" where
  "rescannable fs hs \<longleftrightarrow> (\<forall>asked now seen. Iteration asked now seen \<in> set hs \<longrightarrow>
     (\<forall>i < length fs. sane_names (rs_os (seen i)) \<and> finitely_many_dirs (rs_os (seen i)) (wd_scanner (fs ! i)) (wd_root (fs ! i))))"

lemma rescan_folders_ends:
  assumes "\<forall>j < length fs. sane_names (rs_os (seen (i + j)))
      \<and> finitely_many_dirs (rs_os (seen (i + j))) (wd_scanner (fs ! j)) (wd_root (fs ! j))"
  shows "rescan_folders c q i fs seen rt \<noteq> None"
  using assms
proof (induction fs arbitrary: i rt)
  case (Cons f fs)
  have "sane_names (rs_os (seen i))" "finitely_many_dirs (rs_os (seen i)) (wd_scanner f) (wd_root f)"
    using Cons.prems by force+
  from scan_tree_result [OF this] obtain fresh stats where
    "scan_tree (rs_os (seen i)) (wd_scanner f) (wd_root f) (Some (sv_local (fd_service (rt_folders rt ! i)))) = Some (fresh, stats)"
    by metis
  moreover have "\<forall>j < length fs. sane_names (rs_os (seen (i + 1 + j)))
      \<and> finitely_many_dirs (rs_os (seen (i + 1 + j))) (wd_scanner (fs ! j)) (wd_root (fs ! j))"
    using Cons.prems by (auto simp: All_less_Suc2)
  from Cons.IH [OF this] have "rescan_folders c q (i + 1) fs seen rt' \<noteq> None" for rt' .
  ultimately show ?case
    by (auto simp: Let_def split: option.split)
qed simp

lemma react_ends:
  assumes "recorded fs now0 hs lf" "rescannable fs [h]"
  shows "react c q targets h lf \<noteq> None"
proof (cases h)
  case (Iteration asked now seen)
  have "rescan_folders c q 0 (lf_folders lf) seen (lf_router lf) \<noteq> None"
  proof (rule rescan_folders_ends, intro allI impI)
    fix j
    assume "j < length (lf_folders lf)"
    with assms show "sane_names (rs_os (seen (0 + j)))
        \<and> finitely_many_dirs (rs_os (seen (0 + j))) (wd_scanner (lf_folders lf ! j)) (wd_root (lf_folders lf ! j))"
      by (simp add: recorded_def rescannable_def Iteration)
  qed
  then show ?thesis
    by (auto simp: react_def Iteration Let_def split: prod.split)
qed (simp_all add: react_def Let_def)

lemma watch_loop_ends:
  assumes "list_all (\<lambda>f. \<not> wd_synced_once f) fs" "rescannable fs hs"
  shows "watch_loop c q targets hs (new_life fs now0 rt) \<noteq> None"
  using assms(2)
proof (induction hs rule: rev_induct)
  case (snoc h hs)
  have parts: "rescannable fs hs" "rescannable fs [h]"
    using snoc.prems by (auto simp: rescannable_def)
  from snoc.IH [OF parts(1)] obtain lines over lf where
    one: "watch_loop c q targets hs (new_life fs now0 rt) = Some (lines, over, lf)"
    by auto
  have "react c q targets h lf \<noteq> None" if "\<not> over"
    using watch_loop_recorded [OF assms(1) one] that react_ends [OF _ parts(2)] by blast
  then show ?case
    by (cases over) (auto simp: watch_loop_snoc one split: option.split)
qed simp

text \<open>The loop's own move of the router is one of the router's steps.\<close>

lemma rescan_folders_reached:
  assumes "rescan_folders c q i fs seen rt = Some (lines, rt')" "reached pfss rt" "pfs \<in> pfss" "\<forall>j. rs_platform (seen j) = pfs j"
    and "\<forall>j < length fs. reached pfss (rs_meanwhile (seen (i + j))) \<and> i + j < length (rt_folders (rs_meanwhile (seen (i + j))))"
  shows "reached pfss rt'"
  using assms
proof (induction fs arbitrary: i rt lines)
  case (Cons f fs)
  have now: "reached pfss (rs_meanwhile (seen i))" "i < length (rt_folders (rs_meanwhile (seen i)))"
    using Cons.prems(5) by force+
  have "reached pfss (on_folder i (publish (rs_platform (seen i)) order patch) (rs_meanwhile (seen i)))" for order patch
  proof (cases "patch_empty patch")
    case True
    then have "publish pf order patch = (\<lambda>fd. fd)" for pf
      by (simp add: publish_def fun_eq_iff)
    with now show ?thesis by (simp add: on_folder_def)
  next
    case False
    then have "publish pf order patch = folder_patched pf order patch" for pf
      by (simp add: publish_def fun_eq_iff)
    with reached.Steps [OF now(1) Cons.prems(3) router_step.Patches [OF now(2)]] Cons.prems(4) show ?thesis by simp
  qed
  moreover have "\<forall>j < length fs. reached pfss (rs_meanwhile (seen (i + 1 + j))) \<and> i + 1 + j < length (rt_folders (rs_meanwhile (seen (i + 1 + j))))"
    using Cons.prems(5) by (auto simp: All_less_Suc2)
  ultimately show ?case
    using Cons.prems(1) Cons.IH [OF _ _ Cons.prems(3,4)] by (auto simp: Let_def split: option.splits)
qed simp

section \<open>Properties\<close>

text \<open>C16. A run ends when it should and at no other moment. On file systems whose scans end the loop goes through
  every history, and it is over exactly when a stop was asked for
  at an iteration, or, with \<open>--once\<close>, when every folder has been marked as in sync with a peer and the last time
  noted for that lies more than 1.5 s back, or when no connection is left and 30 s have passed; all of it by what
  has happened, not by what the counters say. As long as one connection is left no address is dialled: an
  iteration prints nothing but why it leaves, or what its rescan found.\<close>

theorem run_ends_exactly:
  assumes "list_all (\<lambda>f. \<not> wd_synced_once f) fs"
  shows "(rescannable fs hs \<longrightarrow> watch_loop c q targets hs (new_life fs now0 rt) \<noteq> None)
    \<and> (\<forall>lines over lf. watch_loop c q targets hs (new_life fs now0 rt) = Some (lines, over, lf) \<longrightarrow>
      (over \<longleftrightarrow> (\<exists>before asked now seen later. hs = before @ Iteration asked now seen # later \<and>
        (asked \<or> opt_once q \<and>
           ((\<forall>i < length fs. i \<in> marked before) \<and> now div 1000000 - last_sync before > 1500
            \<or> ups before = downs before \<and> now - now0 > 30 * 1000000000))))
      \<and> (\<not> over \<and> ups hs > downs hs \<longrightarrow> (\<forall>asked now seen out ended lf'.
          react c q targets (Iteration asked now seen) lf = Some (out, ended, lf') \<longrightarrow>
            out = (if ended \<and> \<not> asked then [leave_line c now lf] else [])
            \<or> \<not> ended \<and> rescan_folders c q 0 (lf_folders lf) seen (lf_router lf) = Some (out, lf_router lf'))))"
proof (intro conjI allI impI)
  show "watch_loop c q targets hs (new_life fs now0 rt) \<noteq> None" if "rescannable fs hs"
    using watch_loop_ends [OF assms that] .
next
  fix lines over lf
  assume loop: "watch_loop c q targets hs (new_life fs now0 rt) = Some (lines, over, lf)"
  from watch_loop_recorded [OF assms loop] show "over \<longleftrightarrow> (\<exists>before asked now seen later. hs = before @ Iteration asked now seen # later \<and>
        (asked \<or> opt_once q \<and>
           ((\<forall>i < length fs. i \<in> marked before) \<and> now div 1000000 - last_sync before > 1500
            \<or> ups before = downs before \<and> now - now0 > 30 * 1000000000)))"
    unfolding reaches_def leaves_def by blast
next
  fix lines over lf asked now seen out ended lf'
  assume loop: "watch_loop c q targets hs (new_life fs now0 rt) = Some (lines, over, lf)"
    and up: "\<not> over \<and> ups hs > downs hs"
    and it: "react c q targets (Iteration asked now seen) lf = Some (out, ended, lf')"
  have "lf_peers lf > 0"
    using watch_loop_recorded [OF assms loop] up by (simp add: recorded_def)
  then have quiet: "Dial_again \<notin> set (fst (watch_tick q t (lf_folders lf) now (lf_peers lf) (lf_last_sync_ms lf) (lf_watch lf)))" for t
    by (simp add: watch_tick_def due_def Let_def)
  obtain acts wt where tick: "watch_tick q (targets \<noteq> []) (lf_folders lf) now (lf_peers lf) (lf_last_sync_ms lf)
      (lf_watch lf) = (acts, wt)"
    by force
  have "Dial_again \<notin> set acts"
    using quiet by (metis tick fst_conv)
  moreover have "leave_line c now (lf\<lparr>lf_watch := wt\<rparr>) = leave_line c now lf"
    by (simp add: leave_line_def)
  ultimately show "out = (if ended \<and> \<not> asked then [leave_line c now lf] else [])
      \<or> \<not> ended \<and> rescan_folders c q 0 (lf_folders lf) seen (lf_router lf) = Some (out, lf_router lf')"
    using it by (auto simp: react_def Let_def tick split: if_splits option.splits)
qed

definition once_options :: options where
  "once_options = default_options\<lparr>opt_folders := [default_folder], opt_once := True\<rparr>"

definition sample_watched :: watched where
  "sample_watched = \<lparr>wd_name = [], wd_root = [], wd_root_key = [], wd_data_dir = [],
     wd_scanner = \<lparr>sn_ignore = [], sn_follow = False\<rparr>, wd_synced_once = False\<rparr>"

definition sample_seen :: "nat \<Rightarrow> rescan" where
  "sample_seen i = \<lparr>rs_os = one_file_os, rs_meanwhile = new_router, rs_platform = sample_platform, rs_order = []\<rparr>"

theorem run_ends_exactly_witness:
  "\<exists>lines lf. watch_loop False once_options [] [Peer_up [], Marked 0, Folder_event 0 [] (Synced 3 9) 0, Iteration False 2000000000 sample_seen]
      (new_life [sample_watched] 0 new_router) = Some (lines, True, lf)"
proof -
  let ?before = "[Peer_up [], Marked 0, Folder_event 0 [] (Synced 3 9) 0]"
  let ?hs = "?before @ Iteration False 2000000000 sample_seen # []"
  have fresh: "list_all (\<lambda>f. \<not> wd_synced_once f) [sample_watched]"
    by (simp add: sample_watched_def)
  note ends = run_ends_exactly [OF fresh, of ?hs False once_options "[]" 0 new_router]
  have "rescannable [sample_watched] ?hs"
    using one_file_scannable by (simp add: rescannable_def sample_seen_def)
  then obtain lines over lf where run: "watch_loop False once_options [] ?hs (new_life [sample_watched] 0 new_router) = Some (lines, over, lf)"
    using ends by auto
  have "marked ?before = {0}" "last_sync ?before = 0"
    by (auto simp: marked_def last_sync_def map_filter_simps)
  then have "False \<or> opt_once once_options \<and>
      ((\<forall>i < length [sample_watched]. i \<in> marked ?before) \<and> 2000000000 div 1000000 - last_sync ?before > 1500
        \<or> ups ?before = downs ?before \<and> 2000000000 - 0 > (30 * 1000000000 :: int))"
    by (simp add: once_options_def)
  with ends run have over
    by blast
  with run show ?thesis by simp
qed

text \<open>The 1.5 s are not always waited for: between the two stores of the callback an iteration finds every folder
  marked and the time still that of the last sync before, or none at all, and leaves.\<close>

theorem leaves_between_stores:
  "\<exists>lines lf. watch_loop c once_options targets [Peer_up short, Marked 0, Iteration False 1501000000 seen]
      (new_life [sample_watched] 1500000000 rt) = Some (lines, True, lf)"
proof -
  have "Leave \<in> set (fst (watch_tick once_options t [sample_watched\<lparr>wd_synced_once := True\<rparr>] 1501000000 1 0 wt))" for t wt
    by (simp add: watch_tick_def Let_def once_options_def all_synced_def split: prod.split)
  moreover obtain acts wt where tick: "watch_tick once_options (targets \<noteq> []) [sample_watched\<lparr>wd_synced_once := True\<rparr>] 1501000000 1 0
      \<lparr>wt_retry = new_dial_retry 8000 120000, wt_last_rescan = 1500000000, wt_started = 1500000000\<rparr> = (acts, wt)"
    by force
  ultimately have "Leave \<in> set acts"
    by (metis fst_conv)
  then show ?thesis
    by (simp add: react_def Let_def mark_synced_def new_life_def tick)
qed

text \<open>C17. The shared key is never shown: whatever happens in a run, everything \<open>run_daemon\<close> prints, the lines of its
  rescans included, and its exit code are the same for any two keys. The texts of log lines, which it only passes
  on, are part of what happens.\<close>

theorem key_never_shown:
  assumes "k \<noteq> []" "opt_key q \<noteq> []"
  shows "run_daemon w (q\<lparr>opt_key := k\<rparr>) now hs = run_daemon w q now hs"
proof -
  have "watch_tick (q\<lparr>opt_key := k\<rparr>) t fs n peers since wt = watch_tick q t fs n peers since wt" for t fs n peers since wt
  proof -
    have "opt_once (q\<lparr>opt_key := k\<rparr>) = opt_once q" "opt_interval (q\<lparr>opt_key := k\<rparr>) = opt_interval q"
      by simp_all
    then show ?thesis
      by (simp only: watch_tick_def)
  qed
  moreover have "rescan_lines c (q\<lparr>opt_key := k\<rparr>) f fresh patch stats = rescan_lines c q f fresh patch stats" for c f fresh patch stats
    by (simp add: rescan_lines_def)
  then have "rescan_folders c (q\<lparr>opt_key := k\<rparr>) i fs seen rt = rescan_folders c q i fs seen rt" for c i fs seen rt
    by (induction fs arbitrary: i rt) (simp_all add: Let_def split: option.split prod.split)
  ultimately have "react c (q\<lparr>opt_key := k\<rparr>) targets h lf = react c q targets h lf" for c targets h lf
    by (cases h) (simp_all add: react_def Let_def split: prod.split)
  then have loop: "watch_loop c (q\<lparr>opt_key := k\<rparr>) targets hs lf = watch_loop c q targets hs lf" for c targets lf
    by (induction hs arbitrary: lf) (simp_all split: option.split prod.split)
  have same: "rn_folders r = rn_folders r' \<and> rn_targets r = rn_targets r' \<and> rn_router r = rn_router r'"
    if "without_key r = without_key r'" for r r'
    using arg_cong [OF that, of rn_folders] arg_cong [OF that, of rn_targets] arg_cong [OF that, of rn_router]
    by (simp add: without_key_def)
  note start = start_up_without_key [OF assms, of w]
  show ?thesis
  proof (cases "start_up w q")
    case None
    with start show ?thesis by (simp add: run_daemon_def)
  next
    case (Some lo)
    then obtain lines out where up: "start_up w q = Some (lines, out)"
      by force
    with start obtain out' where up': "start_up w (q\<lparr>opt_key := k\<rparr>) = Some (lines, out')"
      "ending_without_key out' = ending_without_key out"
      by auto
    then consider "out = out'" | r r' where "out = Started r" "out' = Started r'" "without_key r' = without_key r"
      by (cases out; cases out') auto
    then show ?thesis
    proof cases
      case 1
      with up up' show ?thesis by (simp add: run_daemon_def loop)
    next
      case 2
      with up up' same [OF 2(3)] show ?thesis by (simp add: run_daemon_def loop)
    qed
  qed
qed

theorem key_never_shown_witness:
  "run_daemon sample_world (sample_run\<lparr>opt_verbosity := 2, opt_key := str ''secret''\<rparr>) 0 [Peer_up [97], Iteration False 90000000000 sample_seen] =
   run_daemon sample_world (sample_run\<lparr>opt_verbosity := 2\<rparr>) 0 [Peer_up [97], Iteration False 90000000000 sample_seen]"
  by (rule key_never_shown) (simp_all add: sample_run_def str_def)

text \<open>With \<open>--quiet\<close> the warnings and errors, which the help says are then still shown, are not; that a peer is
  connected or a folder in sync is.\<close>

theorem quiet_hides_warnings:
  "opt_verbosity (pr_options (parse_args [str ''rasync'', str ''-q'', str ''d''])) = 0
    \<and> (opt_verbosity q = 0 \<longrightarrow> map_option fst (react c q targets (Logs level text) lf) = Some []
        \<and> map_option fst (react c q targets (Folder_logs i level text) lf) = Some []
        \<and> map_option fst (react c q targets (Peer_up short) lf) \<noteq> Some []
        \<and> map_option fst (react c q targets (Folder_event i short (Synced files bytes) now) lf) \<noteq> Some [])"
proof -
  have "opt_verbosity (pr_options (parse_args [str ''rasync'', str ''-q'', str ''d''])) = 0"
    by code_simp
  then show ?thesis
    by (simp add: react_def log_lines_def event_lines_def Let_def)
qed

section \<open>Exit codes\<close>

text \<open>The program ends with 2 on a command line it refuses or a start it gives up, with 0 after the help, the
  version or a run that is over, by an exception where starting up throws, and not while the run goes on.\<close>

theorem exit_codes:
  assumes "main_program w describe argv now hs = Some (out, err, outcome)"
  shows "outcome = (case pr_action (parse_args argv) of
      Error \<Rightarrow> Exited 2
    | Run \<Rightarrow> (case start_up w (pr_options (parse_args argv)) of
          Some (lines, Started r) \<Rightarrow>
            (case watch_loop (term_init (opt_no_color (pr_options (parse_args argv))) (wo_no_color w) (wo_tty w))
                 (pr_options (parse_args argv)) (rn_targets r) hs (new_life (rn_folders r) now (rn_router r)) of
               Some (lines, True, lf) \<Rightarrow> Exited 0 | _ \<Rightarrow> Going_on)
        | Some (lines, Aborts) \<Rightarrow> Aborted
        | _ \<Rightarrow> Exited 2)
    | _ \<Rightarrow> Exited 0)"
proof -
  have "code' = 2" if "give_up c lines e = (lines', Exits code')" for c lines e lines' code'
    using that by (cases e) auto
  then have refused: "code' = 2" if "start_up w q = Some (lines, Exits code')" for q lines code'
    using that by (auto simp: start_up_def Let_def split: sum.splits option.splits prod.splits if_splits)
  let ?pr = "parse_args argv"
  show ?thesis
  proof (cases "pr_action ?pr")
    case Run
    with assms obtain lines where run: "run_daemon w (pr_options ?pr) now hs = Some (lines, outcome)"
      by (auto simp: main_program_def Let_def)
    obtain started ending where up: "start_up w (pr_options ?pr) = Some (started, ending)"
      using run by (cases "start_up w (pr_options ?pr)") (auto simp: run_daemon_def Let_def)
    show ?thesis
    proof (cases ending)
      case (Exits code')
      with run up refused [OF up [unfolded Exits]] show ?thesis
        by (simp add: Run run_daemon_def Let_def)
    next
      case Aborts
      with run up show ?thesis
        by (simp add: Run run_daemon_def Let_def)
    next
      case (Started r)
      with run up show ?thesis
        by (auto simp: Run run_daemon_def Let_def split: prod.splits option.splits bool.splits)
    qed
  qed (use assms in \<open>simp_all add: main_program_def Let_def\<close>)
qed

end
