(* ===== verification/Spec2Isabelle.thy ===== *)
theory Spec2Isabelle
  imports Daemon Scanner_Cache Send_Gate Two_Way Peer_View Mirror_Source Scratch_Dir File_Ops File_Stat_Windows Watch
begin

text \<open>
  rasync keeps the same directory tree on two machines: each peer describes its tree, plans a round
  against the other's description and pulls the files it lacks, whole or as rsync deltas. The program
  has three layers and a program around them, and this development follows them. Paths are those under \<open>src/src/rasync/\<close>.

  \<^bold>\<open>The pure core\<close> (\<open>core/\<close>).
  \<^item> \<open>Prelude\<close>: machine types, big-endian bytes, the shared rewrite collections.
  \<^item> \<open>Serialize\<close> (\<open>serialize.h\<close>): every method of \<open>BinaryWriter\<close> and \<open>BinaryReader\<close>; for each reader, what
    it returns in front of its own writer's bytes, and what it consumes of any bytes.
  \<^item> \<open>Ordered_Map\<close>: \<open>std::map\<close> as a sorted association list, behind the locale \<open>ordered_map\<close>.
  \<^item> \<open>Manifest\<close> (\<open>file_meta.h\<close>, \<open>manifest.h\<close>, \<open>manifest.cpp\<close>): the description of a tree, its patches, codec
    and fingerprint.
  \<^item> \<open>Fs_Path\<close>: what the program uses of \<open>std::filesystem::path\<close>, and which directory a path names.
  \<^item> \<open>File_Stat\<close> and \<open>File_Stat_Windows\<close> (\<open>file_stat.h\<close>, \<open>file_stat.cpp\<close>): what a path is, where it leads and when it
    changed, in the POSIX and in the Windows build; \<open>Scanner\<close> and \<open>Scanner_Cache\<close> (\<open>scanner.h\<close>, \<open>scanner.cpp\<close>): the walk
    of a tree into a manifest, with its two ways to treat links; that it ends and what it finds, and
    what the hash cache and a repetition do.
  \<^item> \<open>State_Dir\<close> (\<open>state_dir.h\<close>, \<open>state_dir.cpp\<close>): where state lives and how an older version's is moved.
  \<^item> \<open>Path\<close> (\<open>path.h\<close>) and \<open>Ignore\<close> (\<open>ignore.h\<close>, \<open>ignore.cpp\<close>): the paths a peer may name, and the ignore
    rules, whose matchers are compared with relations that say what the header promises.
  \<^item> \<open>Diff\<close> (\<open>diff.h\<close>, \<open>diff.cpp\<close>): the three-way plan of a round, two-way and mirror.
  \<^item> \<open>Hash\<close> (\<open>hash.h\<close>, \<open>hash.cpp\<close>, \<open>net/auth.cpp\<close>) and \<open>Delta\<close> (\<open>delta.h\<close>, \<open>delta.cpp\<close>): streamed hashing, the
    derived identifiers, signatures, the rolling scan and the application of a delta.

  \<^bold>\<open>One peer, one folder\<close> (\<open>net/\<close>).
  \<^item> \<open>Protocol\<close> (\<open>protocol.h\<close>, \<open>sync_service.h\<close>, \<open>sync_service.cpp\<close>): opcodes, the configuration, the folder's
    manifests and disk.
  \<^item> \<open>Session\<close> (\<open>sync_session.h\<close>, \<open>sync_session.cpp\<close>): the session's state as a record, every handler as a
    function on it, \<open>deliver\<close> as the router calls them, and \<open>session_step\<close> for everything that can happen to
    a session.
  \<^item> \<open>Session_Update\<close>: the advertisement of a tree and its assembly by the peer.
  \<^item> \<open>Session_Transfer\<close>: one file from one peer to the other.
  \<^item> \<open>Session_Safety\<close>: what holds of a session after any history.
  \<^item> \<open>Session_Sync\<close>: two sessions and the link between them, a whole mirror run from the first message to
    equal trees.
  \<^item> \<open>Standing\<close> and \<open>Two_Way\<close>: what each event makes of an end that runs in two-way mode, and a whole two-way
    run, from the handshake over both ends' deletions and pulls to the merged tree and its baseline.
  \<^item> \<open>Peer_View\<close>: the paths a peer can put into a session's state over any history are safe ones, and what that
    filter costs.
  \<^item> \<open>Mirror_Source\<close>: the authoritative side of a mirror over every history, and what a peer can do to it.
  \<^item> \<open>Scratch_Dir\<close> (\<open>sync_service.cpp\<close>, \<open>sync_session.cpp\<close>): when the scratch directory is in the synced tree, beside
    every step of a session; what a stop, a finished and a failed transfer leave of it.
  \<^item> \<open>File_Ops\<close> (the file helpers of \<open>sync_session.cpp\<close>): removing with retries, where a link's bytes belong,
    and the pruning of emptied directories on a tree.
  \<^item> \<open>Handshake\<close>: when two peers take each other for compatible, and what a refused user is told.

  \<^bold>\<open>The node\<close> (\<open>net/\<close>, \<open>app/\<close>).
  \<^item> \<open>Router\<close> (\<open>sync_service.cpp\<close>, \<open>sync_router.h\<close>, \<open>sync_router.cpp\<close>): the sessions of a folder, the folders of
    a node and the dispatch of a message, as a step relation over whole nodes; the router is shown to
    refine its sessions one by one.
  \<^item> \<open>Send_Gate\<close> (\<open>send_gate.h\<close>, \<open>send_gate.cpp\<close>): the pacing of background threads, round by round, and one
    sleep step by step.
  \<^item> \<open>Dial_Retry\<close> (\<open>dial_retry.h\<close>): when lost peers are dialled again.
  \<^item> \<open>Cli\<close> and \<open>Help\<close> (\<open>cli.h\<close>, \<open>cli.cpp\<close>): the command line, and the text of \<open>--help\<close>, read back
    word by word and compared with the parser.
  \<^item> \<open>Terminal\<close> (\<open>terminal.h\<close>, \<open>terminal.cpp\<close>): styled text, and sizes for people.
  \<^item> \<open>Daemon\<close> (\<open>daemon.cpp\<close>): the setup of the folders, their rules and services, the ticks of the watch loop
    and the rescan; \<open>Start_Up\<close>: \<open>run_daemon\<close> up to the loop, with every refusal and every line printed,
    and the exceptions that end it; \<open>Watch\<close>: its callbacks, the loop with its rescans, the end, and \<open>main.cpp\<close>.

  \<^bold>\<open>How the state corresponds.\<close> The fields of \<open>session\<close> are the members of \<open>SyncSession\<close> without the
  locks and threads. A step of the model is one critical section of the code or one handler: the reactor
  thread runs handlers one at a time, the requester and the sender take turns as \<open>requester_step\<close> and
  \<open>sender_step\<close>. The disk is a map from relative paths to contents and mtimes, the scratch directory a map
  from transfer ids to contents. What leaves the session (messages, UI events) is appended to two lists.
  The outcomes the operating system decides - whether a rename, a removal, an open or a write succeeds -
  come from the record \<open>platform\<close>, so that every error path is a branch of the model. A history names the
  platform of each of its steps (\<open>session_run\<close>, \<open>scratch_run\<close>, and \<open>reached\<close> over a set of families for a node), so
  that what fails in one step can succeed in a later one; within a step equal calls have equal outcomes.

  \<^bold>\<open>Parameters.\<close> SHA-256 (librats) is a function \<open>pf_sha\<close>; where a theorem needs it to tell two contents
  apart, it says so for those contents. The file stream is a function with its documented contract
  (\<open>reads_ahead\<close>). The iteration order of the unordered multimap in the delta scan is \<open>pf_bucket\<close>.

  \<^bold>\<open>Bounds.\<close> Sizes on the wire are 32- and 64-bit words; the theorems name the sizes they hold for.
  \<open>Session_Safety\<close> bounds what one message can add to a transfer by \<open>2 ^ 32\<close> bytes, so a history of fewer
  than \<open>2 ^ 32\<close> steps cannot wrap a 64-bit counter. The loops that a file's length bounds are total
  functions; the ones that a stream bounds are partial functions, proved to return.

  A scan ends because the directories of a tree, told apart by their resolved paths, are finitely many
  (\<open>finitely_many_dirs\<close>); a wait at the gate ends because a sleep that nothing cuts short lasts at least the
  poll interval or to the deadline.

  \<^bold>\<open>Runs.\<close> \<open>Session_Safety\<close>, \<open>Peer_View\<close>, \<open>Mirror_Source\<close> and \<open>Scratch_Dir\<close> speak of every history of a session. The two theorems that
  carry a synchronisation to its end follow one schedule of the two sessions' turns: in \<open>sync_run\<close> the update
  and then one pull after the other, in \<open>two_way_run\<close> both updates at once, what the rounds deleted, the pulls of
  one end, what it has now, and the pulls of the other. The number of pulls is the length of the plan.

  \<^bold>\<open>The operating system.\<close> The scanner sees it as the record \<open>os\<close> (listings, \<open>lstat\<close>, \<open>stat\<close>, \<open>realpath\<close>, content
  hashes), the migration as \<open>move_outcomes\<close>, the program's start as the record \<open>world\<close> (the current directory,
  the environment, the contents of files, and what librats' node answers), a rescan as one record \<open>rescan\<close>
  for each folder, with the state the router has reached when the scan ends. An iteration of the watch loop reads
  the atomics of the callbacks at one instant; the two stores of the callback of a folder in sync are two steps, so that
  an iteration can fall between them. Nothing is assumed of them but what a theorem states. Points in time are
  integers, nanoseconds of the steady clock.

  \<^bold>\<open>Exceptions.\<close> Where the code calls an overload of \<open>std::filesystem\<close> that throws, nothing of rasync catches it. Starting
  up then ends as \<open>Aborts\<close>, with the lines printed so far: the status of a directory on the command line, and in the
  migration the listing and the test for an entry of the target. The third such call, \<open>fs::exists\<close> in \<open>remove_file\<close>, would end
  the program inside a session; the histories of a session are those in which it does not throw.

  \<^bold>\<open>Text.\<close> A string of the program is its bytes; what is printed is modelled byte for byte, UTF-8 glyphs and
  escape sequences included. Sizes for people go through \<open>double\<close>, which is the rationals with the rounding
  of the one inexact conversion written out.

  \<^bold>\<open>Not modelled.\<close> The node itself, its discovery subsystems and threads (librats), locks; the macOS branches,
  and the Windows branches of everything but \<open>file_stat.cpp\<close>; the log texts of sessions and services, which
  the watch loop is given as inputs; librats' own log, which \<open>-v\<close> turns on; a failure to set a file's mtime. A move
  to another file system is one replacement of the target's content here: the copy the code stages beside the
  target, \<open>.rasync-part\<close>, is not in the modelled tree. A link under a transfer's target is followed by \<open>resolve_link\<close>, a function of
  its own: the disk of a session has no links. A chunk size of zero, with which the code's loop over a
  literal does not end, is outside the model.
\<close>

end
